(* ===== verification/Prelude.thy ===== *)
theory Prelude
  imports Main "HOL-Library.Word"
begin

text \<open>
  Shared vocabulary of the development: the unsigned 32-bit arithmetic of the i386 build
  (\<open>uintptr_t\<close>, \<open>size_t\<close> and \<open>u32\<close> are natural numbers below \<open>2 ^ 32\<close>, and every operation that
  can wrap is written with \<open>u32\<close>, \<open>add32\<close> or \<open>sub32\<close>), the alignment macros of
  \<open>src/include/hybrid/align.h\<close>, and the lemma collections that the component theories extend.
\<close>

named_theorems u32_simps "evaluation of 32-bit arithmetic within range"
named_theorems frame_simps "what a write leaves alone"

unbundle bit_operations_syntax

subsection \<open>Unsigned 32-bit arithmetic\<close>

abbreviation U32 :: nat where
  "U32 \<equiv> 4294967296"

definition u32 :: "nat \<Rightarrow> nat" where
  "u32 x = x mod U32"

definition add32 :: "nat \<Rightarrow> nat \<Rightarrow> nat" where
  "add32 x y = (x + y) mod U32"

definition sub32 :: "nat \<Rightarrow> nat \<Rightarrow> nat" where
  "sub32 x y = (x + U32 - y mod U32) mod U32"

lemma u32_id [u32_simps]: "x < U32 \<Longrightarrow> u32 x = x"
  by (simp add: u32_def)

lemma u32_less [simp]: "u32 x < U32"
  by (simp add: u32_def)

lemma add32_id [u32_simps]: "x + y < U32 \<Longrightarrow> add32 x y = x + y"
  by (simp add: add32_def)

lemma add32_less [simp]: "add32 x y < U32"
  by (simp add: add32_def)

lemma sub32_id [u32_simps]: "y \<le> x \<Longrightarrow> x < U32 \<Longrightarrow> sub32 x y = x - y"
  by (simp add: sub32_def mod_if)

lemma sub32_less [simp]: "sub32 x y < U32"
  by (simp add: sub32_def)

lemma sub32_wrap: "x < y \<Longrightarrow> y < U32 \<Longrightarrow> sub32 x y = x + U32 - y"
  by (simp add: sub32_def)

lemma add32_sub32: "x < U32 \<Longrightarrow> y < U32 \<Longrightarrow> add32 (sub32 x y) y = x"
  by (cases "y \<le> x") (simp_all add: sub32_id sub32_wrap add32_def)

subsection \<open>The alignment macros\<close>

text \<open>
  \<open>CEIL_ALIGN(x,a)\<close> is \<open>(x+(a-1)) & ~(a-1)\<close> on 32-bit values, so it wraps to \<open>0\<close> when \<open>x\<close> lies
  within \<open>a-1\<close> of the top; \<open>~(a-1)\<close> on 32 bits is \<open>2 ^ 32 - a\<close>.
\<close>

definition IS_ALIGNED :: "nat \<Rightarrow> nat \<Rightarrow> bool" where
  "IS_ALIGNED x a \<longleftrightarrow> x mod a = 0"

definition FLOOR_ALIGN :: "nat \<Rightarrow> nat \<Rightarrow> nat" where
  "FLOOR_ALIGN x a = (u32 x AND (U32 - a))"

definition CEIL_ALIGN :: "nat \<Rightarrow> nat \<Rightarrow> nat" where
  "CEIL_ALIGN x a = (add32 x (a - 1) AND (U32 - a))"

abbreviation PAGESIZE :: nat where
  "PAGESIZE \<equiv> 4096"

lemma and_high_mask:
  assumes "x < 2 ^ n" and "k \<le> n"
  shows "((x::nat) AND (2 ^ n - 2 ^ k)) = x div 2 ^ k * 2 ^ k"
proof -
  have "(2::nat) ^ n - 2 ^ k = 2 ^ k * (2 ^ (n - k) - 1)"
    using assms(2) by (simp add: diff_mult_distrib2 flip: power_add)
  then have m: "(2::nat) ^ n - 2 ^ k = push_bit k (mask (n - k))"
    by (simp add: push_bit_eq_mult mask_eq_exp_minus_1 mult.commute)
  have d: "drop_bit k x < 2 ^ (n - k)"
    using assms by (simp add: drop_bit_eq_div less_mult_imp_div_less flip: power_add)
  have "(x AND push_bit k (mask (n - k))) = push_bit k (drop_bit k x AND mask (n - k))"
    by (rule bit_eqI) (auto simp: bit_simps)
  also have "\<dots> = push_bit k (take_bit (n - k) (drop_bit k x))"
    by (simp add: take_bit_eq_mask)
  also have "\<dots> = push_bit k (drop_bit k x)"
    using d by (simp add: take_bit_nat_eq_self)
  finally show ?thesis
    using m by (simp add: push_bit_eq_mult drop_bit_eq_div)
qed

lemma FLOOR_ALIGN_pow2: "x < U32 \<Longrightarrow> k \<le> 32 \<Longrightarrow> FLOOR_ALIGN x (2 ^ k) = x div 2 ^ k * 2 ^ k"
  using and_high_mask [of x 32 k] by (simp add: FLOOR_ALIGN_def u32_simps)

lemma CEIL_ALIGN_pow2:
  "k \<le> 32 \<Longrightarrow> CEIL_ALIGN x (2 ^ k) = add32 x (2 ^ k - 1) div 2 ^ k * 2 ^ k"
  using and_high_mask [of "add32 x (2 ^ k - 1)" 32 k] by (simp add: CEIL_ALIGN_def)

lemma FLOOR_ALIGN_page: "x < U32 \<Longrightarrow> FLOOR_ALIGN x PAGESIZE = x div 4096 * 4096"
  using FLOOR_ALIGN_pow2 [of x 12] by simp

lemma CEIL_ALIGN_page: "CEIL_ALIGN x PAGESIZE = add32 x 4095 div 4096 * 4096"
  using CEIL_ALIGN_pow2 [of 12 x] by simp

lemma CEIL_ALIGN_page_less: "CEIL_ALIGN x PAGESIZE < U32"
proof -
  have "add32 x 4095 div 4096 * 4096 \<le> add32 x 4095" by simp
  then show ?thesis unfolding CEIL_ALIGN_page using add32_less [of x 4095] by linarith
qed

lemma CEIL_ALIGN_page_dvd [simp]: "4096 dvd CEIL_ALIGN x PAGESIZE"
  by (simp add: CEIL_ALIGN_page)

lemma CEIL_ALIGN_page_ge: "x \<le> U32 - PAGESIZE \<Longrightarrow> x \<le> CEIL_ALIGN x PAGESIZE"
  by (simp add: CEIL_ALIGN_page add32_def)

lemma CEIL_ALIGN_page_lt: "x \<le> U32 - PAGESIZE \<Longrightarrow> CEIL_ALIGN x PAGESIZE < x + PAGESIZE"
  by (simp add: CEIL_ALIGN_page add32_def)

lemma CEIL_ALIGN_page_id [simp]: "4096 dvd x \<Longrightarrow> x < U32 \<Longrightarrow> CEIL_ALIGN x PAGESIZE = x"
  by (auto simp: CEIL_ALIGN_page add32_def elim: dvdE)

text \<open>A page-aligned bound that covers \<open>x\<close> also covers \<open>x\<close> rounded up.\<close>

lemma CEIL_ALIGN_page_le:
  assumes "x \<le> y" and "4096 dvd y" and "y < U32"
  shows "CEIL_ALIGN x PAGESIZE \<le> y"
proof -
  from assms(2) obtain k where k: "y = 4096 * k" ..
  with assms(3) have "k < 1048576" by simp
  with assms(1) k have "x + 4095 < U32" by linarith
  then have "CEIL_ALIGN x PAGESIZE = (x + 4095) div 4096 * 4096"
    by (simp add: CEIL_ALIGN_page add32_id)
  also have "(x + 4095) div 4096 \<le> k"
    using assms(1) k by linarith
  finally show ?thesis using k by linarith
qed

lemma FLOOR_ALIGN_page_dvd [simp]: "4096 dvd FLOOR_ALIGN x PAGESIZE"
  using and_high_mask [of "u32 x" 32 12] by (simp add: FLOOR_ALIGN_def u32_less)

lemma FLOOR_ALIGN_page_le [simp]: "x < U32 \<Longrightarrow> FLOOR_ALIGN x PAGESIZE \<le> x"
  by (simp add: FLOOR_ALIGN_page)

subsection \<open>Page arithmetic\<close>

lemma page_offsets_distinct:
  fixes p q i j :: nat
  assumes "4096 dvd p" and "4096 dvd q" and "i < 4096" and "j < 4096"
  shows "p + i = q + j \<longleftrightarrow> p = q \<and> i = j"
proof
  assume eq: "p + i = q + j"
  from assms obtain a b where ab: "p = 4096 * a" "q = 4096 * b" unfolding dvd_def by blast
  have "(p + i) mod 4096 = i" "(q + j) mod 4096 = j" using assms ab by simp_all
  with eq show "p = q \<and> i = j" by simp
qed simp

lemma page_dvd_less_imp_le:
  fixes p q :: nat
  assumes "4096 dvd p" and "4096 dvd q" and "p < q"
  shows "p + 4096 \<le> q"
proof -
  from assms obtain a b where "p = 4096 * a" "q = 4096 * b" unfolding dvd_def by blast
  with assms show ?thesis by simp
qed

subsection \<open>Bit 0 of an attribute set\<close>

lemma and_one_nonzero: "((a::nat) AND 1) \<noteq> 0 \<longleftrightarrow> odd a"
  by (simp add: and_one_eq odd_iff_mod_2_eq_one)

lemma odd_and: "odd ((a::nat) AND b) \<longleftrightarrow> odd a \<and> odd b"
  by (simp add: even_and_iff)

subsection \<open>Options\<close>

lemma bind_eq_SomeE:
  assumes "Option.bind x f = Some y"
  obtains z where "x = Some z" and "f z = Some y"
  using assms by (auto simp: bind_eq_Some_conv)

end
