(* ===== verification/Page_Mem.thy ===== *)
theory Page_Mem
  imports Prelude "HOL-Library.Monad_Syntax"
begin

text \<open>
  Physical memory as the page allocator of \<open>src/src/kernel/memory/memory.c\<close> sees it, for the
  i386 build (\<open>sizeof(void *) == 4\<close>, two zones). Memory is one store of 32-bit cells; the
  controller \<open>p_free\<close> of a free range occupies the first sixteen bytes of that range, and the
  list head \<open>z_root\<close> of each zone is a cell of the kernel's own data, so that a write through
  \<open>p_self\<close> is an ordinary store. The second half of the theory relates the linked structure to
  lists of free ranges.
\<close>

named_theorems page_simps "reading a controller after a write"

subsection \<open>Zones\<close>

abbreviation PAGE_ERROR :: nat where
  "PAGE_ERROR \<equiv> 4294967295"

abbreviation VM_HOST_BASE :: nat where
  "VM_HOST_BASE \<equiv> 3221225472"

definition MZONE_REAL_COUNT :: nat where
  "MZONE_REAL_COUNT = 2"

definition MZONE_MIN :: "nat \<Rightarrow> nat" where
  "MZONE_MIN zone = [0, 0x00100000] ! zone"

definition MZONE_MAX :: "nat \<Rightarrow> nat" where
  "MZONE_MAX zone = [0x000fffff, 0xbfffffff] ! zone"

text \<open>\<open>do --result; while (ptr < MZONE_MIN(result))\<close>, started above the greatest zone.\<close>

fun mzone_of_loop :: "nat \<Rightarrow> nat \<Rightarrow> nat" where
  "mzone_of_loop ptr 0 = 0"
| "mzone_of_loop ptr (Suc result) =
     (if ptr < MZONE_MIN result then mzone_of_loop ptr result else result)"

definition mzone_of :: "nat \<Rightarrow> nat" where
  "mzone_of ptr = mzone_of_loop ptr MZONE_REAL_COUNT"

lemma MZONE_simps [simp]:
  "MZONE_MIN 0 = 0" "MZONE_MIN (Suc 0) = 0x00100000"
  "MZONE_MAX 0 = 0x000fffff" "MZONE_MAX (Suc 0) = 0xbfffffff"
  by (simp_all add: MZONE_MIN_def MZONE_MAX_def)

lemma mzone_of_eq: "mzone_of ptr = (if ptr < 0x00100000 then 0 else 1)"
  by (simp add: mzone_of_def MZONE_REAL_COUNT_def numeral_2_eq_2)

subsection \<open>The store\<close>

record pstate =
  mem :: "nat \<Rightarrow> nat"
  page_zones :: nat
  z_inuse :: "nat \<Rightarrow> nat"
  z_avail :: "nat \<Rightarrow> nat"
  z_alloc :: "nat \<Rightarrow> nat"
  z_free :: "nat \<Rightarrow> nat"

text \<open>
  \<open>page_zones\<close> is the address at which the linker places the zone array; a \<open>struct mzone\<close> is
  six words with \<open>z_root\<close> second.
\<close>

definition z_root_at :: "pstate \<Rightarrow> nat \<Rightarrow> nat" where
  "z_root_at s zone = page_zones s + 24 * zone + 4"

definition put :: "nat \<Rightarrow> nat \<Rightarrow> pstate \<Rightarrow> pstate" where
  "put a v s = s\<lparr>mem := (mem s)(a := v)\<rparr>"

definition z_root :: "pstate \<Rightarrow> nat \<Rightarrow> nat" where
  "z_root s zone = mem s (z_root_at s zone)"

definition p_next :: "pstate \<Rightarrow> nat \<Rightarrow> nat" where
  "p_next s p = mem s p"

definition p_self :: "pstate \<Rightarrow> nat \<Rightarrow> nat" where
  "p_self s p = mem s (p + 4)"

definition p_size :: "pstate \<Rightarrow> nat \<Rightarrow> nat" where
  "p_size s p = mem s (p + 8)"

definition p_attr :: "pstate \<Rightarrow> nat \<Rightarrow> nat" where
  "p_attr s p = mem s (p + 12)"

definition PAGE_END :: "pstate \<Rightarrow> nat \<Rightarrow> nat" where
  "PAGE_END s p = p + p_size s p"

definition set_p_next :: "nat \<Rightarrow> nat \<Rightarrow> pstate \<Rightarrow> pstate" where
  "set_p_next p v = put p v"

definition set_p_self :: "nat \<Rightarrow> nat \<Rightarrow> pstate \<Rightarrow> pstate" where
  "set_p_self p v = put (p + 4) v"

definition set_p_size :: "nat \<Rightarrow> nat \<Rightarrow> pstate \<Rightarrow> pstate" where
  "set_p_size p v = put (p + 8) v"

definition set_p_attr :: "nat \<Rightarrow> nat \<Rightarrow> pstate \<Rightarrow> pstate" where
  "set_p_attr p v = put (p + 12) v"

definition PAGEATTR_ZERO :: nat where
  "PAGEATTR_ZERO = 1"

definition zero_attr :: "nat \<Rightarrow> bool" where
  "zero_attr a \<longleftrightarrow> (a AND PAGEATTR_ZERO) \<noteq> 0"

lemma zero_attr_odd: "zero_attr a \<longleftrightarrow> odd a"
  unfolding zero_attr_def PAGEATTR_ZERO_def by (rule and_one_nonzero)

lemma zero_attr_and [simp]: "zero_attr (a AND b) \<longleftrightarrow> zero_attr a \<and> zero_attr b"
  by (simp add: zero_attr_odd odd_and)

text \<open>\<open>memsetl\<close> and \<open>memcpyl\<close> work on whole cells, as \<open>MEMSETX\<close> and \<open>MEMCPYX\<close> select them.\<close>

definition memsetl :: "nat \<Rightarrow> nat \<Rightarrow> nat \<Rightarrow> pstate \<Rightarrow> pstate" where
  "memsetl dst v n s =
     s\<lparr>mem := \<lambda>a. if dst \<le> a \<and> a < dst + 4 * n then v else mem s a\<rparr>"

definition memcpyl :: "nat \<Rightarrow> nat \<Rightarrow> nat \<Rightarrow> pstate \<Rightarrow> pstate" where
  "memcpyl dst src n s =
     s\<lparr>mem := \<lambda>a. if dst \<le> a \<and> a < dst + 4 * n then mem s (src + (a - dst)) else mem s a\<rparr>"

text \<open>The four stores that clear a controller.\<close>

definition clear_ctl :: "nat \<Rightarrow> pstate \<Rightarrow> pstate" where
  "clear_ctl p s = set_p_attr p 0 (set_p_size p 0 (set_p_self p 0 (set_p_next p 0 s)))"

lemma mem_put [simp]: "mem (put a v s) = (mem s)(a := v)"
  by (simp add: put_def)

lemma page_zones_put [simp]: "page_zones (put a v s) = page_zones s"
  by (simp add: put_def)

lemma mem_memsetl [simp]:
  "mem (memsetl d v n s) a = (if d \<le> a \<and> a < d + 4 * n then v else mem s a)"
  "page_zones (memsetl d v n s) = page_zones s"
  by (simp_all add: memsetl_def)

lemma mem_memcpyl [simp]:
  "mem (memcpyl d c n s) a = (if d \<le> a \<and> a < d + 4 * n then mem s (c + (a - d)) else mem s a)"
  "page_zones (memcpyl d c n s) = page_zones s"
  by (simp_all add: memcpyl_def)

lemmas page_set_defs = set_p_next_def set_p_self_def set_p_size_def set_p_attr_def

lemmas page_get_defs = p_next_def p_self_def p_size_def p_attr_def

subsection \<open>Lists of free ranges\<close>

type_synonym frange = "nat \<times> nat \<times> nat"

text \<open>
  \<open>plist s l xs\<close>: the chain that starts in the cell \<open>l\<close> is the list \<open>xs\<close> of ranges (address,
  size, attributes), each controller pointing back to the cell that points to it. The cell
  \<open>&p->p_free.p_next\<close> is the address \<open>p\<close> itself.
\<close>

fun pseg :: "pstate \<Rightarrow> nat \<Rightarrow> frange list \<Rightarrow> bool" where
  "pseg s l [] \<longleftrightarrow> True"
| "pseg s l ((p, sz, at) # xs) \<longleftrightarrow>
     mem s l = p \<and> p_self s p = l \<and> p_size s p = sz \<and> p_attr s p = at \<and> pseg s p xs"

definition pend :: "nat \<Rightarrow> frange list \<Rightarrow> nat" where
  "pend l xs = (if xs = [] then l else fst (last xs))"

definition plist :: "pstate \<Rightarrow> nat \<Rightarrow> frange list \<Rightarrow> bool" where
  "plist s l xs \<longleftrightarrow> pseg s l xs \<and> mem s (pend l xs) = PAGE_ERROR"

text \<open>Address order, alignment, and a gap between neighbours (ranges that touch are merged).\<close>

fun franges :: "nat \<Rightarrow> nat \<Rightarrow> frange list \<Rightarrow> bool" where
  "franges lo hi [] \<longleftrightarrow> True"
| "franges lo hi ((p, sz, at) # xs) \<longleftrightarrow>
     lo \<le> p \<and> 4096 dvd p \<and> 4096 dvd sz \<and> 0 < sz \<and> p + sz \<le> hi \<and> franges (p + sz + 1) hi xs"

definition rset :: "frange \<Rightarrow> nat set" where
  "rset r = {fst r ..< fst r + fst (snd r)}"

definition free_bytes :: "frange list \<Rightarrow> nat set" where
  "free_bytes xs = (\<Union>r\<in>set xs. rset r)"

text \<open>A range marked \<open>PAGEATTR_ZERO\<close> holds zeros everywhere but in its controller.\<close>

definition zero_range :: "pstate \<Rightarrow> frange \<Rightarrow> bool" where
  "zero_range s r \<longleftrightarrow> (zero_attr (snd (snd r)) \<longrightarrow>
     (\<forall>a. 4 dvd a \<longrightarrow> fst r + 16 \<le> a \<longrightarrow> a < fst r + fst (snd r) \<longrightarrow> mem s a = 0))"

definition zero_ranges :: "pstate \<Rightarrow> frange list \<Rightarrow> bool" where
  "zero_ranges s xs \<longleftrightarrow> (\<forall>r\<in>set xs. zero_range s r)"

definition zeroed :: "pstate \<Rightarrow> nat \<Rightarrow> nat \<Rightarrow> bool" where
  "zeroed s p n \<longleftrightarrow> (\<forall>a. 4 dvd a \<longrightarrow> p \<le> a \<longrightarrow> a < p + n \<longrightarrow> mem s a = 0)"

lemma zeroedD:
  "zero_attr at \<longrightarrow> zeroed s p n \<Longrightarrow> zero_attr at \<Longrightarrow> 4 dvd a \<Longrightarrow> p \<le> a \<Longrightarrow> a < p + n \<Longrightarrow> mem s a = 0"
  by (simp add: zeroed_def)

lemma pend_simps [simp]:
  "pend l [] = l" "pend l (x # xs) = pend (fst x) xs"
  by (simp_all add: pend_def)

lemma pend_append [simp]: "pend l (xs @ ys) = pend (pend l xs) ys"
  by (induction xs arbitrary: l) auto

lemma pseg_append [simp]: "pseg s l (xs @ ys) \<longleftrightarrow> pseg s l xs \<and> pseg s (pend l xs) ys"
  by (induction s l xs rule: pseg.induct) auto

lemma plist_Nil [simp]: "plist s l [] \<longleftrightarrow> mem s l = PAGE_ERROR"
  by (simp add: plist_def)

lemma plist_Cons [simp]: "plist s l ((p, sz, at) # xs) \<longleftrightarrow>
    mem s l = p \<and> p_self s p = l \<and> p_size s p = sz \<and> p_attr s p = at \<and> plist s p xs"
  by (auto simp: plist_def)

lemma plist_append: "plist s l (xs @ ys) \<longleftrightarrow> pseg s l xs \<and> plist s (pend l xs) ys"
  by (auto simp: plist_def)

lemma franges_append:
  "franges lo hi (xs @ ys) \<longleftrightarrow> franges lo hi xs \<and>
     franges (if xs = [] then lo else fst (last xs) + fst (snd (last xs)) + 1) hi ys"
  by (induction lo hi xs rule: franges.induct) auto

lemma franges_mono: "franges lo hi xs \<Longrightarrow> lo' \<le> lo \<Longrightarrow> franges lo' hi xs"
  by (cases xs) auto

lemma franges_hi_mono: "franges lo hi xs \<Longrightarrow> hi \<le> hi' \<Longrightarrow> franges lo hi' xs"
  by (induction lo hi xs rule: franges.induct) auto

lemma franges_member:
  "franges lo hi xs \<Longrightarrow> (p, sz, at) \<in> set xs \<Longrightarrow>
     lo \<le> p \<and> 4096 dvd p \<and> 4096 dvd sz \<and> 0 < sz \<and> p + sz \<le> hi"
proof (induction lo hi xs rule: franges.induct)
  case (2 lo hi q tz bt ys)
  then show ?case by (auto simp: less_eq_Suc_le)
qed simp

lemma free_bytes_simps [simp]: "free_bytes [] = {}" "free_bytes (r # xs) = rset r \<union> free_bytes xs"
  by (auto simp: free_bytes_def)

lemma free_bytes_append [simp]: "free_bytes (xs @ ys) = free_bytes xs \<union> free_bytes ys"
  by (auto simp: free_bytes_def)

lemma rset_simps [simp]: "rset (p, sz, at) = {p ..< p + sz}"
  by (simp add: rset_def)

lemma free_bytes_bounds: "franges lo hi xs \<Longrightarrow> free_bytes xs \<subseteq> {lo ..< hi}"
  by (induction lo hi xs rule: franges.induct) force+

lemma zero_ranges_simps [simp]:
  "zero_ranges s []" "zero_ranges s (r # xs) \<longleftrightarrow> zero_range s r \<and> zero_ranges s xs"
  by (simp_all add: zero_ranges_def)

lemma zero_ranges_append [simp]:
  "zero_ranges s (xs @ ys) \<longleftrightarrow> zero_ranges s xs \<and> zero_ranges s ys"
  by (auto simp: zero_ranges_def)


subsection \<open>Cells that a chain reads\<close>

fun pcells :: "nat \<Rightarrow> frange list \<Rightarrow> nat set" where
  "pcells l [] = {}"
| "pcells l ((p, sz, at) # xs) = {l, p + 4, p + 8, p + 12} \<union> pcells p xs"

lemma pseg_cong: "(\<And>a. a \<in> pcells l xs \<Longrightarrow> mem t a = mem s a) \<Longrightarrow> pseg t l xs = pseg s l xs"
  by (induction l xs rule: pcells.induct) (auto simp: p_self_def p_size_def p_attr_def)

lemma plist_cong:
  "(\<And>a. a \<in> pcells l xs \<or> a = pend l xs \<Longrightarrow> mem t a = mem s a) \<Longrightarrow> plist t l xs = plist s l xs"
  unfolding plist_def by (subst pseg_cong [of l xs t s]) auto

lemma pcells_subset:
  "franges lo hi xs \<Longrightarrow> a \<in> pcells l xs \<Longrightarrow> a = l \<or> a \<in> free_bytes xs"
proof (induction l xs arbitrary: lo rule: pcells.induct)
  case (2 l p sz at xs)
  then have "4096 \<le> sz" by (auto dest: dvd_imp_le)
  with 2 show ?case by auto
qed simp

lemma pend_cases: "franges lo hi xs \<Longrightarrow> pend l xs = l \<and> xs = [] \<or> pend l xs \<in> free_bytes xs"
proof (cases "xs = []")
  case False
  assume f: "franges lo hi xs"
  obtain p sz at where r: "last xs = (p, sz, at)" by (cases "last xs")
  with False have m: "(p, sz, at) \<in> set xs" by (metis last_in_set)
  with franges_member [OF f m] have "p \<in> free_bytes xs"
    by (force simp: free_bytes_def rset_def)
  with r False show ?thesis by (simp add: pend_def)
qed simp

lemma pend_not_pcells:
  "franges lo hi xs \<Longrightarrow> l < lo \<or> hi \<le> l \<Longrightarrow> pend l xs \<notin> pcells l xs"
proof (induction l xs arbitrary: lo rule: pcells.induct)
  case (2 l p sz at xs)
  then have f: "franges (p + sz + 1) hi xs" and sz: "4096 \<le> sz" "p + sz \<le> hi" "lo \<le> p" "4096 dvd p"
    by (auto dest: dvd_imp_le)
  have IH: "pend p xs \<notin> pcells p xs" by (rule "2.IH" [OF f]) simp
  have "pend p xs = p \<or> pend p xs \<in> {p + sz + 1 ..< hi}"
    using pend_cases [OF f, of p] free_bytes_bounds [OF f] by auto
  with IH 2 sz show ?case by auto
qed simp

lemma pcells_append: "pcells l (xs @ ys) = pcells l xs \<union> pcells (pend l xs) ys"
  by (induction l xs rule: pcells.induct) auto

lemma ctl_cells:
  assumes "4 dvd (a::nat)" and "4096 dvd q" and "q \<le> a" and "a < q + 16"
  shows "a \<in> {q, q + 4, q + 8, q + 12}"
proof -
  have "4 dvd q" using assms(2) dvd_trans [of 4 4096 q] by simp
  then have "4 dvd a - q" using assms(1) by (rule dvd_diff_nat [rotated])
  then obtain k where k: "a - q = 4 * k" ..
  then have "k < 4" using assms(4) by simp
  then have "k = 0 \<or> k = 1 \<or> k = 2 \<or> k = 3" by linarith
  then show ?thesis using k assms(3) by auto
qed

subsection \<open>Well-formed stores\<close>

definition zone_ok :: "pstate \<Rightarrow> nat \<Rightarrow> frange list \<Rightarrow> bool" where
  "zone_ok s z xs \<longleftrightarrow> plist s (z_root_at s z) xs \<and>
     franges (MZONE_MIN z) (MZONE_MAX z + 1) xs \<and> zero_ranges s xs"

definition pwf :: "pstate \<Rightarrow> (nat \<Rightarrow> frange list) \<Rightarrow> bool" where
  "pwf s X \<longleftrightarrow> VM_HOST_BASE \<le> page_zones s \<and> (\<forall>z<MZONE_REAL_COUNT. zone_ok s z (X z))"

definition same_outside :: "nat set \<Rightarrow> pstate \<Rightarrow> pstate \<Rightarrow> bool" where
  "same_outside A s t \<longleftrightarrow> page_zones t = page_zones s \<and> (\<forall>a. a \<notin> A \<longrightarrow> mem t a = mem s a)"

lemma same_outside_refl [simp]: "same_outside A s s"
  by (simp add: same_outside_def)

lemma same_outside_trans:
  "same_outside A s t \<Longrightarrow> same_outside B t u \<Longrightarrow> A \<union> B \<subseteq> C \<Longrightarrow> same_outside C s u"
  unfolding same_outside_def by (metis UnCI subsetD)

lemma same_outside_mono: "same_outside A s t \<Longrightarrow> A \<subseteq> B \<Longrightarrow> same_outside B s t"
  unfolding same_outside_def by blast

lemma zero_range_cong:
  "(\<And>a. fst r + 16 \<le> a \<Longrightarrow> a < fst r + fst (snd r) \<Longrightarrow> mem t a = mem s a) \<Longrightarrow>
     zero_range t r = zero_range s r"
  by (auto simp: zero_range_def)

lemma zero_ranges_cong:
  assumes "\<And>a. a \<in> free_bytes xs \<Longrightarrow> mem t a = mem s a"
  shows "zero_ranges t xs = zero_ranges s xs"
  unfolding zero_ranges_def
  by (intro ball_cong zero_range_cong refl assms) (force simp: free_bytes_def rset_def)

lemma z_root_at_same: "same_outside A s t \<Longrightarrow> z_root_at t z = z_root_at s z"
  by (simp add: z_root_at_def same_outside_def)

lemma z_root_at_inj: "z_root_at s y = z_root_at s z \<longleftrightarrow> y = z"
  by (simp add: z_root_at_def)

lemma zone_ok_frame:
  assumes ok: "zone_ok s z xs" and same: "same_outside A s t"
    and disj: "A \<inter> insert (z_root_at s z) (free_bytes xs) = {}"
  shows "zone_ok t z xs"
proof -
  have f: "franges (MZONE_MIN z) (MZONE_MAX z + 1) xs" using ok by (simp add: zone_ok_def)
  have eq: "mem t a = mem s a" if "a = z_root_at s z \<or> a \<in> free_bytes xs" for a
    using that same disj by (auto simp: same_outside_def)
  have "plist t (z_root_at s z) xs = plist s (z_root_at s z) xs"
    by (rule plist_cong, rule eq) (use pcells_subset [OF f] pend_cases [OF f] in blast)
  moreover have "zero_ranges t xs = zero_ranges s xs"
    by (rule zero_ranges_cong) (simp add: eq)
  ultimately show ?thesis
    using ok z_root_at_same [OF same] by (simp add: zone_ok_def)
qed

lemma zone_free_bytes: "pwf s X \<Longrightarrow> z < MZONE_REAL_COUNT \<Longrightarrow>
    free_bytes (X z) \<subseteq> {MZONE_MIN z ..< MZONE_MAX z + 1}"
  using free_bytes_bounds unfolding pwf_def zone_ok_def by blast

lemma zone_max_below_host: "z < MZONE_REAL_COUNT \<Longrightarrow> MZONE_MAX z < VM_HOST_BASE"
  by (auto simp: MZONE_REAL_COUNT_def less_2_cases_iff)

text \<open>
  An operation that rewrites one zone's list and touches only that zone's free bytes, some bytes
  \<open>B\<close> of the same zone, and the zone's list head leaves the other zones intact.
\<close>

lemma pwf_update:
  assumes wf: "pwf s X" and z: "z < MZONE_REAL_COUNT" and ok: "zone_ok t z xs"
    and same: "same_outside (insert (z_root_at s z) B) s t"
    and B: "B \<subseteq> {MZONE_MIN z ..< MZONE_MAX z + 1}"
  shows "pwf t (X(z := xs))"
  unfolding pwf_def
proof (intro conjI allI impI)
  show "VM_HOST_BASE \<le> page_zones t" using wf same by (simp add: pwf_def same_outside_def)
  fix y assume y: "y < MZONE_REAL_COUNT"
  show "zone_ok t y ((X(z := xs)) y)"
  proof (cases "y = z")
    case True then show ?thesis using ok by simp
  next
    case False
    have oky: "zone_ok s y (X y)" using wf y by (simp add: pwf_def)
    have Xy: "free_bytes (X y) \<subseteq> {MZONE_MIN y ..< MZONE_MAX y + 1}" by (rule zone_free_bytes [OF wf y])
    have host: "VM_HOST_BASE \<le> z_root_at s z" "VM_HOST_BASE \<le> z_root_at s y"
      using wf by (simp_all add: pwf_def z_root_at_def)
    have dz: "{MZONE_MIN y ..< MZONE_MAX y + 1} \<inter> {MZONE_MIN z ..< MZONE_MAX z + 1} = {}"
      using False y z by (auto simp: MZONE_REAL_COUNT_def less_2_cases_iff)
    have "insert (z_root_at s z) B \<inter> insert (z_root_at s y) (free_bytes (X y)) = {}"
    proof -
      have "z_root_at s z \<notin> free_bytes (X y)"
        using Xy host zone_max_below_host [OF y] by fastforce
      moreover have "z_root_at s y \<notin> B"
        using B host zone_max_below_host [OF z] by fastforce
      moreover have "B \<inter> free_bytes (X y) = {}" using Xy B dz by blast
      ultimately show ?thesis using False by (auto simp: z_root_at_inj)
    qed
    then show ?thesis using zone_ok_frame [OF oky same] False by simp
  qed
qed


subsection \<open>Rewriting part of a chain\<close>

lemma franges_apart:
  "franges lo hi xs \<Longrightarrow> (p, sz, at) \<in> set xs \<Longrightarrow> (q, tz, bt) \<in> set xs \<Longrightarrow>
     (p, sz, at) = (q, tz, bt) \<or> p + sz < q \<or> q + tz < p"
proof (induction lo hi xs rule: franges.induct)
  case (2 lo hi r uz ct ys)
  have later: "r + uz + 1 \<le> u" if "(u, v, w) \<in> set ys" for u v w
    using franges_member [of "r + uz + 1" hi ys u v w] 2 that by simp
  then show ?case using 2 by (fastforce dest: later)
qed simp

lemma franges_ctl_apart:
  assumes "franges lo hi xs" and "(p, sz, at) \<in> set xs" and "(q, tz, bt) \<in> set xs" and "i < 16"
    and "p + 16 \<le> q + i" and "q + i < p + sz"
  shows False
proof -
  have "4096 \<le> tz" using franges_member [OF assms(1,3)] by (auto dest: dvd_imp_le)
  with franges_apart [OF assms(1-3)] assms(4-6) show False by auto
qed

lemma franges_ctl_bytes:
  assumes "franges lo hi xs" and "(q, tz, bt) \<in> set xs" and "i < 16"
  shows "q + i \<in> free_bytes xs"
proof -
  have "4096 \<le> tz" using franges_member [OF assms(1,2)] by (auto dest: dvd_imp_le)
  then show ?thesis using assms(2,3) by (force simp: free_bytes_def)
qed

lemma free_bytes_disjoint: "franges lo hi (xs @ ys) \<Longrightarrow> free_bytes xs \<inter> free_bytes ys = {}"
proof (induction lo hi xs rule: franges.induct)
  case (2 lo hi p sz at xs)
  then have "franges (p + sz + 1) hi (xs @ ys)" by simp
  with free_bytes_bounds [OF this] 2 show ?case by auto
qed simp

lemma pend_mem:
  assumes "xs \<noteq> []" obtains sz at where "(pend l xs, sz, at) \<in> set xs"
  using assms that last_in_set [OF assms] by (cases "last xs") (simp add: pend_def)

lemma hd_mem:
  assumes "xs \<noteq> []" obtains sz at where "(fst (hd xs), sz, at) \<in> set xs"
  using assms that hd_in_set [OF assms] by (cases "hd xs") simp

lemma zero_ranges_keep:
  assumes f: "franges lo hi xs" and z: "zero_ranges s ys" and sub: "set ys \<subseteq> set xs"
    and eq: "\<And>a. a \<in> free_bytes ys \<Longrightarrow>
      (\<nexists>q sz at i. (q, sz, at) \<in> set xs \<and> i < 16 \<and> a = q + i) \<Longrightarrow> mem t a = mem s a"
  shows "zero_ranges t ys"
  unfolding zero_ranges_def
proof
  fix r assume r: "r \<in> set ys"
  obtain p sz at where rp: "r = (p, sz, at)" by (cases r)
  have "zero_range t r = zero_range s r"
  proof (rule zero_range_cong)
    fix a assume a: "fst r + 16 \<le> a" "a < fst r + fst (snd r)"
    have "a \<in> free_bytes ys" using r rp a by (force simp: free_bytes_def)
    moreover have "\<nexists>q tz bt i. (q, tz, bt) \<in> set xs \<and> i < 16 \<and> a = q + i"
      using franges_ctl_apart [OF f, of p sz at] r rp sub a by (metis fst_conv snd_conv subsetD)
    ultimately show "mem t a = mem s a" by (rule eq)
  qed
  then show "zero_range t r" using z r by (simp add: zero_ranges_def)
qed

lemma plist_head: "plist s l xs \<Longrightarrow> mem s l = (if xs = [] then PAGE_ERROR else fst (hd xs))"
  by (cases xs) auto

lemma pseg_keep:
  assumes "pseg s l ys" and f: "franges lo hi ys" and l: "l < lo \<or> hi \<le> l"
    and eq: "\<And>a. a = l \<or> a \<in> free_bytes ys \<Longrightarrow> a \<noteq> pend l ys \<Longrightarrow> mem t a = mem s a"
  shows "pseg t l ys"
proof -
  have "pseg t l ys = pseg s l ys"
    by (rule pseg_cong, rule eq) (use pcells_subset [OF f] pend_not_pcells [OF f l] in blast)+
  with assms(1) show ?thesis by simp
qed

lemma plist_relink:
  assumes c: "plist s m0 zs" and f: "franges lo hi zs"
    and eq: "\<And>a. a \<in> free_bytes zs \<Longrightarrow> a \<noteq> fst (hd zs) + 4 \<Longrightarrow> mem t a = mem s a"
    and link: "mem t m = mem s m0" and bck: "zs \<noteq> [] \<Longrightarrow> p_self t (fst (hd zs)) = m"
  shows "plist t m zs"
proof (cases zs)
  case Nil then show ?thesis using c link by simp
next
  case (Cons r xs)
  obtain q tz bt where r: "r = (q, tz, bt)" by (cases r)
  have fx: "franges (q + tz + 1) hi xs" and tz: "4096 \<le> tz" "4096 dvd q"
    using f Cons r by (auto dest: dvd_imp_le)
  have later: "q + tz + 1 \<le> a" if "a \<in> free_bytes xs" for a
    using free_bytes_bounds [OF fx] that by auto
  have "plist t q xs = plist s q xs"
  proof (rule plist_cong, rule eq)
    fix a assume "a \<in> pcells q xs \<or> a = pend q xs"
    then have "a = q \<or> a \<in> free_bytes xs"
      using pcells_subset [OF fx] pend_cases [OF fx, of q] by blast
    then show "a \<in> free_bytes zs" "a \<noteq> fst (hd zs) + 4"
      using Cons r tz later [of a] by auto
  qed
  moreover have "p_size t q = p_size s q" "p_attr t q = p_attr s q"
    unfolding p_size_def p_attr_def by (rule eq; use Cons r tz in auto)+
  ultimately show ?thesis using c link bck Cons r by simp
qed

lemma zone_splice:
  assumes ok: "zone_ok s z (ys @ old @ zs)" and z: "z < MZONE_REAL_COUNT"
    and host: "VM_HOST_BASE \<le> page_zones s" and pz: "page_zones t = page_zones s"
    and same: "\<And>a. a = z_root_at s z \<or> a \<in> free_bytes ys \<or> a \<in> free_bytes zs \<Longrightarrow>
      a \<noteq> pend (z_root_at s z) ys \<Longrightarrow> (zs \<noteq> [] \<Longrightarrow> a \<noteq> fst (hd zs) + 4) \<Longrightarrow> mem t a = mem s a"
    and new: "pseg t (pend (z_root_at s z) ys) new"
    and link: "mem t (pend (z_root_at s z) (ys @ new)) = mem s (pend (z_root_at s z) (ys @ old))"
    and bck: "zs \<noteq> [] \<Longrightarrow> p_self t (fst (hd zs)) = pend (z_root_at s z) (ys @ new)"
    and fr: "franges (MZONE_MIN z) (MZONE_MAX z + 1) (ys @ new @ zs)" and zr: "zero_ranges t new"
  shows "zone_ok t z (ys @ new @ zs)"
proof -
  let ?l = "z_root_at s z" and ?lo = "MZONE_MIN z" and ?hi = "MZONE_MAX z + 1"
  have l: "?l < ?lo \<or> ?hi \<le> ?l"
    using host zone_max_below_host [OF z] by (simp add: z_root_at_def)
  have f: "franges ?lo ?hi (ys @ old @ zs)" and c: "plist s ?l (ys @ old @ zs)"
    and zr0: "zero_ranges s (ys @ old @ zs)" using ok by (simp_all add: zone_ok_def)
  then have fy: "franges ?lo ?hi ys" by (simp add: franges_append)
  obtain lo' where fz: "franges lo' ?hi zs" using f by (auto simp: franges_append)
  have disj: "free_bytes ys \<inter> free_bytes zs = {}" using free_bytes_disjoint [OF f] by auto
  have out: "?l \<notin> free_bytes ys" "?l \<notin> free_bytes zs" using free_bytes_bounds [OF f] l by auto
  have hdz: "fst (hd zs) + i \<in> free_bytes zs" if "zs \<noteq> []" "i < 16" for i
    using franges_ctl_bytes [OF fz] hd_mem [OF that(1)] that(2) by metis
  have pe: "pend ?l ys = ?l \<or> pend ?l ys \<in> free_bytes ys" using pend_cases [OF fy, of ?l] by auto
  have "pseg t ?l ys"
  proof (rule pseg_keep [OF _ fy l])
    show "pseg s ?l ys" using c by (simp add: plist_append)
    fix a assume a: "a = ?l \<or> a \<in> free_bytes ys" "a \<noteq> pend ?l ys"
    then show "mem t a = mem s a" using same hdz [of 4] disj out by (metis IntI empty_iff numeral_less_iff semiring_norm(76,78))
  qed
  moreover have "plist t (pend ?l (ys @ new)) zs"
  proof (rule plist_relink [OF _ fz])
    show "plist s (pend ?l (ys @ old)) zs" using c by (simp add: plist_append)
    fix a assume a: "a \<in> free_bytes zs" "a \<noteq> fst (hd zs) + 4"
    then show "mem t a = mem s a" using same pe disj out by (metis IntI empty_iff)
  qed (use link bck in auto)
  ultimately have pl: "plist t ?l (ys @ new @ zs)" using new by (simp add: plist_append)
  have keep: "zero_ranges t us" if us: "us = ys \<or> us = zs" for us
  proof (rule zero_ranges_keep [OF f])
    show "zero_ranges s us" "set us \<subseteq> set (ys @ old @ zs)" using zr0 us by auto
    fix a assume a: "a \<in> free_bytes us"
      and n: "\<nexists>q sz at i. (q, sz, at) \<in> set (ys @ old @ zs) \<and> i < 16 \<and> a = q + i"
    have "a \<noteq> pend ?l ys"
    proof (cases "ys = []")
      case True then show ?thesis using a us out by auto
    next
      case False
      then obtain sz at where "(pend ?l ys, sz, at) \<in> set ys" by (rule pend_mem)
      then show ?thesis using n by (metis Un_iff add.right_neutral set_append zero_less_numeral)
    qed
    moreover have "a \<noteq> fst (hd zs) + 4" if zs: "zs \<noteq> []"
    proof -
      obtain sz at where "(fst (hd zs), sz, at) \<in> set zs" using zs by (rule hd_mem)
      then show ?thesis using n by (metis Un_iff set_append numeral_less_iff semiring_norm(76,78))
    qed
    ultimately show "mem t a = mem s a" using same a us by blast
  qed
  show ?thesis
    using pl fr zr keep z_root_at_def pz by (simp add: zone_ok_def z_root_at_def)
qed

subsection \<open>A small store\<close>

text \<open>One free range of four pages at 2 MiB; the store on which the properties are exercised.\<close>

definition page_demo :: pstate where
  "page_demo = \<lparr>
     mem = (\<lambda>_. 0)(0xC0100004 := PAGE_ERROR, 0xC010001C := 0x200000,
       0x200000 := PAGE_ERROR, 0x200004 := 0xC010001C, 0x200008 := 0x4000),
     page_zones = 0xC0100000,
     z_inuse = (\<lambda>_. 0), z_avail = (\<lambda>_. 0)(1 := 0x4000), z_alloc = (\<lambda>_. 0), z_free = (\<lambda>_. 0)(1 := 1)\<rparr>"

definition demo_ranges :: "nat \<Rightarrow> frange list" where
  "demo_ranges = (\<lambda>_. [])(1 := [(0x200000, 0x4000, 0)])"

lemma page_demo_wf: "pwf page_demo demo_ranges"
  by (auto simp: pwf_def zone_ok_def page_demo_def demo_ranges_def z_root_at_def MZONE_REAL_COUNT_def
      less_2_cases_iff page_get_defs zero_range_def zero_attr_odd)

end
