(* ===== verification/Page_Alloc.thy ===== *)
theory Page_Alloc
  imports Page_Mem
begin

text \<open>
  Best-fit allocation: \<open>page_malloc\<close> and \<open>page_malloc_part\<close> of
  \<open>src/src/kernel/memory/memory.c\<close>. The zone lock is held throughout, so one call is one step of
  the model; the branch taken when \<open>atomic_rwlock_upgrade\<close> had to give up the lock (it rescans)
  does not occur. The loops over \<open>p_next\<close> are partial functions: \<open>None\<close> means that a damaged
  chain never reaches \<open>PAGE_ERROR\<close>, and every lemma shows that a well-formed store returns.
\<close>

subsection \<open>The search for the best range\<close>

partial_function (option) pm_search ::
  "pstate \<Rightarrow> nat \<Rightarrow> nat \<Rightarrow> nat \<Rightarrow> nat \<Rightarrow> nat \<Rightarrow> (nat \<times> nat) option" where
  "pm_search s n_bytes attr iter best_page best_size =
     (if iter = PAGE_ERROR then Some (best_page, best_size)
      else if p_size s iter < n_bytes \<or> best_size < p_size s iter \<or>
              (p_size s iter = best_size \<and>
               (p_attr s best_page AND PAGEATTR_ZERO) = (attr AND PAGEATTR_ZERO))
           then pm_search s n_bytes attr (p_next s iter) best_page best_size
           else pm_search s n_bytes attr (p_next s iter) iter (p_size s iter))"

subsection \<open>Taking bytes from the top of the range\<close>

text \<open>\<open>*p->p_self = p->p_next\<close>, and the successor's back link.\<close>

definition page_unlink :: "nat \<Rightarrow> pstate \<Rightarrow> pstate" where
  "page_unlink p s =
     (let s1 = put (p_self s p) (p_next s p) s in
      if p_next s1 p \<noteq> PAGE_ERROR then set_p_self (p_next s1 p) (p_self s1 p) s1 else s1)"

definition pm_stats :: "nat \<Rightarrow> nat \<Rightarrow> pstate \<Rightarrow> pstate" where
  "pm_stats zone n s = s\<lparr>
     z_inuse := (z_inuse s)(zone := add32 (z_inuse s zone) n),
     z_free := (z_free s)(zone := sub32 (z_free s zone) n),
     z_alloc := (z_alloc s)(zone := add32 (z_alloc s zone) 1)\<rparr>"

definition pm_take :: "nat \<Rightarrow> nat \<Rightarrow> nat \<Rightarrow> nat \<Rightarrow> nat \<Rightarrow> pstate \<Rightarrow> nat \<times> pstate" where
  "pm_take zone attr best_page best_size n s =
     (let result = best_page + (best_size - n);
          s1 = (if result = best_page then page_unlink best_page s
                else set_p_size best_page (p_size s best_page - n) s);
          must_clear = (zero_attr attr \<and> \<not> zero_attr (p_attr s1 best_page));
          s2 = (if zero_attr attr \<and> zero_attr (p_attr s1 best_page) \<and> result = best_page
                then clear_ctl result s1 else s1);
          s3 = pm_stats zone n s2;
          s4 = (if must_clear then memsetl result 0 (n div 4) s3 else s3)
      in (result, s4))"

subsection \<open>The two allocators\<close>

definition page_malloc_zone :: "pstate \<Rightarrow> nat \<Rightarrow> nat \<Rightarrow> nat \<Rightarrow> (nat \<times> pstate) option" where
  "page_malloc_zone s n_bytes attr zone = do {
     (best_page, best_size) \<leftarrow> pm_search s n_bytes attr (z_root s zone) PAGE_ERROR PAGE_ERROR;
     if best_page \<noteq> PAGE_ERROR
     then Some (pm_take zone attr best_page best_size (CEIL_ALIGN n_bytes PAGESIZE) s)
     else Some (PAGE_ERROR, s)
   }"

fun page_malloc :: "pstate \<Rightarrow> nat \<Rightarrow> nat \<Rightarrow> nat \<Rightarrow> (nat \<times> pstate) option" where
  "page_malloc s n_bytes attr zone_id = do {
     (result, s') \<leftarrow> page_malloc_zone s n_bytes attr zone_id;
     if result = PAGE_ERROR \<and> zone_id \<noteq> 0
     then page_malloc s' n_bytes attr (zone_id - 1)
     else Some (result, s')
   }"

text \<open>
  \<open>page_malloc_part\<close> also stores the size it chose through \<open>res_size\<close>; the value returned beside
  the page is what \<open>*res_size\<close> holds afterwards, which is the old value when nothing was found.
\<close>

definition page_malloc_part_zone ::
  "pstate \<Rightarrow> nat \<Rightarrow> nat \<Rightarrow> nat \<Rightarrow> nat \<Rightarrow> nat \<Rightarrow> ((nat \<times> nat) \<times> pstate) option" where
  "page_malloc_part_zone s min_size max_size res_size attr zone = do {
     (best_page, best_size) \<leftarrow> pm_search s min_size attr (z_root s zone) PAGE_ERROR PAGE_ERROR;
     if best_page \<noteq> PAGE_ERROR
     then (let alloc_size = min best_size (FLOOR_ALIGN max_size PAGESIZE);
               (result, s') = pm_take zone attr best_page best_size alloc_size s
           in Some ((result, alloc_size), s'))
     else Some ((PAGE_ERROR, res_size), s)
   }"

fun page_malloc_part ::
  "pstate \<Rightarrow> nat \<Rightarrow> nat \<Rightarrow> nat \<Rightarrow> nat \<Rightarrow> nat \<Rightarrow> ((nat \<times> nat) \<times> pstate) option" where
  "page_malloc_part s min_size max_size res_size attr zone_id = do {
     ((result, size), s') \<leftarrow> page_malloc_part_zone s min_size max_size res_size attr zone_id;
     if result = PAGE_ERROR \<and> zone_id \<noteq> 0
     then page_malloc_part s' min_size max_size res_size attr (zone_id - 1)
     else Some ((result, size), s')
   }"

declare page_malloc.simps [simp del] page_malloc_part.simps [simp del]

subsection \<open>The search returns the tightest range\<close>

lemma pm_search_correct:
  assumes "plist s l xs" and "franges lo hi xs" and "hi \<le> VM_HOST_BASE"
  shows "\<exists>bp' bs'. pm_search s n attr (mem s l) bp bs = Some (bp', bs') \<and>
    ((bp', bs') = (bp, bs) \<and> (\<forall>q t b. (q, t, b) \<in> set xs \<longrightarrow> n \<le> t \<longrightarrow> bs \<le> t) \<or>
     (\<exists>at. (bp', bs', at) \<in> set xs \<and> n \<le> bs' \<and> bs' \<le> bs \<and>
        (\<forall>q t b. (q, t, b) \<in> set xs \<longrightarrow> n \<le> t \<longrightarrow> bs' \<le> t)))"
  using assms
proof (induction xs arbitrary: l lo bp bs)
  case Nil
  then show ?case by (simp add: pm_search.simps)
next
  case (Cons r xs)
  obtain p sz at where r: "r = (p, sz, at)" by (cases r)
  have p: "mem s l = p" "p_size s p = sz" "p_attr s p = at" "plist s p xs" "p_next s p = mem s p"
    using Cons.prems r by (auto simp: p_next_def)
  have f: "franges (p + sz + 1) hi xs" and ne: "p \<noteq> PAGE_ERROR" using Cons.prems r by auto
  note IH = Cons.IH [OF p(4) f Cons.prems(3)]
  show ?case
  proof (cases "sz < n \<or> bs < sz \<or> (sz = bs \<and> (p_attr s bp AND PAGEATTR_ZERO) = (attr AND PAGEATTR_ZERO))")
    case True
    then have "pm_search s n attr (mem s l) bp bs = pm_search s n attr (mem s p) bp bs"
      using p ne by (subst pm_search.simps) auto
    with IH [of bp bs] True r show ?thesis by fastforce
  next
    case False
    then have "pm_search s n attr (mem s l) bp bs = pm_search s n attr (mem s p) p sz"
      using p ne by (subst pm_search.simps) auto
    with IH [of p sz] False r show ?thesis by fastforce
  qed
qed

lemma pm_search_zone:
  assumes ok: "zone_ok s z xs" and z: "z < MZONE_REAL_COUNT"
  obtains bp bs where "pm_search s n attr (z_root s z) PAGE_ERROR PAGE_ERROR = Some (bp, bs)"
    and "bp = PAGE_ERROR \<and> (\<forall>q t b. (q, t, b) \<in> set xs \<longrightarrow> t < n) \<or>
      (\<exists>at. (bp, bs, at) \<in> set xs \<and> bp \<noteq> PAGE_ERROR \<and> n \<le> bs \<and>
         (\<forall>q t b. (q, t, b) \<in> set xs \<longrightarrow> n \<le> t \<longrightarrow> bs \<le> t))"
proof -
  have pl: "plist s (z_root_at s z) xs" and f: "franges (MZONE_MIN z) (MZONE_MAX z + 1) xs"
    using ok by (simp_all add: zone_ok_def)
  have hi: "MZONE_MAX z + 1 \<le> VM_HOST_BASE" using zone_max_below_host [OF z] by simp
  have small: "q + t \<le> VM_HOST_BASE" if "(q, t, b) \<in> set xs" for q t b
    using franges_member [OF f that] hi by simp
  from pm_search_correct [OF pl f hi, of n attr PAGE_ERROR PAGE_ERROR]
  obtain bp bs where s: "pm_search s n attr (z_root s z) PAGE_ERROR PAGE_ERROR = Some (bp, bs)"
    and d: "(bp, bs) = (PAGE_ERROR, PAGE_ERROR) \<and>
        (\<forall>q t b. (q, t, b) \<in> set xs \<longrightarrow> n \<le> t \<longrightarrow> PAGE_ERROR \<le> t) \<or>
      (\<exists>at. (bp, bs, at) \<in> set xs \<and> n \<le> bs \<and> bs \<le> PAGE_ERROR \<and>
        (\<forall>q t b. (q, t, b) \<in> set xs \<longrightarrow> n \<le> t \<longrightarrow> bs \<le> t))"
    by (auto simp: z_root_def)
  from d have "bp = PAGE_ERROR \<and> (\<forall>q t b. (q, t, b) \<in> set xs \<longrightarrow> t < n) \<or>
      (\<exists>at. (bp, bs, at) \<in> set xs \<and> bp \<noteq> PAGE_ERROR \<and> n \<le> bs \<and>
         (\<forall>q t b. (q, t, b) \<in> set xs \<longrightarrow> n \<le> t \<longrightarrow> bs \<le> t))"
    by (force dest: small simp: not_less [symmetric])
  with s show ?thesis by (rule that)
qed


subsection \<open>Taking bytes keeps the zone well formed\<close>

lemma pm_stats_simps [simp]:
  "mem (pm_stats z n s) = mem s" "page_zones (pm_stats z n s) = page_zones s"
  by (simp_all add: pm_stats_def)

lemma pm_take_fst [simp]: "fst (pm_take z attr bp bs m s) = bp + (bs - m)"
  by (simp add: pm_take_def Let_def)

text \<open>
  What the chain says about the range \<open>r = (bp, bs, at)\<close> between \<open>ys\<close> and \<open>zs\<close>, in the form the
  proofs about splicing use it.
\<close>

lemma zone_mid:
  assumes ok: "zone_ok s z (ys @ (bp, bs, at) # zs)" and z: "z < MZONE_REAL_COUNT"
    and host: "VM_HOST_BASE \<le> page_zones s"
  shows "p_self s bp = pend (z_root_at s z) ys" "p_size s bp = bs" "p_attr s bp = at"
    "mem s (pend (z_root_at s z) ys) = bp"
    "mem s bp = (if zs = [] then PAGE_ERROR else fst (hd zs))"
    "4096 \<le> bs" "4096 dvd bp" "4096 dvd bs" "bp + bs \<le> VM_HOST_BASE"
    "pend (z_root_at s z) ys < bp \<or> bp + bs \<le> pend (z_root_at s z) ys"
    "zs \<noteq> [] \<Longrightarrow> bp + bs < fst (hd zs)" "zs \<noteq> [] \<Longrightarrow> fst (hd zs) < VM_HOST_BASE"
    "zs \<noteq> [] \<Longrightarrow> p_self s (fst (hd zs)) = bp"
    "\<And>a. a = z_root_at s z \<or> a \<in> free_bytes ys \<or> a \<in> free_bytes zs \<Longrightarrow> a < bp \<or> bp + bs \<le> a"
    "zero_range s (bp, bs, at)"
    "zs \<noteq> [] \<Longrightarrow> pend (z_root_at s z) ys \<noteq> fst (hd zs) + 4"
proof -
  let ?l = "z_root_at s z" and ?lo = "MZONE_MIN z" and ?hi = "MZONE_MAX z + 1"
  have f: "franges ?lo ?hi (ys @ (bp, bs, at) # zs)" and c: "plist s ?l (ys @ (bp, bs, at) # zs)"
    and zr: "zero_ranges s (ys @ (bp, bs, at) # zs)" using ok by (simp_all add: zone_ok_def)
  show "p_self s bp = pend ?l ys" "p_size s bp = bs" "p_attr s bp = at" "mem s (pend ?l ys) = bp"
    "zero_range s (bp, bs, at)" using c zr by (simp_all add: plist_append)
  show "mem s bp = (if zs = [] then PAGE_ERROR else fst (hd zs))"
    using c by (intro plist_head) (simp add: plist_append)
  show sz: "4096 \<le> bs" "4096 dvd bp" "4096 dvd bs" using f by (auto simp: franges_append dest: dvd_imp_le)
  show hb: "bp + bs \<le> VM_HOST_BASE"
    using f zone_max_below_host [OF z] by (simp add: franges_append)
  show "zs \<noteq> [] \<Longrightarrow> bp + bs < fst (hd zs)" "zs \<noteq> [] \<Longrightarrow> fst (hd zs) < VM_HOST_BASE"
      "zs \<noteq> [] \<Longrightarrow> p_self s (fst (hd zs)) = bp"
    using f c zone_max_below_host [OF z] by (cases zs; auto simp: franges_append plist_append)+
  have l: "VM_HOST_BASE \<le> ?l" using host by (simp add: z_root_at_def)
  have fy: "franges ?lo ?hi ys" using f by (simp add: franges_append)
  have ydisj: "free_bytes ys \<inter> ({bp ..< bp + bs} \<union> free_bytes zs) = {}"
    using free_bytes_disjoint [OF f] by simp
  have zdisj: "{bp ..< bp + bs} \<inter> free_bytes zs = {}"
    using f free_bytes_disjoint [of bp ?hi "[(bp, bs, at)]" zs] by (auto simp: franges_append)
  show "a < bp \<or> bp + bs \<le> a" if "a = ?l \<or> a \<in> free_bytes ys \<or> a \<in> free_bytes zs" for a
  proof (rule ccontr)
    assume "\<not> (a < bp \<or> bp + bs \<le> a)"
    then have "a \<in> {bp ..< bp + bs}" by auto
    then show False using that l hb ydisj zdisj by auto
  qed
  then show "pend ?l ys < bp \<or> bp + bs \<le> pend ?l ys"
    using pend_cases [OF fy, of ?l] by auto
  show "pend ?l ys \<noteq> fst (hd zs) + 4" if ne: "zs \<noteq> []"
  proof -
    obtain sz at where "(fst (hd zs), sz, at) \<in> set zs" using ne by (rule hd_mem)
    moreover obtain lo' where "franges lo' ?hi zs" using f by (auto simp: franges_append)
    ultimately have "fst (hd zs) + 4 \<in> free_bytes zs" using franges_ctl_bytes by fastforce
    moreover have "?l \<notin> free_bytes zs"
      using free_bytes_bounds [OF f] l zone_max_below_host [OF z] by force
    ultimately show ?thesis using pend_cases [OF fy, of ?l] ydisj by auto
  qed
qed

lemma page_unlink_mem:
  assumes ok: "zone_ok s z (ys @ (bp, bs, at) # zs)" and z: "z < MZONE_REAL_COUNT"
    and host: "VM_HOST_BASE \<le> page_zones s"
  shows "mem (page_unlink bp s) =
    (if zs = [] then (mem s)(pend (z_root_at s z) ys := PAGE_ERROR)
     else (mem s)(pend (z_root_at s z) ys := fst (hd zs), fst (hd zs) + 4 := pend (z_root_at s z) ys))"
    and "page_zones (page_unlink bp s) = page_zones s"
proof -
  note mid = zone_mid [OF ok z host]
  let ?l = "pend (z_root_at s z) ys"
  have ne: "?l \<noteq> bp" "?l \<noteq> bp + 4" using mid(6,10) by auto
  have s1: "mem (put ?l (mem s bp) s) bp = mem s bp" "p_self (put ?l (mem s bp) s) bp = ?l"
    using ne mid(1) by (simp_all add: p_self_def)
  show "mem (page_unlink bp s) =
    (if zs = [] then (mem s)(?l := PAGE_ERROR) else (mem s)(?l := fst (hd zs), fst (hd zs) + 4 := ?l))"
    unfolding page_unlink_def Let_def mid(1) p_next_def s1 set_p_self_def using mid(5,12) by auto
  show "page_zones (page_unlink bp s) = page_zones s"
    by (simp add: page_unlink_def Let_def set_p_self_def)
qed

lemma pm_take_mem:
  assumes ok: "zone_ok s z (ys @ (bp, bs, at) # zs)" and z: "z < MZONE_REAL_COUNT"
    and host: "VM_HOST_BASE \<le> page_zones s" and m: "m \<le> bs" "4096 dvd m"
    and t: "t = snd (pm_take z attr bp bs m s)" and l: "l = pend (z_root_at s z) ys"
  shows "page_zones t = page_zones s"
    and "\<And>a. a < bp \<or> bp + bs \<le> a \<Longrightarrow> mem t a =
      (if m = bs \<and> zs \<noteq> [] \<and> a = fst (hd zs) + 4 then l
       else if m = bs \<and> a = l then mem s bp else mem s a)"
    and "\<And>a. m < bs \<Longrightarrow> bp \<le> a \<Longrightarrow> a < bp + (bs - m) \<Longrightarrow>
      mem t a = (if a = bp + 8 then bs - m else mem s a)"
    and "\<And>a. zero_attr attr \<Longrightarrow> 4 dvd a \<Longrightarrow> bp + (bs - m) \<le> a \<Longrightarrow> a < bp + bs \<Longrightarrow> mem t a = 0"
proof -
  note mid = zone_mid [OF ok z host]
  have m4: "4 * (m div 4) = m"
    using m(2) dvd_mult_div_cancel dvd_trans [of 4 4096 m] by fastforce
  have hdz: "zs \<noteq> [] \<Longrightarrow> bp + bs < fst (hd zs)" using mid(11) .
  have zr: "zero_attr at \<Longrightarrow> 4 dvd a \<Longrightarrow> bp + 16 \<le> a \<Longrightarrow> a < bp + bs \<Longrightarrow> mem s a = 0" for a
    using mid(15) by (simp add: zero_range_def)
  note cells = ctl_cells [OF _ mid(7)]
  show "page_zones t = page_zones s"
    by (simp add: t pm_take_def Let_def page_unlink_mem(2) [OF ok z host] clear_ctl_def page_set_defs)
  {
    assume b: "m = bs"
    let ?s1 = "page_unlink bp s"
    have at1: "p_attr ?s1 bp = at"
      using mid(3,6,10) hdz by (auto simp: page_unlink_mem(1) [OF ok z host] p_attr_def)
    have t': "mem t a = (if zero_attr attr \<and> \<not> zero_attr at then (if bp \<le> a \<and> a < bp + bs then 0 else mem ?s1 a)
        else if zero_attr attr \<and> a \<in> {bp, bp + 4, bp + 8, bp + 12} then 0 else mem ?s1 a)" for a
      using mid(6) by (auto simp: t pm_take_def Let_def b at1 clear_ctl_def page_set_defs m4 [unfolded b])
    note t' at1
  } note whole = this
  {
    assume b: "m < bs"
    have at1: "p_attr (set_p_size bp (bs - m) s) bp = at"
      using mid(3) by (simp add: p_attr_def set_p_size_def)
    let ?s1 = "pm_stats z m (set_p_size bp (bs - m) s)"
    have t2: "t = (if zero_attr attr \<and> \<not> zero_attr at
        then memsetl (bp + (bs - m)) 0 (m div 4) ?s1 else ?s1)"
      using b by (cases "zero_attr attr"; cases "zero_attr at") (simp_all add: t pm_take_def Let_def mid(2) at1)
    have "mem t a = (if zero_attr attr \<and> \<not> zero_attr at \<and> bp + (bs - m) \<le> a \<and> a < bp + bs then 0
        else if a = bp + 8 then bs - m else mem s a)" for a
      unfolding t2 using b m4 by (simp add: set_p_size_def)
  } note part = this
  have m': "4096 \<le> bs - m" if "m < bs" using that m mid(8) by (simp add: dvd_diff_nat dvd_imp_le)
  show "mem t a = (if m = bs \<and> zs \<noteq> [] \<and> a = fst (hd zs) + 4 then l
       else if m = bs \<and> a = l then mem s bp else mem s a)" if "a < bp \<or> bp + bs \<le> a" for a
  proof (cases "m = bs")
    case True
    have "mem t a = mem (page_unlink bp s) a"
      using whole(1) [OF True, of a] that mid(6) by (auto split: if_splits)
    then show ?thesis using True l mid(5) by (cases "zs = []") (simp_all add: page_unlink_mem(1) [OF ok z host])
  next
    case False
    then show ?thesis using part [of a] that m mid(6) by auto
  qed
  show "mem t a = (if a = bp + 8 then bs - m else mem s a)"
    if "m < bs" "bp \<le> a" "a < bp + (bs - m)" for a
    using part [OF that(1), of a] that by auto
  show "mem t a = 0" if "zero_attr attr" "4 dvd a" "bp + (bs - m) \<le> a" "a < bp + bs" for a
  proof (cases "m = bs")
    case True
    have s1: "mem (page_unlink bp s) a = mem s a"
    proof -
      have "a \<noteq> pend (z_root_at s z) ys" using that True mid(10) by linarith
      moreover have "zs \<noteq> [] \<Longrightarrow> a \<noteq> fst (hd zs) + 4" using that True hdz by linarith
      ultimately show ?thesis by (simp add: page_unlink_mem(1) [OF ok z host])
    qed
    have a: "bp \<le> a" using that True by simp
    show ?thesis
    proof (cases "zero_attr at")
      case False
      then show ?thesis using whole(1) [OF True, of a] that a by simp
    next
      case at: True
      then have e: "mem t a = (if a \<in> {bp, bp + 4, bp + 8, bp + 12} then 0 else mem s a)"
        using whole(1) [OF True, of a] that s1 by simp
      show ?thesis
      proof (cases "a < bp + 16")
        case True
        then show ?thesis using e cells [OF that(2) a] by simp
      next
        case False
        then show ?thesis using e zr [OF at that(2) _ that(4)] by simp
      qed
    qed
  next
    case False
    then have b: "m < bs" using m by simp
    then have "a \<noteq> bp + 8" "bp + 16 \<le> a" using m' that by linarith+
    then show ?thesis using part [OF b, of a] that zr [of a] by (cases "zero_attr at") simp_all
  qed
qed

lemma pm_take_ok:
  assumes ok: "zone_ok s z (ys @ (bp, bs, at) # zs)" and z: "z < MZONE_REAL_COUNT"
    and host: "VM_HOST_BASE \<le> page_zones s" and m: "m \<le> bs" "4096 dvd m"
    and t: "t = snd (pm_take z attr bp bs m s)"
  shows "zone_ok t z (ys @ (if m = bs then [] else [(bp, bs - m, at)]) @ zs)"
    and "same_outside (insert (z_root_at s z) (free_bytes (ys @ (bp, bs, at) # zs))) s t"
proof -
  let ?l = "pend (z_root_at s z) ys"
  note mid = zone_mid [OF ok z host]
  note mt = pm_take_mem [OF ok z host m t refl]
  have f: "franges (MZONE_MIN z) (MZONE_MAX z + 1) (ys @ (bp, bs, at) # zs)"
    using ok by (simp add: zone_ok_def)
  have fy: "franges (MZONE_MIN z) (MZONE_MAX z + 1) ys" using f by (simp add: franges_append)
  have m': "4096 \<le> bs - m" if "m \<noteq> bs" using that m mid(8) by (simp add: dvd_diff_nat dvd_imp_le)
  show "zone_ok t z (ys @ (if m = bs then [] else [(bp, bs - m, at)]) @ zs)"
  proof (rule zone_splice [where old = "[(bp, bs, at)]" and s = s])
    show "zone_ok s z (ys @ [(bp, bs, at)] @ zs)" using ok by simp
    show "page_zones t = page_zones s" by (rule mt)
  next
    fix a assume a: "a = z_root_at s z \<or> a \<in> free_bytes ys \<or> a \<in> free_bytes zs" "a \<noteq> ?l"
      "zs \<noteq> [] \<Longrightarrow> a \<noteq> fst (hd zs) + 4"
    show "mem t a = mem s a" using mt(2) [OF mid(14) [OF a(1)]] a by auto
  next
    show "pseg t ?l (if m = bs then [] else [(bp, bs - m, at)])"
      using mt(2) [of ?l] mt(3) [of "bp + 4"] mt(3) [of "bp + 8"] mt(3) [of "bp + 12"] mid m'
      by (auto simp: p_self_def p_size_def p_attr_def)
    show "mem t (pend (z_root_at s z) (ys @ (if m = bs then [] else [(bp, bs - m, at)]))) =
        mem s (pend (z_root_at s z) (ys @ [(bp, bs, at)]))"
      using mt(2) [of ?l] mt(3) [of bp] mid(4,5,10,11,16) m' by auto
    show "p_self t (fst (hd zs)) =
        pend (z_root_at s z) (ys @ (if m = bs then [] else [(bp, bs - m, at)]))" if "zs \<noteq> []"
      using mt(2) [of "fst (hd zs) + 4"] mid(11,13) that by (auto simp: p_self_def)
    show "franges (MZONE_MIN z) (MZONE_MAX z + 1) (ys @ (if m = bs then [] else [(bp, bs - m, at)]) @ zs)"
      using f m m' by (auto simp: franges_append dvd_diff_nat intro: franges_mono)
    show "zero_ranges t (if m = bs then [] else [(bp, bs - m, at)])"
      using mid(15) mt(3) m' by (auto simp: zero_range_def)
  qed (use z host in auto)
  show "same_outside (insert (z_root_at s z) (free_bytes (ys @ (bp, bs, at) # zs))) s t"
    unfolding same_outside_def
  proof (intro conjI allI impI)
    fix a assume a: "a \<notin> insert (z_root_at s z) (free_bytes (ys @ (bp, bs, at) # zs))"
    then have "a < bp \<or> bp + bs \<le> a" by auto
    moreover have "a \<noteq> ?l" using a pend_cases [OF fy, of "z_root_at s z"] by auto
    moreover have "zs \<noteq> [] \<Longrightarrow> a \<noteq> fst (hd zs) + 4"
      using a franges_ctl_bytes [OF f, of "fst (hd zs)" _ _ 4] hd_mem [of zs] by force
    ultimately show "mem t a = mem s a" using mt(2) by auto
  qed (rule mt)
qed

subsection \<open>What a successful allocation guarantees\<close>

text \<open>
  \<open>page_got s X attr y p m t\<close>: the step from \<open>s\<close> to \<open>t\<close> took the \<open>m\<close> bytes at \<open>p\<close>, all of them
  free before, out of zone \<open>y\<close>; nothing outside that zone's free bytes and its list head was
  written; and if the caller asked for \<open>PAGEATTR_ZERO\<close>, the bytes are zero.
\<close>

definition page_got ::
  "pstate \<Rightarrow> (nat \<Rightarrow> frange list) \<Rightarrow> nat \<Rightarrow> nat \<Rightarrow> nat \<Rightarrow> nat \<Rightarrow> pstate \<Rightarrow> bool" where
  "page_got s X attr y p m t \<longleftrightarrow>
     (\<exists>xs. pwf t (X(y := xs)) \<and> free_bytes xs = free_bytes (X y) - {p ..< p + m}) \<and>
     4096 dvd p \<and> {p ..< p + m} \<subseteq> free_bytes (X y) \<and>
     same_outside (insert (z_root_at s y) (free_bytes (X y))) s t \<and>
     (zero_attr attr \<longrightarrow> zeroed t p m)"

lemma pm_take_got:
  assumes wf: "pwf s X" and z: "z < MZONE_REAL_COUNT" and r: "(bp, bs, at) \<in> set (X z)"
    and m: "m \<le> bs" "4096 dvd m"
  shows "page_got s X attr z (bp + (bs - m)) m (snd (pm_take z attr bp bs m s))"
proof -
  obtain ys zs where X: "X z = ys @ (bp, bs, at) # zs" using r by (meson split_list)
  let ?t = "snd (pm_take z attr bp bs m s)" and ?new = "if m = bs then [] else [(bp, bs - m, at)]"
  have host: "VM_HOST_BASE \<le> page_zones s" and ok: "zone_ok s z (ys @ (bp, bs, at) # zs)"
    using wf z X by (auto simp: pwf_def)
  note mid = zone_mid [OF ok z host]
  note tk = pm_take_ok [OF ok z host m refl, of attr]
  have "pwf ?t (X(z := ys @ ?new @ zs))"
    by (rule pwf_update [OF wf z tk(1) tk(2)]) (use zone_free_bytes [OF wf z] X in simp)
  moreover have "free_bytes (ys @ ?new @ zs) = free_bytes (X z) - {bp + (bs - m) ..< bp + (bs - m) + m}"
  proof -
    have "free_bytes ?new = {bp ..< bp + bs} - {bp + (bs - m) ..< bp + bs}" using m(1) by auto
    moreover have "x \<notin> {bp ..< bp + bs}" if "x \<in> free_bytes ys \<union> free_bytes zs" for x
      using mid(14) that by fastforce
    ultimately show ?thesis using m(1) unfolding X by (fastforce simp del: if_split)
  qed
  moreover have "4096 dvd bp + (bs - m)" using mid(7,8) m by (simp add: dvd_diff_nat)
  moreover have "{bp + (bs - m) ..< bp + (bs - m) + m} \<subseteq> free_bytes (X z)" using X m(1) by auto
  moreover have "zero_attr attr \<longrightarrow> zeroed ?t (bp + (bs - m)) m"
    using pm_take_mem(4) [OF ok z host m refl refl, of attr] m(1) by (simp add: zeroed_def)
  ultimately show ?thesis unfolding page_got_def using tk(2) X by auto
qed

lemma range_below_host:
  assumes "pwf s X" and "z < MZONE_REAL_COUNT" and "(bp, bs, at) \<in> set (X z)"
  shows "bp + bs \<le> VM_HOST_BASE" "4096 dvd bp" "4096 dvd bs" "0 < bs"
  using franges_member [of "MZONE_MIN z" "MZONE_MAX z + 1" "X z" bp bs at] assms
    zone_max_below_host [OF assms(2)] by (auto simp: pwf_def zone_ok_def)

definition no_fit :: "frange list \<Rightarrow> nat \<Rightarrow> bool" where
  "no_fit xs n \<longleftrightarrow> (\<forall>q u b. (q, u, b) \<in> set xs \<longrightarrow> u < n)"

definition best_fit :: "frange list \<Rightarrow> nat \<Rightarrow> nat \<Rightarrow> nat \<Rightarrow> bool" where
  "best_fit xs n p m \<longleftrightarrow> (\<exists>bp bs at. (bp, bs, at) \<in> set xs \<and> n \<le> bs \<and> bp \<le> p \<and> p + m = bp + bs \<and>
     (\<forall>q u b. (q, u, b) \<in> set xs \<longrightarrow> n \<le> u \<longrightarrow> bs \<le> u))"

text \<open>
  Both allocators retry in the next lower zone. The interface below is what the retry loop needs:
  an attempt in a well-formed zone either fails, leaving the store alone, or has taken memory from
  that zone. Its lemma shows what the loop then guarantees.
\<close>

locale zone_fallback =
  fixes step :: "pstate \<Rightarrow> nat \<Rightarrow> ('r \<times> pstate) option"
    and run :: "pstate \<Rightarrow> nat \<Rightarrow> ('r \<times> pstate) option"
    and failed :: "'r \<Rightarrow> bool"
    and bad :: 'r
    and unfit :: "frange list \<Rightarrow> bool"
    and got :: "pstate \<Rightarrow> (nat \<Rightarrow> frange list) \<Rightarrow> nat \<Rightarrow> 'r \<Rightarrow> pstate \<Rightarrow> bool"
  assumes run: "run s z = do {
      (r, s') \<leftarrow> step s z;
      if failed r \<and> z \<noteq> 0 then run s' (z - 1) else Some (r, s')
    }"
    and attempt: "pwf s X \<Longrightarrow> z < MZONE_REAL_COUNT \<Longrightarrow>
      step s z = Some (bad, s) \<and> failed bad \<and> unfit (X z) \<or>
      (\<exists>r t. step s z = Some (r, t) \<and> \<not> failed r \<and> got s X z r t)"
begin

lemma fallback_cases:
  assumes wf: "pwf s X" and z: "z < MZONE_REAL_COUNT"
  shows "run s z = Some (bad, s) \<and> failed bad \<and> (\<forall>y\<le>z. unfit (X y)) \<or>
    (\<exists>r t y. run s z = Some (r, t) \<and> \<not> failed r \<and> y \<le> z \<and> got s X y r t \<and>
       (\<forall>x. y < x \<longrightarrow> x \<le> z \<longrightarrow> unfit (X x)))"
  using z
proof (induction z)
  case 0
  then show ?case using attempt [OF wf 0] by (auto simp: run [of s 0])
next
  case (Suc z)
  from attempt [OF wf Suc.prems] show ?case
  proof (elim disjE exE conjE)
    assume r: "step s (Suc z) = Some (bad, s)" "failed bad" "unfit (X (Suc z))"
    then have "run s (Suc z) = run s z" by (simp add: run [of s "Suc z"])
    with r(3) Suc show ?thesis by (auto simp: le_Suc_eq less_Suc_eq_le)
  next
    fix r t assume r: "step s (Suc z) = Some (r, t)" "\<not> failed r" "got s X (Suc z) r t"
    then have "run s (Suc z) = Some (r, t)" by (simp add: run [of s "Suc z"])
    with r show ?thesis by auto
  qed
qed

end

lemma pm_search_fits:
  assumes wf: "pwf s X" and z: "z < MZONE_REAL_COUNT"
  obtains (none) bs where
    "pm_search s n attr (z_root s z) PAGE_ERROR PAGE_ERROR = Some (PAGE_ERROR, bs)" "no_fit (X z) n"
  | (some) bp bs at where
    "pm_search s n attr (z_root s z) PAGE_ERROR PAGE_ERROR = Some (bp, bs)" "bp \<noteq> PAGE_ERROR"
    "(bp, bs, at) \<in> set (X z)" "n \<le> bs"
    "\<And>m. m \<le> bs \<Longrightarrow> best_fit (X z) n (bp + (bs - m)) m"
proof -
  have ok: "zone_ok s z (X z)" using wf z by (simp add: pwf_def)
  from pm_search_zone [OF ok z, of n attr] obtain bp bs where
    se: "pm_search s n attr (z_root s z) PAGE_ERROR PAGE_ERROR = Some (bp, bs)"
    and d: "bp = PAGE_ERROR \<and> (\<forall>q t b. (q, t, b) \<in> set (X z) \<longrightarrow> t < n) \<or>
      (\<exists>at. (bp, bs, at) \<in> set (X z) \<and> bp \<noteq> PAGE_ERROR \<and> n \<le> bs \<and>
         (\<forall>q t b. (q, t, b) \<in> set (X z) \<longrightarrow> n \<le> t \<longrightarrow> bs \<le> t))" by blast
  from d show thesis
  proof (elim disjE conjE exE)
    assume "bp = PAGE_ERROR" "\<forall>q t b. (q, t, b) \<in> set (X z) \<longrightarrow> t < n"
    then show thesis using se by (intro none [of bs]) (simp_all add: no_fit_def)
  next
    fix at assume at: "(bp, bs, at) \<in> set (X z)" "bp \<noteq> PAGE_ERROR" "n \<le> bs"
      "\<forall>q t b. (q, t, b) \<in> set (X z) \<longrightarrow> n \<le> t \<longrightarrow> bs \<le> t"
    have "best_fit (X z) n (bp + (bs - m)) m" if "m \<le> bs" for m
      unfolding best_fit_def using at that by (intro exI [of _ bp] exI [of _ bs] exI [of _ at]) simp
    then show thesis by (rule some [OF se at(2,1,3)])
  qed
qed

lemma page_malloc_attempt:
  assumes wf: "pwf s X" and z: "z < MZONE_REAL_COUNT"
  shows "page_malloc_zone s n attr z = Some (PAGE_ERROR, s) \<and> no_fit (X z) n \<or>
    (\<exists>r t. page_malloc_zone s n attr z = Some (r, t) \<and> r \<noteq> PAGE_ERROR \<and>
       n \<le> CEIL_ALIGN n PAGESIZE \<and> page_got s X attr z r (CEIL_ALIGN n PAGESIZE) t \<and>
       best_fit (X z) n r (CEIL_ALIGN n PAGESIZE))"
proof (rule pm_search_fits [OF wf z, of n attr], goal_cases)
  case (1 bs)
  then show ?case by (simp add: page_malloc_zone_def)
next
  case (2 bp bs at)
  note rb = range_below_host [OF wf z 2(3)]
  let ?m = "CEIL_ALIGN n PAGESIZE"
  have m: "?m \<le> bs" "4096 dvd ?m" using CEIL_ALIGN_page_le [OF 2(4)] rb by simp_all
  have "n \<le> ?m" using 2(4) rb by (intro CEIL_ALIGN_page_ge) simp
  moreover have "page_malloc_zone s n attr z = Some (bp + (bs - ?m), snd (pm_take z attr bp bs ?m s))"
    using 2(1,2) pm_take_fst [of z attr bp bs ?m s]
    by (cases "pm_take z attr bp bs ?m s") (simp add: page_malloc_zone_def)
  moreover have "bp + (bs - ?m) \<noteq> PAGE_ERROR" using rb by linarith
  ultimately show ?case using pm_take_got [OF wf z 2(3) m, of attr] 2(5) [OF m(1)] by blast
qed

lemma page_malloc_part_attempt:
  assumes wf: "pwf s X" and z: "z < MZONE_REAL_COUNT"
  shows "page_malloc_part_zone s n mx rs attr z = Some ((PAGE_ERROR, rs), s) \<and> no_fit (X z) n \<or>
    (\<exists>r t. page_malloc_part_zone s n mx rs attr z = Some (r, t) \<and> fst r \<noteq> PAGE_ERROR \<and>
       page_got s X attr z (fst r) (snd r) t \<and> best_fit (X z) n (fst r) (snd r) \<and>
       (\<exists>bp bs at. (bp, bs, at) \<in> set (X z) \<and> n \<le> bs \<and> snd r = min bs (FLOOR_ALIGN mx PAGESIZE)))"
proof (rule pm_search_fits [OF wf z, of n attr], goal_cases)
  case (1 bs)
  then show ?case by (simp add: page_malloc_part_zone_def)
next
  case (2 bp bs at)
  note rb = range_below_host [OF wf z 2(3)]
  let ?m = "min bs (FLOOR_ALIGN mx PAGESIZE)"
  have m: "?m \<le> bs" "4096 dvd ?m" using rb by (simp_all add: min_def)
  have "page_malloc_part_zone s n mx rs attr z =
      Some ((bp + (bs - ?m), ?m), snd (pm_take z attr bp bs ?m s))"
    using 2(1,2) pm_take_fst [of z attr bp bs ?m s]
    by (cases "pm_take z attr bp bs ?m s") (simp add: page_malloc_part_zone_def Let_def)
  moreover have "bp + (bs - ?m) \<noteq> PAGE_ERROR" using rb by linarith
  ultimately show ?case using pm_take_got [OF wf z 2(3) m, of attr] 2(5) [OF m(1)] 2(3,4) by fastforce
qed

interpretation pm: zone_fallback "\<lambda>s. page_malloc_zone s n attr" "\<lambda>s. page_malloc s n attr"
    "\<lambda>r. r = PAGE_ERROR" PAGE_ERROR "\<lambda>xs. no_fit xs n"
    "\<lambda>s X z r t. n \<le> CEIL_ALIGN n PAGESIZE \<and> page_got s X attr z r (CEIL_ALIGN n PAGESIZE) t \<and>
       best_fit (X z) n r (CEIL_ALIGN n PAGESIZE)"
  for n attr
proof (unfold_locales, goal_cases)
  case (1 s z)
  show ?case by (subst page_malloc.simps) simp
next
  case (2 s X z)
  then show ?case using page_malloc_attempt [OF 2, of n attr] by simp
qed

interpretation pmp: zone_fallback "\<lambda>s. page_malloc_part_zone s n mx rs attr"
    "\<lambda>s. page_malloc_part s n mx rs attr" "\<lambda>r. fst r = PAGE_ERROR" "(PAGE_ERROR, rs)" "\<lambda>xs. no_fit xs n"
    "\<lambda>s X z r t. page_got s X attr z (fst r) (snd r) t \<and> best_fit (X z) n (fst r) (snd r) \<and>
       (\<exists>bp bs at. (bp, bs, at) \<in> set (X z) \<and> n \<le> bs \<and> snd r = min bs (FLOOR_ALIGN mx PAGESIZE))"
  for n mx rs attr
proof (unfold_locales, goal_cases)
  case (1 s z)
  show ?case by (subst page_malloc_part.simps) (auto simp: case_prod_beta intro!: arg_cong2 [where f = Option.bind])
next
  case (2 s X z)
  then show ?case using page_malloc_part_attempt [OF 2, of n mx rs attr] by fastforce
qed

lemma best_fit_fits: "best_fit xs n p m \<Longrightarrow> \<not> no_fit xs n"
  by (fastforce simp: best_fit_def no_fit_def)

subsection \<open>Correctness of the best-fit allocators\<close>

text \<open>
  C1: In a well-formed store \<open>page_malloc\<close> returns. If no zone up to \<open>zone_id\<close> has a free range of
  \<open>n_bytes\<close>, it returns \<open>PAGE_ERROR\<close> and changes nothing. Otherwise it takes the page-rounded
  number of bytes from the top of a smallest sufficient range of the highest zone that has one:
  the block was free, is page aligned, exactly it leaves the free memory, it is zero if zero memory
  was asked for, the free lists stay well formed, and nothing but free memory and the list head of
  that zone was written.
\<close>

theorem page_malloc_correct:
  assumes "pwf s X" and "zone_id < MZONE_REAL_COUNT"
  shows "\<exists>p t. page_malloc s n attr zone_id = Some (p, t) \<and>
    (if \<forall>y\<le>zone_id. no_fit (X y) n then p = PAGE_ERROR \<and> t = s
     else p \<noteq> PAGE_ERROR \<and> n \<le> CEIL_ALIGN n PAGESIZE \<and>
       (\<exists>y\<le>zone_id. page_got s X attr y p (CEIL_ALIGN n PAGESIZE) t \<and>
          best_fit (X y) n p (CEIL_ALIGN n PAGESIZE) \<and> (\<forall>x. y < x \<and> x \<le> zone_id \<longrightarrow> no_fit (X x) n)))"
  using pm.fallback_cases [OF assms, of n attr] by (auto dest: best_fit_fits)

theorem page_malloc_correct_witness:
  "\<exists>p t. page_malloc page_demo 5000 PAGEATTR_ZERO 1 = Some (p, t) \<and> p + 8192 = 0x204000 \<and>
     page_got page_demo demo_ranges PAGEATTR_ZERO 1 p 8192 t"
proof -
  have c: "CEIL_ALIGN 5000 PAGESIZE = 8192" by (simp add: CEIL_ALIGN_page add32_def)
  have "\<not> no_fit (demo_ranges 1) 5000" by (simp add: no_fit_def demo_ranges_def)
  moreover have "no_fit (demo_ranges 0) 5000" by (simp add: no_fit_def demo_ranges_def)
  ultimately show ?thesis
    using page_malloc_correct [OF page_demo_wf, of 1 5000 PAGEATTR_ZERO]
    by (auto simp: c MZONE_REAL_COUNT_def le_Suc_eq best_fit_def demo_ranges_def dest: best_fit_fits)
qed

text \<open>
  \<open>page_malloc_part\<close> returns likewise. On failure \<open>*res_size\<close> keeps its value; on success the
  block has the size stored there, which never exceeds \<open>max_size\<close> rounded down to pages, and is at
  least \<open>min_size\<close> provided \<open>max_size\<close> rounded down is.
\<close>

theorem page_malloc_part_correct:
  assumes "pwf s X" and "zone_id < MZONE_REAL_COUNT"
  shows "\<exists>p size t. page_malloc_part s min_size max_size res_size attr zone_id = Some ((p, size), t) \<and>
    (if \<forall>y\<le>zone_id. no_fit (X y) min_size then p = PAGE_ERROR \<and> size = res_size \<and> t = s
     else p \<noteq> PAGE_ERROR \<and>
       (\<exists>y\<le>zone_id. page_got s X attr y p size t \<and> best_fit (X y) min_size p size \<and>
          (\<forall>x. y < x \<and> x \<le> zone_id \<longrightarrow> no_fit (X x) min_size)) \<and>
       size \<le> FLOOR_ALIGN max_size PAGESIZE \<and>
       (min_size \<le> FLOOR_ALIGN max_size PAGESIZE \<longrightarrow> min_size \<le> size))"
  using pmp.fallback_cases [OF assms, of min_size max_size res_size attr]
proof (elim disjE exE conjE)
  fix r t y bp bs at
  assume "page_malloc_part s min_size max_size res_size attr zone_id = Some (r, t)" "fst r \<noteq> PAGE_ERROR"
    "y \<le> zone_id" "page_got s X attr y (fst r) (snd r) t" "best_fit (X y) min_size (fst r) (snd r)"
    "min_size \<le> bs" "snd r = min bs (FLOOR_ALIGN max_size PAGESIZE)"
    "\<forall>x>y. x \<le> zone_id \<longrightarrow> no_fit (X x) min_size"
  then show ?thesis using best_fit_fits
    by - (rule exI [of _ "fst r"], rule exI [of _ "snd r"], rule exI [of _ t], auto simp: prod_eq_iff)
qed auto

theorem page_malloc_part_correct_witness:
  "\<exists>p size t. page_malloc_part page_demo 5000 12289 7 0 1 = Some ((p, size), t) \<and> p \<noteq> PAGE_ERROR \<and>
     page_got page_demo demo_ranges 0 1 p size t \<and> 5000 \<le> size \<and> size \<le> 12288"
proof -
  have c: "FLOOR_ALIGN 12289 PAGESIZE = 12288" by (simp add: FLOOR_ALIGN_page)
  have "\<not> no_fit (demo_ranges 1) 5000" by (simp add: no_fit_def demo_ranges_def)
  moreover have "no_fit (demo_ranges 0) 5000" by (simp add: no_fit_def demo_ranges_def)
  ultimately show ?thesis
    using page_malloc_part_correct [OF page_demo_wf, of 1 5000 12289 7 0]
    by (auto simp: c MZONE_REAL_COUNT_def le_Suc_eq dest: best_fit_fits)
qed

end
