(* ===== verification/Page_Free.thy ===== *)
theory Page_Free
  imports Page_Alloc
begin

text \<open>
  Returning memory: \<open>page_ffree\<close> of \<open>src/src/kernel/memory/memory.c\<close>. The freed region is put back
  into the address-ordered list of its zone and merged with the neighbours it touches; a region
  that crosses the zone boundary is split. \<open>page_free\<close> and \<open>page_cfree\<close> are \<open>page_ffree\<close> with
  constant attributes. The caller's obligations that the source states as assertions (alignment,
  no wrap-around, nothing already free) are the hypotheses of the theorems.
\<close>

subsection \<open>The code\<close>

partial_function (option) ff_find :: "pstate \<Rightarrow> nat \<Rightarrow> nat \<Rightarrow> nat option" where
  "ff_find s start piter =
     (let iter = mem s piter in
      if iter \<noteq> PAGE_ERROR \<and> PAGE_END s iter \<le> start then ff_find s start iter else Some piter)"

text \<open>Pointing the successor's back link at \<open>p\<close>, and clearing a swallowed controller.\<close>

definition relink_next :: "nat \<Rightarrow> pstate \<Rightarrow> pstate" where
  "relink_next p s = (if p_next s p \<noteq> PAGE_ERROR then set_p_self (p_next s p) p s else s)"

definition clear_if_zero :: "nat \<Rightarrow> nat \<Rightarrow> pstate \<Rightarrow> pstate" where
  "clear_if_zero p iter s = (if zero_attr (p_attr s p) then clear_ctl iter s else s)"

text \<open>Extending the range before \<open>start\<close>, and swallowing the next one if they now touch.\<close>

definition ff_swallow :: "nat \<Rightarrow> nat \<Rightarrow> pstate \<Rightarrow> pstate" where
  "ff_swallow prev_page iter s =
     (let s1 = set_p_attr prev_page (p_attr s prev_page AND p_attr s iter) s;
          s2 = set_p_size prev_page (p_size s1 prev_page + p_size s1 iter) s1;
          s3 = set_p_next prev_page (p_next s2 iter) s2
      in clear_if_zero prev_page iter (relink_next prev_page s3))"

definition ff_extend :: "nat \<Rightarrow> nat \<Rightarrow> nat \<Rightarrow> nat \<Rightarrow> pstate \<Rightarrow> pstate" where
  "ff_extend prev_page iter n_bytes attr s =
     (let s1 = set_p_size prev_page (p_size s prev_page + n_bytes) s;
          s2 = set_p_attr prev_page (p_attr s1 prev_page AND attr) s1
      in if PAGE_END s2 prev_page = iter then ff_swallow prev_page iter s2 else s2)"

text \<open>Merging with the range right behind: the controller moves down to \<open>start\<close>.\<close>

definition copy_ctl :: "nat \<Rightarrow> nat \<Rightarrow> pstate \<Rightarrow> pstate" where
  "copy_ctl dst src s =
     set_p_attr dst (p_attr s src) (set_p_size dst (p_size s src)
       (set_p_self dst (p_self s src) (set_p_next dst (p_next s src) s)))"

definition ff_merge_next :: "nat \<Rightarrow> nat \<Rightarrow> nat \<Rightarrow> nat \<Rightarrow> pstate \<Rightarrow> pstate" where
  "ff_merge_next start iter n_bytes attr s =
     (let s1 = copy_ctl start iter s;
          s2 = set_p_size start (p_size s1 start + n_bytes) s1;
          s3 = set_p_attr start (p_attr s2 start AND attr) s2;
          s4 = clear_if_zero start iter s3;
          s5 = relink_next start s4
      in put (p_self s5 start) start s5)"

definition ff_insert :: "nat \<Rightarrow> nat \<Rightarrow> nat \<Rightarrow> nat \<Rightarrow> nat \<Rightarrow> pstate \<Rightarrow> pstate" where
  "ff_insert start piter iter n_bytes attr s =
     (let s1 = set_p_attr start attr (set_p_next start iter (set_p_self start piter
                 (set_p_size start n_bytes s)));
          s2 = put piter start s1
      in if iter \<noteq> PAGE_ERROR then set_p_self iter start s2 else s2)"

definition ff_stats :: "nat \<Rightarrow> nat \<Rightarrow> pstate \<Rightarrow> pstate" where
  "ff_stats zone n s = s\<lparr>
     z_inuse := (z_inuse s)(zone := sub32 (z_inuse s zone) n),
     z_avail := (z_avail s)(zone := add32 (z_avail s zone) n),
     z_free := (z_free s)(zone := add32 (z_free s zone) 1)\<rparr>"

definition ff_link :: "nat \<Rightarrow> nat \<Rightarrow> nat \<Rightarrow> nat \<Rightarrow> nat \<Rightarrow> pstate \<Rightarrow> pstate" where
  "ff_link zone piter start n_bytes attr s =
     (let iter = mem s piter in
      if piter \<noteq> z_root_at s zone \<and> PAGE_END s piter = start
      then ff_extend piter iter n_bytes attr s
      else if iter \<noteq> PAGE_ERROR \<and> iter = start + n_bytes
      then ff_merge_next start iter n_bytes attr s
      else ff_insert start piter iter n_bytes attr s)"

definition page_ffree_zone :: "pstate \<Rightarrow> nat \<Rightarrow> nat \<Rightarrow> nat \<Rightarrow> nat \<Rightarrow> pstate option" where
  "page_ffree_zone s zone start n_bytes attr = do {
     piter \<leftarrow> ff_find s start (z_root_at s zone);
     Some (ff_stats zone n_bytes (ff_link zone piter start n_bytes attr s))
   }"

partial_function (option) page_ffree :: "pstate \<Rightarrow> nat \<Rightarrow> nat \<Rightarrow> nat \<Rightarrow> pstate option" where
  "page_ffree s start n_bytes attr =
     (if n_bytes = 0 then Some s
      else let n = CEIL_ALIGN n_bytes PAGESIZE;
               zone_id = mzone_of start;
               free_end = add32 start n
           in if MZONE_MAX zone_id < sub32 free_end 1
              then (let zone_offset = sub32 (add32 (MZONE_MAX zone_id) 1) start
                    in do {
                      s' \<leftarrow> page_ffree s (add32 start zone_offset) (sub32 n zone_offset) attr;
                      page_ffree_zone s' zone_id start zone_offset attr
                    })
              else page_ffree_zone s zone_id start n attr)"

subsection \<open>Finding the place\<close>

lemma ff_find_correct:
  assumes "plist s l xs" and "franges lo hi xs" and "hi \<le> VM_HOST_BASE"
  shows "\<exists>ys zs. xs = ys @ zs \<and> ff_find s start l = Some (pend l ys) \<and>
    (\<forall>p sz at. (p, sz, at) \<in> set ys \<longrightarrow> p + sz \<le> start) \<and>
    (zs \<noteq> [] \<longrightarrow> start < fst (hd zs) + fst (snd (hd zs)))"
  using assms
proof (induction xs arbitrary: l lo)
  case Nil
  then show ?case by (simp add: ff_find.simps)
next
  case (Cons r xs)
  obtain p sz at where r: "r = (p, sz, at)" by (cases r)
  have p: "mem s l = p" "p_size s p = sz" "plist s p xs" and f: "franges (p + sz + 1) hi xs"
    and ne: "p \<noteq> PAGE_ERROR" using Cons.prems r by auto
  show ?case
  proof (cases "p + sz \<le> start")
    case True
    then have "ff_find s start l = ff_find s start p"
      using p ne by (subst ff_find.simps) (simp add: PAGE_END_def)
    moreover from Cons.IH [OF p(3) f Cons.prems(3)] obtain ys zs where
      "xs = ys @ zs" "ff_find s start p = Some (pend p ys)"
      "\<forall>p sz at. (p, sz, at) \<in> set ys \<longrightarrow> p + sz \<le> start"
      "zs \<noteq> [] \<longrightarrow> start < fst (hd zs) + fst (snd (hd zs))" by blast
    ultimately show ?thesis using True r by (intro exI [of _ "r # ys"] exI [of _ zs]) auto
  next
    case False
    then have "ff_find s start l = Some l"
      using p ne by (subst ff_find.simps) (simp add: PAGE_END_def)
    then show ?thesis using False r by (intro exI [of _ "[]"] exI [of _ "r # xs"]) auto
  qed
qed


subsection \<open>Each way of linking keeps the zone well formed\<close>

lemma zone_splice1:
  assumes ok: "zone_ok s z (ys @ old @ zs)" and z: "z < MZONE_REAL_COUNT"
    and host: "VM_HOST_BASE \<le> page_zones s" and pz: "page_zones t = page_zones s"
    and same: "\<And>a. a = z_root_at s z \<or> a \<in> free_bytes ys \<or> a \<in> free_bytes zs \<Longrightarrow>
      a \<noteq> pend (z_root_at s z) ys \<Longrightarrow> (zs \<noteq> [] \<Longrightarrow> a \<noteq> fst (hd zs) + 4) \<Longrightarrow> mem t a = mem s a"
    and new: "mem t (pend (z_root_at s z) ys) = p" "mem t (p + 4) = pend (z_root_at s z) ys"
      "mem t (p + 8) = sz" "mem t (p + 12) = at"
    and link: "mem t p = mem s (pend (z_root_at s z) (ys @ old))"
    and bck: "zs \<noteq> [] \<Longrightarrow> mem t (fst (hd zs) + 4) = p"
    and fr: "franges (MZONE_MIN z) (MZONE_MAX z + 1) (ys @ (p, sz, at) # zs)"
    and zr: "\<And>a. zero_attr at \<Longrightarrow> 4 dvd a \<Longrightarrow> p + 16 \<le> a \<Longrightarrow> a < p + sz \<Longrightarrow> mem t a = 0"
  shows "zone_ok t z (ys @ (p, sz, at) # zs)"
  using zone_splice [OF ok z host pz same, of "[(p, sz, at)]"] new link bck fr zr
  by (simp add: p_self_def p_size_def p_attr_def zero_range_def)

lemma hd_ctl_bytes:
  assumes f: "franges lo hi (ys @ zs)" and ne: "zs \<noteq> []" and i: "i < 16"
  shows "fst (hd zs) + i \<in> free_bytes zs"
proof -
  obtain sz at where "(fst (hd zs), sz, at) \<in> set zs" by (rule hd_mem [OF ne])
  moreover obtain lo' where "franges lo' hi zs" using f by (auto simp: franges_append)
  ultimately show ?thesis using franges_ctl_bytes i by blast
qed

lemma zone_gap:
  assumes ok: "zone_ok s z (ys @ zs)" and z: "z < MZONE_REAL_COUNT"
    and host: "VM_HOST_BASE \<le> page_zones s"
    and before: "\<forall>p sz at. (p, sz, at) \<in> set ys \<longrightarrow> p + sz \<le> start"
    and after: "zs \<noteq> [] \<longrightarrow> start + n \<le> fst (hd zs)"
    and al: "4096 dvd n" "0 < n" and hi: "start + n \<le> MZONE_MAX z + 1"
  shows "mem s (pend (z_root_at s z) ys) = (if zs = [] then PAGE_ERROR else fst (hd zs))"
    "4096 \<le> n" "start + n \<le> VM_HOST_BASE" "VM_HOST_BASE < z_root_at s z"
    "pend (z_root_at s z) ys + 4096 \<le> start \<or> VM_HOST_BASE < pend (z_root_at s z) ys"
    "zs \<noteq> [] \<Longrightarrow> fst (hd zs) < VM_HOST_BASE"
    "\<And>a. a \<in> free_bytes ys \<Longrightarrow> a < start"
    "\<And>a. a \<in> free_bytes zs \<Longrightarrow> fst (hd zs) \<le> a \<and> a < VM_HOST_BASE"
    "pend (z_root_at s z) ys \<in> insert (z_root_at s z) (free_bytes ys)"
    "\<And>i. zs \<noteq> [] \<Longrightarrow> i < 16 \<Longrightarrow> fst (hd zs) + i \<in> free_bytes zs"
proof -
  let ?l = "z_root_at s z"
  have f: "franges (MZONE_MIN z) (MZONE_MAX z + 1) (ys @ zs)" and c: "plist s ?l (ys @ zs)"
    using ok by (simp_all add: zone_ok_def)
  have hb: "MZONE_MAX z + 1 \<le> VM_HOST_BASE" using zone_max_below_host [OF z] by simp
  show "mem s (pend ?l ys) = (if zs = [] then PAGE_ERROR else fst (hd zs))"
    using c by (simp add: plist_append plist_head)
  show "4096 \<le> n" using al by (auto dest: dvd_imp_le)
  show "start + n \<le> VM_HOST_BASE" using hi hb by simp
  show r: "VM_HOST_BASE < ?l" using host by (simp add: z_root_at_def)
  show "pend ?l ys + 4096 \<le> start \<or> VM_HOST_BASE < pend ?l ys"
  proof (cases "ys = []")
    case False
    then obtain sz at where m: "(pend ?l ys, sz, at) \<in> set ys" by (rule pend_mem)
    then have "4096 \<le> sz" using franges_member [OF f, of "pend ?l ys" sz at] by (auto dest: dvd_imp_le)
    moreover have "pend ?l ys + sz \<le> start" using before m by blast
    ultimately show ?thesis by linarith
  qed (use r in simp)
  show "fst (hd zs) < VM_HOST_BASE" if ne: "zs \<noteq> []"
  proof -
    obtain sz at where "(fst (hd zs), sz, at) \<in> set zs" by (rule hd_mem [OF ne])
    then show ?thesis using franges_member [OF f, of "fst (hd zs)" sz at] hb by auto
  qed
  show "pend ?l ys \<in> insert ?l (free_bytes ys)"
    using pend_cases [of "MZONE_MIN z" "MZONE_MAX z + 1" ys ?l] f by (auto simp: franges_append)
  show "fst (hd zs) + i \<in> free_bytes zs" if ne: "zs \<noteq> []" "i < 16" for i
    by (rule hd_ctl_bytes [OF f ne])
  show "a < start" if "a \<in> free_bytes ys" for a
    using that before by (fastforce simp: free_bytes_def rset_def)
  show "fst (hd zs) \<le> a \<and> a < VM_HOST_BASE" if a: "a \<in> free_bytes zs" for a
  proof -
    obtain q tz bt zs' where zs: "zs = (q, tz, bt) # zs'" using a by (cases zs) auto
    have "franges q (MZONE_MAX z + 1) zs"
      using f unfolding zs by (auto simp: franges_append)
    then show ?thesis using free_bytes_bounds a hb zs by fastforce
  qed
qed

lemma ff_insert_mem:
  assumes "l + 4096 \<le> start \<or> VM_HOST_BASE < l" and "start + n \<le> VM_HOST_BASE" and "4096 \<le> n"
    and "iter \<noteq> PAGE_ERROR \<longrightarrow> start + n \<le> iter \<and> iter < VM_HOST_BASE" and "t = ff_insert start l iter n attr s"
  shows "mem t start = iter" "mem t (start + 4) = l" "mem t (start + 8) = n" "mem t (start + 12) = attr"
    "mem t l = start" "iter \<noteq> PAGE_ERROR \<Longrightarrow> mem t (iter + 4) = start" "page_zones t = page_zones s"
    "\<And>a. a < start \<or> start + 16 \<le> a \<Longrightarrow> a \<noteq> l \<Longrightarrow> (iter \<noteq> PAGE_ERROR \<longrightarrow> a \<noteq> iter + 4) \<Longrightarrow> mem t a = mem s a"
  using assms by (auto simp: ff_insert_def Let_def page_set_defs)

lemma ff_insert_ok:
  assumes ok: "zone_ok s z (ys @ zs)" and z: "z < MZONE_REAL_COUNT"
    and host: "VM_HOST_BASE \<le> page_zones s"
    and before: "\<forall>p sz at. (p, sz, at) \<in> set ys \<longrightarrow> p + sz < start"
    and after: "zs \<noteq> [] \<longrightarrow> start + n < fst (hd zs)"
    and al: "4096 dvd start" "4096 dvd n" "0 < n" and lo: "MZONE_MIN z \<le> start"
    and hi: "start + n \<le> MZONE_MAX z + 1"
    and zero: "zero_attr attr \<longrightarrow> zeroed s start n"
    and t: "t = ff_insert start (pend (z_root_at s z) ys) (mem s (pend (z_root_at s z) ys)) n attr s"
  shows "zone_ok t z (ys @ (start, n, attr) # zs)"
    and "same_outside (insert (z_root_at s z) (free_bytes (ys @ zs) \<union> {start ..< start + n})) s t"
proof -
  let ?l = "pend (z_root_at s z) ys"
  have f: "franges (MZONE_MIN z) (MZONE_MAX z + 1) (ys @ zs)" using ok by (simp add: zone_ok_def)
  have b': "\<forall>p sz at. (p, sz, at) \<in> set ys \<longrightarrow> p + sz \<le> start"
    and a': "zs \<noteq> [] \<longrightarrow> start + n \<le> fst (hd zs)" using before after by fastforce+
  note g = zone_gap [OF ok z host b' a' al(2,3) hi]
  have it: "mem s ?l \<noteq> PAGE_ERROR \<longrightarrow> start + n \<le> mem s ?l \<and> mem s ?l < VM_HOST_BASE"
    using g(1,6) a' by (auto split: if_splits)
  note m = ff_insert_mem [OF g(5,3,2) it t]
  have zs: "zs \<noteq> [] \<Longrightarrow> mem s ?l = fst (hd zs) \<and> mem s ?l \<noteq> PAGE_ERROR" using g(1,6) by auto
  show "zone_ok t z (ys @ (start, n, attr) # zs)"
  proof (rule zone_splice1 [where old = "[]" and s = s])
    show "zone_ok s z (ys @ [] @ zs)" using ok by simp
    show "mem t start = mem s (pend (z_root_at s z) (ys @ []))" using m(1) by simp
    show "mem t a = mem s a" if "a = z_root_at s z \<or> a \<in> free_bytes ys \<or> a \<in> free_bytes zs" "a \<noteq> ?l"
      "zs \<noteq> [] \<Longrightarrow> a \<noteq> fst (hd zs) + 4" for a
    proof (rule m(8) [OF _ that(2)])
      show "a < start \<or> start + 16 \<le> a"
        using that(1) g(2,3,4) g(7) [of a] g(8) [of a] a' by (cases "zs = []") auto
      show "mem s ?l \<noteq> PAGE_ERROR \<longrightarrow> a \<noteq> mem s ?l + 4" using that(3) g(1) by auto
    qed
    show "mem t (fst (hd zs) + 4) = start" if "zs \<noteq> []" using m(6) zs that by auto
    show "franges (MZONE_MIN z) (MZONE_MAX z + 1) (ys @ (start, n, attr) # zs)"
    proof -
      have "last ys \<in> set ys" if "ys \<noteq> []" using that by simp
      then have "fst (last ys) + fst (snd (last ys)) < start" if "ys \<noteq> []"
        using before that by (metis prod.collapse)
      moreover have "franges (start + n + 1) (MZONE_MAX z + 1) zs"
        using f after by (cases zs) (auto simp: franges_append)
      ultimately show ?thesis using f al lo hi by (simp add: franges_append Suc_le_eq)
    qed
    show "mem t a = 0" if "zero_attr attr" "4 dvd a" "start + 16 \<le> a" "a < start + n" for a
    proof -
      have "mem t a = mem s a" by (rule m(8)) (use that g(5,3) it in auto)
      then show ?thesis using zeroedD [OF zero, of a] that by simp
    qed
  qed (use m z host in simp_all)
  show "same_outside (insert (z_root_at s z) (free_bytes (ys @ zs) \<union> {start ..< start + n})) s t"
    unfolding same_outside_def
  proof (intro conjI allI impI m(7))
    fix a assume a: "a \<notin> insert (z_root_at s z) (free_bytes (ys @ zs) \<union> {start ..< start + n})"
    show "mem t a = mem s a"
      by (rule m(8)) (use a g(1,2,9) g(10) [of 4] in auto)
  qed
qed


lemma mem_clear_ctl [simp]:
  "mem (clear_ctl p s) a = (if a \<in> {p, p + 4, p + 8, p + 12} then 0 else mem s a)"
  "page_zones (clear_ctl p s) = page_zones s"
  by (simp_all add: clear_ctl_def page_set_defs)

lemma mem_clear_if_zero:
  "mem (clear_if_zero p q s) a =
     (if zero_attr (mem s (p + 12)) \<and> a \<in> {q, q + 4, q + 8, q + 12} then 0 else mem s a)"
  "page_zones (clear_if_zero p q s) = page_zones s"
  by (simp_all add: clear_if_zero_def p_attr_def)

lemma mem_relink_next:
  "mem (relink_next p s) a = (if mem s p \<noteq> PAGE_ERROR \<and> a = mem s p + 4 then p else mem s a)"
  "page_zones (relink_next p s) = page_zones s"
  by (simp_all add: relink_next_def p_next_def set_p_self_def)

lemma ff_merge_next_mem:
  assumes l: "l + 4096 \<le> start \<or> VM_HOST_BASE < l" and q: "q + tz \<le> VM_HOST_BASE" "4096 \<le> n"
    "q = start + n" "4096 \<le> tz" and ctl: "mem s (q + 4) = l" "mem s (q + 8) = tz" "mem s (q + 12) = bt"
    and nx: "mem s q \<noteq> PAGE_ERROR \<longrightarrow> q + tz \<le> mem s q \<and> mem s q < VM_HOST_BASE"
    and t: "t = ff_merge_next start q n attr s"
  shows "mem t start = mem s q" "mem t (start + 4) = l" "mem t (start + 8) = tz + n"
    "mem t (start + 12) = (bt AND attr)" "mem t l = start"
    "mem s q \<noteq> PAGE_ERROR \<Longrightarrow> mem t (mem s q + 4) = start" "page_zones t = page_zones s"
    "\<And>a. a < start \<or> start + 16 \<le> a \<Longrightarrow> a \<noteq> l \<Longrightarrow> (mem s q \<noteq> PAGE_ERROR \<longrightarrow> a \<noteq> mem s q + 4) \<Longrightarrow>
      mem t a = (if zero_attr bt \<and> zero_attr attr \<and> a \<in> {q, q + 4, q + 8, q + 12} then 0 else mem s a)"
proof -
  define s1 where "s1 = copy_ctl start q s"
  define s2 where "s2 = set_p_size start (p_size s1 start + n) s1"
  define s3 where "s3 = set_p_attr start (p_attr s2 start AND attr) s2"
  define s4 where "s4 = clear_if_zero start q s3"
  define s5 where "s5 = relink_next start s4"
  have qs: "start + 4096 \<le> q" "mem s q \<noteq> PAGE_ERROR \<longrightarrow> q + 4096 \<le> mem s q" using q nx by auto
  have m1: "mem s1 a = (if a = start then mem s q else if a = start + 4 then l else if a = start + 8 then tz
      else if a = start + 12 then bt else mem s a)" for a
    using ctl by (simp add: s1_def copy_ctl_def page_set_defs page_get_defs)
  have m3: "mem s3 a = (if a = start then mem s q else if a = start + 4 then l else if a = start + 8 then tz + n
      else if a = start + 12 then bt AND attr else mem s a)" for a
    by (simp add: s3_def s2_def page_set_defs page_get_defs m1)
  have m4: "mem s4 a = (if zero_attr (bt AND attr) \<and> a \<in> {q, q + 4, q + 8, q + 12} then 0 else mem s3 a)" for a
    unfolding s4_def mem_clear_if_zero m3 [of "start + 12"] by simp
  have v4: "mem s4 start = mem s q" "mem s4 (start + 4) = l" unfolding m4 m3 using qs(1) by auto
  have m5: "mem s5 a = (if mem s q \<noteq> PAGE_ERROR \<and> a = mem s q + 4 then start else mem s4 a)" for a
    unfolding s5_def mem_relink_next v4 ..
  have v5: "mem s5 (start + 4) = l" unfolding m5 v4 using qs by auto
  have tm: "mem t a = (if a = l then start else mem s5 a)" for a
    unfolding t ff_merge_next_def Let_def s1_def [symmetric] s2_def [symmetric] s3_def [symmetric]
      s4_def [symmetric] s5_def [symmetric] p_self_def v5 by simp
  show "mem t start = mem s q" "mem t (start + 4) = l" "mem t (start + 8) = tz + n"
    "mem t (start + 12) = (bt AND attr)" "mem t l = start"
    unfolding tm m5 m4 m3 using qs l q by auto
  show "mem s q \<noteq> PAGE_ERROR \<Longrightarrow> mem t (mem s q + 4) = start" unfolding tm m5 by simp
  show "page_zones t = page_zones s"
    unfolding t ff_merge_next_def by (simp add: Let_def mem_relink_next mem_clear_if_zero copy_ctl_def page_set_defs)
  show "mem t a = (if zero_attr bt \<and> zero_attr attr \<and> a \<in> {q, q + 4, q + 8, q + 12} then 0 else mem s a)"
    if "a < start \<or> start + 16 \<le> a" "a \<noteq> l" "mem s q \<noteq> PAGE_ERROR \<longrightarrow> a \<noteq> mem s q + 4" for a
  proof -
    have "a \<noteq> start" "a \<noteq> start + 4" "a \<noteq> start + 8" "a \<noteq> start + 12" using that(1) by linarith+
    moreover have nl: "\<not> (mem s q \<noteq> PAGE_ERROR \<and> a = mem s q + 4)" using that(3) by blast
    ultimately show ?thesis
      unfolding tm if_not_P [OF that(2)] m5 if_not_P [OF nl] m4 m3 by auto
  qed
qed

lemma ff_extend_mem:
  assumes "p + sz = start" and "4096 \<le> sz" and "mem s (p + 8) = sz" "mem s (p + 12) = at"
    and "start + n \<noteq> iter" and "t = ff_extend p iter n attr s"
  shows "mem t (p + 8) = sz + n" "mem t (p + 12) = (at AND attr)" "page_zones t = page_zones s"
    "\<And>a. a \<noteq> p + 8 \<Longrightarrow> a \<noteq> p + 12 \<Longrightarrow> mem t a = mem s a"
  using assms by (auto simp: ff_extend_def Let_def page_set_defs page_get_defs PAGE_END_def)

lemma ff_swallow_mem:
  assumes p: "mem s (p + 8) = sz" "mem s (p + 12) = at" and q: "p + 8192 \<le> q"
    and ctl: "mem s (q + 8) = tz" "mem s (q + 12) = bt" and nx: "mem s q \<noteq> PAGE_ERROR \<longrightarrow> q + 4096 \<le> mem s q"
    and t: "t = ff_swallow p q s"
  shows "mem t p = mem s q" "mem t (p + 4) = mem s (p + 4)" "mem t (p + 8) = sz + tz"
    "mem t (p + 12) = (at AND bt)"
    "mem s q \<noteq> PAGE_ERROR \<Longrightarrow> mem t (mem s q + 4) = p" "page_zones t = page_zones s"
    "\<And>a. a < p \<or> p + 16 \<le> a \<Longrightarrow> (mem s q \<noteq> PAGE_ERROR \<longrightarrow> a \<noteq> mem s q + 4) \<Longrightarrow>
      mem t a = (if zero_attr at \<and> zero_attr bt \<and> a \<in> {q, q + 4, q + 8, q + 12} then 0 else mem s a)"
proof -
  define s1 where "s1 = set_p_attr p (p_attr s p AND p_attr s q) s"
  define s2 where "s2 = set_p_size p (p_size s1 p + p_size s1 q) s1"
  define s3 where "s3 = set_p_next p (p_next s2 q) s2"
  define s4 where "s4 = relink_next p s3"
  have m1: "mem s1 a = (if a = p + 12 then at AND bt else mem s a)" for a
    using p ctl by (simp add: s1_def page_set_defs page_get_defs)
  have m2: "mem s2 a = (if a = p + 8 then sz + tz else mem s1 a)" for a
    using p ctl q by (simp add: s2_def page_set_defs page_get_defs m1)
  have m3: "mem s3 a = (if a = p then mem s q else mem s2 a)" for a
    using q by (simp add: s3_def page_set_defs page_get_defs m1 m2)
  have m4: "mem s4 a = (if mem s q \<noteq> PAGE_ERROR \<and> a = mem s q + 4 then p else mem s3 a)" for a
    unfolding s4_def mem_relink_next by (simp add: m3)
  have v4: "mem s4 (p + 12) = (at AND bt)" unfolding m4 m3 m2 m1 using q nx by auto
  have tm: "mem t a = (if zero_attr (at AND bt) \<and> a \<in> {q, q + 4, q + 8, q + 12} then 0 else mem s4 a)" for a
    unfolding t ff_swallow_def Let_def s1_def [symmetric] s2_def [symmetric] s3_def [symmetric]
      s4_def [symmetric] mem_clear_if_zero v4 ..
  show "mem t p = mem s q" "mem t (p + 4) = mem s (p + 4)" "mem t (p + 8) = sz + tz"
    "mem t (p + 12) = (at AND bt)" unfolding tm m4 m3 m2 m1 using q nx by auto
  show "mem s q \<noteq> PAGE_ERROR \<Longrightarrow> mem t (mem s q + 4) = p" unfolding tm m4 using q nx by auto
  show "page_zones t = page_zones s"
    unfolding t ff_swallow_def by (simp add: Let_def mem_relink_next mem_clear_if_zero page_set_defs)
  show "mem t a = (if zero_attr at \<and> zero_attr bt \<and> a \<in> {q, q + 4, q + 8, q + 12} then 0 else mem s a)"
    if "a < p \<or> p + 16 \<le> a" "mem s q \<noteq> PAGE_ERROR \<longrightarrow> a \<noteq> mem s q + 4" for a
  proof -
    have "a \<noteq> p" "a \<noteq> p + 8" "a \<noteq> p + 12" using that(1) by linarith+
    moreover have nl: "\<not> (mem s q \<noteq> PAGE_ERROR \<and> a = mem s q + 4)" using that(2) by blast
    ultimately show ?thesis unfolding tm m4 if_not_P [OF nl] m3 m2 m1 by auto
  qed
qed


lemma zone_mid_next:
  assumes ok: "zone_ok s z (ys @ (bp, bs, at) # zs)" and z: "z < MZONE_REAL_COUNT"
    and host: "VM_HOST_BASE \<le> page_zones s"
  shows "mem s bp \<noteq> PAGE_ERROR \<longrightarrow> bp + bs \<le> mem s bp \<and> mem s bp < VM_HOST_BASE"
    "zs \<noteq> [] \<Longrightarrow> mem s bp = fst (hd zs) \<and> mem s bp \<noteq> PAGE_ERROR"
  using zone_mid(5,11,12) [OF ok z host] by (auto split: if_splits)

lemma ff_merge_next_ok:
  assumes ok: "zone_ok s z (ys @ (q, tz, bt) # zs)" and z: "z < MZONE_REAL_COUNT"
    and host: "VM_HOST_BASE \<le> page_zones s"
    and before: "\<forall>p sz at. (p, sz, at) \<in> set ys \<longrightarrow> p + sz < start" and q: "q = start + n"
    and al: "4096 dvd start" "4096 dvd n" "0 < n" and lo: "MZONE_MIN z \<le> start"
    and zero: "zero_attr attr \<longrightarrow> zeroed s start n"
    and t: "t = ff_merge_next start q n attr s"
  shows "zone_ok t z (ys @ (start, tz + n, bt AND attr) # zs)"
    and "same_outside (insert (z_root_at s z) (free_bytes (ys @ (q, tz, bt) # zs) \<union> {start ..< start + n})) s t"
proof -
  let ?l = "pend (z_root_at s z) ys"
  note mid = zone_mid [OF ok z host] and nx = zone_mid_next [OF ok z host]
  have f: "franges (MZONE_MIN z) (MZONE_MAX z + 1) (ys @ (q, tz, bt) # zs)" using ok by (simp add: zone_ok_def)
  have b': "\<forall>p sz at. (p, sz, at) \<in> set ys \<longrightarrow> p + sz \<le> start" using before by fastforce
  have hi: "start + n \<le> MZONE_MAX z + 1" using franges_member [OF f, of q tz bt] q by simp
  have a': "(q, tz, bt) # zs \<noteq> [] \<longrightarrow> start + n \<le> fst (hd ((q, tz, bt) # zs))" using q by simp
  note g = zone_gap [OF ok z host b' a' al(2,3) hi]
  note m = ff_merge_next_mem [OF g(5) mid(9) g(2) q mid(6) _ _ _ nx(1) t, of bt,
      OF mid(1) [unfolded p_self_def] mid(2) [unfolded p_size_def] mid(3) [unfolded p_attr_def]]
  have sz: "4096 \<le> n" by (rule g)
  show "zone_ok t z (ys @ (start, tz + n, bt AND attr) # zs)"
  proof (rule zone_splice1 [where old = "[(q, tz, bt)]" and s = s])
    show "zone_ok s z (ys @ [(q, tz, bt)] @ zs)" using ok by simp
    show "mem t start = mem s (pend (z_root_at s z) (ys @ [(q, tz, bt)]))" using m(1) by simp
    show "mem t a = mem s a" if a: "a = z_root_at s z \<or> a \<in> free_bytes ys \<or> a \<in> free_bytes zs" "a \<noteq> ?l"
      "zs \<noteq> [] \<Longrightarrow> a \<noteq> fst (hd zs) + 4" for a
    proof -
      have "a < q \<or> q + tz \<le> a" by (rule mid(14) [OF a(1)])
      then have "a \<notin> {q, q + 4, q + 8, q + 12}" using mid(6) by auto
      moreover have "a < start \<or> start + 16 \<le> a"
        using a(1) g(3,4) g(7) [of a] g(8) [of a] sz q by auto
      moreover have "mem s q \<noteq> PAGE_ERROR \<longrightarrow> a \<noteq> mem s q + 4" using a(3) mid(5) by auto
      ultimately show ?thesis using m(8) [OF _ a(2)] by simp
    qed
    show "mem t (fst (hd zs) + 4) = start" if "zs \<noteq> []" using m(6) nx(2) [OF that] by simp
    show "franges (MZONE_MIN z) (MZONE_MAX z + 1) (ys @ (start, tz + n, bt AND attr) # zs)"
    proof -
      have "fst (last ys) + fst (snd (last ys)) < start" if "ys \<noteq> []"
        using before that by (metis prod.collapse last_in_set)
      then show ?thesis using f al lo q by (simp add: franges_append Suc_le_eq add.assoc add.commute [of n tz])
    qed
    show "mem t a = 0" if "zero_attr (bt AND attr)" "4 dvd a" "start + 16 \<le> a" "a < start + (tz + n)" for a
    proof -
      have ne: "a \<noteq> ?l" "mem s q \<noteq> PAGE_ERROR \<longrightarrow> a \<noteq> mem s q + 4" using that g(5) mid(9) nx(1) q by auto
      have e: "mem t a = (if a \<in> {q, q + 4, q + 8, q + 12} then 0 else mem s a)"
        using m(8) [OF _ ne] that by auto
      show ?thesis
      proof (cases "a < q")
        case True
        then show ?thesis using e zeroedD [OF zero, of a] that q by auto
      next
        case False
        then show ?thesis
          using e ctl_cells [OF that(2) mid(7)] mid(15) that q by (cases "a < q + 16") (auto simp: zero_range_def)
      qed
    qed
  qed (use m z host in simp_all)
  show "same_outside (insert (z_root_at s z) (free_bytes (ys @ (q, tz, bt) # zs) \<union> {start ..< start + n})) s t"
    unfolding same_outside_def
  proof (intro conjI allI impI m(7))
    fix a assume a: "a \<notin> insert (z_root_at s z) (free_bytes (ys @ (q, tz, bt) # zs) \<union> {start ..< start + n})"
    have "a \<notin> {q, q + 4, q + 8, q + 12}" using a mid(6) by auto
    moreover have "mem s q \<noteq> PAGE_ERROR \<longrightarrow> a \<noteq> mem s q + 4"
      using a mid(5) hd_ctl_bytes [of _ _ "ys @ [(q, tz, bt)]" zs 4] f by auto
    moreover have "a \<noteq> ?l" using a g(9) by auto
    moreover have "a < start \<or> start + 16 \<le> a" using a sz by auto
    ultimately show "mem t a = mem s a" using m(8) [of a] by simp
  qed
qed


lemma ff_extend_ok:
  assumes ok: "zone_ok s z (ys @ (p, sz, at) # zs)" and z: "z < MZONE_REAL_COUNT"
    and host: "VM_HOST_BASE \<le> page_zones s" and p: "p + sz = start"
    and after: "zs \<noteq> [] \<longrightarrow> start + n < fst (hd zs)" and al: "4096 dvd n"
    and hi: "start + n \<le> MZONE_MAX z + 1"
    and zero: "zero_attr attr \<longrightarrow> zeroed s start n"
    and t: "t = ff_extend p (mem s p) n attr s"
  shows "zone_ok t z (ys @ (p, sz + n, at AND attr) # zs)"
    and "same_outside (free_bytes (ys @ (p, sz, at) # zs)) s t"
proof -
  let ?l = "pend (z_root_at s z) ys"
  note mid = zone_mid [OF ok z host]
  have f: "franges (MZONE_MIN z) (MZONE_MAX z + 1) (ys @ (p, sz, at) # zs)" using ok by (simp add: zone_ok_def)
  have ne: "start + n \<noteq> mem s p"
    using mid(5) after hi zone_max_below_host [OF z] by (auto split: if_splits)
  note m = ff_extend_mem [OF p mid(6) mid(2) [unfolded p_size_def] mid(3) [unfolded p_attr_def] ne t]
  show "zone_ok t z (ys @ (p, sz + n, at AND attr) # zs)"
  proof (rule zone_splice1 [where old = "[(p, sz, at)]" and s = s])
    show "zone_ok s z (ys @ [(p, sz, at)] @ zs)" using ok by simp
    show "mem t a = mem s a" if a: "a = z_root_at s z \<or> a \<in> free_bytes ys \<or> a \<in> free_bytes zs" for a
      by (rule m(4)) (use mid(14) [OF a] mid(6) in auto)
    have "mem t ?l = mem s ?l" by (rule m(4)) (use mid(10) mid(6) in auto)
    then show "mem t ?l = p" using mid(4) by simp
    show "mem t (p + 4) = ?l" using m(4) [of "p + 4"] mid(1) by (simp add: p_self_def)
    show "mem t p = mem s (pend (z_root_at s z) (ys @ [(p, sz, at)]))" using m(4) [of p] by simp
    show "mem t (fst (hd zs) + 4) = p" if "zs \<noteq> []"
    proof -
      have "mem t (fst (hd zs) + 4) = mem s (fst (hd zs) + 4)"
        by (rule m(4)) (use mid(11) [OF that] mid(6) in auto)
      then show ?thesis using mid(13) [OF that] by (simp add: p_self_def)
    qed
    show "franges (MZONE_MIN z) (MZONE_MAX z + 1) (ys @ (p, sz + n, at AND attr) # zs)"
    proof -
      have "franges (p + sz + n + 1) (MZONE_MAX z + 1) zs"
        using f after p by (cases zs) (auto simp: franges_append)
      then show ?thesis using f al hi by (simp add: franges_append add.assoc p [symmetric])
    qed
    show "mem t a = 0" if "zero_attr (at AND attr)" "4 dvd a" "p + 16 \<le> a" "a < p + (sz + n)" for a
      using m(4) [of a] that mid(15) zeroedD [OF zero, of a] p by (cases "a < start") (auto simp: zero_range_def)
  qed (use m z host in simp_all)
  show "same_outside (free_bytes (ys @ (p, sz, at) # zs)) s t"
    unfolding same_outside_def using m(3,4) mid(6) by auto
qed

lemma ff_extend_both_ok:
  assumes ok: "zone_ok s z (ys @ (p, sz, at) # (q, tz, bt) # zs)" and z: "z < MZONE_REAL_COUNT"
    and host: "VM_HOST_BASE \<le> page_zones s" and p: "p + sz = start" and q: "q = start + n"
    and al: "4096 dvd n" "0 < n"
    and zero: "zero_attr attr \<longrightarrow> zeroed s start n"
    and t: "t = ff_extend p q n attr s"
  shows "zone_ok t z (ys @ (p, sz + n + tz, (at AND attr) AND bt) # zs)"
    and "same_outside (free_bytes (ys @ (p, sz, at) # (q, tz, bt) # zs)) s t"
proof -
  let ?l = "pend (z_root_at s z) ys"
  have ok2: "zone_ok s z ((ys @ [(p, sz, at)]) @ (q, tz, bt) # zs)" using ok by simp
  note mid = zone_mid [OF ok z host] and mid2 = zone_mid [OF ok2 z host] and nx = zone_mid_next [OF ok2 z host]
  have f: "franges (MZONE_MIN z) (MZONE_MAX z + 1) (ys @ (p, sz, at) # (q, tz, bt) # zs)"
    using ok by (simp add: zone_ok_def)
  have n: "4096 \<le> n" using al by (auto dest: dvd_imp_le)
  define s2 where "s2 = put (p + 12) (at AND attr) (put (p + 8) (sz + n) s)"
  have pq: "p + 8192 \<le> q" using p q n mid(6) by simp
  have m2: "mem s2 a = (if a = p + 12 then at AND attr else if a = p + 8 then sz + n else mem s a)" for a
    by (simp add: s2_def)
  have nq: "mem s2 q = mem s q" "mem s2 (q + 8) = tz" "mem s2 (q + 12) = bt"
    using pq mid2(2,3) by (auto simp: m2 p_size_def p_attr_def)
  have t2: "t = ff_swallow p q s2"
    using mid(2,3) p q unfolding t ff_extend_def
    by (simp add: Let_def page_set_defs page_get_defs PAGE_END_def s2_def)
  have nx2: "mem s2 q \<noteq> PAGE_ERROR \<longrightarrow> q + 4096 \<le> mem s2 q" using nx(1) nq(1) mid2(6) by auto
  note m = ff_swallow_mem [OF _ _ pq nq(2,3) nx2 t2, of "sz + n" "at AND attr"]
  have m1: "mem s2 (p + 8) = sz + n" "mem s2 (p + 12) = (at AND attr)" by (simp_all add: m2)
  note m = m [OF m1, unfolded nq(1)]
  have out: "mem t a = (if zero_attr (at AND attr) \<and> zero_attr bt \<and> a \<in> {q, q + 4, q + 8, q + 12} then 0 else mem s a)"
    if "a < p \<or> p + 16 \<le> a" "mem s q \<noteq> PAGE_ERROR \<longrightarrow> a \<noteq> mem s q + 4" for a
    using m(7) [OF that] m2 [of a] that(1) by auto
  show "zone_ok t z (ys @ (p, sz + n + tz, (at AND attr) AND bt) # zs)"
  proof (rule zone_splice1 [where old = "[(p, sz, at), (q, tz, bt)]" and s = s])
    show "zone_ok s z (ys @ [(p, sz, at), (q, tz, bt)] @ zs)" using ok by simp
    show "mem t a = mem s a" if a: "a = z_root_at s z \<or> a \<in> free_bytes ys \<or> a \<in> free_bytes zs"
      "zs \<noteq> [] \<Longrightarrow> a \<noteq> fst (hd zs) + 4" for a
    proof -
      have a1: "a < p \<or> p + sz \<le> a" using mid(14) [of a] a(1) by auto
      have a2: "a < q \<or> q + tz \<le> a" using mid2(14) [of a] a(1) by auto
      have "mem s q \<noteq> PAGE_ERROR \<longrightarrow> a \<noteq> mem s q + 4" using a(2) mid2(5) by auto
      moreover have "a \<notin> {q, q + 4, q + 8, q + 12}" using a2 mid2(6) by auto
      ultimately show ?thesis using out [of a] a1 mid(6) by auto
    qed
    have pl: "?l = z_root_at s z \<or> ?l \<in> free_bytes ys"
      using pend_cases [of "MZONE_MIN z" "MZONE_MAX z + 1" ys] f by (auto simp: franges_append)
    then have "?l < q \<or> q + tz \<le> ?l" using mid2(14) [of ?l] by auto
    moreover have "?l \<noteq> fst (hd zs) + 4" if ne: "zs \<noteq> []"
    proof -
      have h: "fst (hd zs) + 4 \<in> free_bytes zs"
        using hd_ctl_bytes [of _ _ "ys @ [(p, sz, at), (q, tz, bt)]" zs 4] f ne by auto
      moreover have "free_bytes ys \<inter> free_bytes zs = {}" using free_bytes_disjoint [OF f] by auto
      moreover have "z_root_at s z \<notin> free_bytes zs"
        using free_bytes_bounds [OF f] host zone_max_below_host [OF z] by (auto simp: z_root_at_def)
      ultimately show ?thesis using pl by auto
    qed
    ultimately have "mem t ?l = mem s ?l" using out [of ?l] mid(6,10) mid2(5,6) by auto
    then show "mem t ?l = p" using mid(4) by simp
    show "mem t (p + 4) = ?l" using m(2) m2 [of "p + 4"] mid(1) by (simp add: p_self_def)
    show "mem t p = mem s (pend (z_root_at s z) (ys @ [(p, sz, at), (q, tz, bt)]))" using m(1) by simp
    show "mem t (fst (hd zs) + 4) = p" if "zs \<noteq> []" using m(5) nx(2) [OF that] by simp
    show "franges (MZONE_MIN z) (MZONE_MAX z + 1) (ys @ (p, sz + n + tz, (at AND attr) AND bt) # zs)"
      using f al by (simp add: franges_append add.assoc q p [symmetric])
    show "mem t a = 0" if a: "zero_attr ((at AND attr) AND bt)" "4 dvd a" "p + 16 \<le> a" "a < p + (sz + n + tz)" for a
    proof -
      have "mem s q \<noteq> PAGE_ERROR \<longrightarrow> a \<noteq> mem s q + 4" using nx(1) a(4) p q by auto
      then have e: "mem t a = (if a \<in> {q, q + 4, q + 8, q + 12} then 0 else mem s a)"
        using out [of a] a by auto
      consider "a < start" | "start \<le> a" "a < q" | "q \<le> a" "a < q + 16" | "q + 16 \<le> a" by linarith
      then show ?thesis
      proof cases
        case 1 then show ?thesis using e mid(15) a p by (auto simp: zero_range_def)
      next
        case 2 then show ?thesis using e zeroedD [OF zero, of a] a q by auto
      next
        case 3 then show ?thesis using e ctl_cells [OF a(2) mid2(7)] by auto
      next
        case 4 then show ?thesis using e mid2(15) a p q by (auto simp: zero_range_def)
      qed
    qed
  qed (use m z host in \<open>simp_all add: s2_def\<close>)
  show "same_outside (free_bytes (ys @ (p, sz, at) # (q, tz, bt) # zs)) s t"
    unfolding same_outside_def
  proof (intro conjI allI impI)
    fix a assume a: "a \<notin> free_bytes (ys @ (p, sz, at) # (q, tz, bt) # zs)"
    have "mem s q \<noteq> PAGE_ERROR \<longrightarrow> a \<noteq> mem s q + 4"
      using a mid2(5) hd_ctl_bytes [of _ _ "ys @ [(p, sz, at), (q, tz, bt)]" zs 4] f by auto
    moreover have "a \<notin> {q, q + 4, q + 8, q + 12}" "a < p \<or> p + 16 \<le> a" using a mid(6) mid2(6) by auto
    ultimately show "mem t a = mem s a" using out [of a] by simp
  qed (use m(6) in \<open>simp add: s2_def\<close>)
qed


lemma franges_last:
  "franges lo hi ys \<Longrightarrow> (p, sz, at) \<in> set ys \<Longrightarrow> p + sz \<le> fst (last ys) + fst (snd (last ys))"
proof (induction lo hi ys rule: franges.induct)
  case (2 lo hi q tz bt xs)
  then show ?case
    using franges_member [of "q + tz + 1" hi xs "fst (last xs)" "fst (snd (last xs))" "snd (snd (last xs))"]
    by (auto split: if_splits)
qed simp

lemma freed_zoneI:
  "zone_ok t z xs \<Longrightarrow> same_outside A s t \<Longrightarrow> free_bytes xs = B \<Longrightarrow> A \<subseteq> insert r B \<Longrightarrow>
    \<exists>xs. zone_ok t z xs \<and> free_bytes xs = B \<and> same_outside (insert r B) s t"
  by (auto elim: same_outside_mono)

lemma ff_link_ok:
  assumes ok: "zone_ok s z (ys @ zs)" and z: "z < MZONE_REAL_COUNT"
    and host: "VM_HOST_BASE \<le> page_zones s"
    and before: "\<forall>p sz at. (p, sz, at) \<in> set ys \<longrightarrow> p + sz \<le> start"
    and after: "zs \<noteq> [] \<longrightarrow> start + n \<le> fst (hd zs)"
    and al: "4096 dvd start" "4096 dvd n" "0 < n" and lo: "MZONE_MIN z \<le> start"
    and hi: "start + n \<le> MZONE_MAX z + 1"
    and zero: "zero_attr attr \<longrightarrow> zeroed s start n"
    and t: "t = ff_link z (pend (z_root_at s z) ys) start n attr s"
  shows "\<exists>xs. zone_ok t z xs \<and> free_bytes xs = free_bytes (ys @ zs) \<union> {start ..< start + n} \<and>
    same_outside (insert (z_root_at s z) (free_bytes (ys @ zs) \<union> {start ..< start + n})) s t"
proof -
  let ?l = "pend (z_root_at s z) ys"
  note g = zone_gap [OF ok z host before after al(2,3) hi]
  have f: "franges (MZONE_MIN z) (MZONE_MAX z + 1) (ys @ zs)" using ok by (simp add: zone_ok_def)
  then have fy: "franges (MZONE_MIN z) (MZONE_MAX z + 1) ys" by (simp add: franges_append)
  consider (prev) ys' p sz at where "ys = ys' @ [(p, sz, at)]" "p + sz = start"
    | (gap) "\<forall>p sz at. (p, sz, at) \<in> set ys \<longrightarrow> p + sz < start"
  proof (cases "ys \<noteq> [] \<and> fst (last ys) + fst (snd (last ys)) = start")
    case True
    then have "ys = butlast ys @ [(fst (last ys), fst (snd (last ys)), snd (snd (last ys)))]" by simp
    then show ?thesis using prev True by blast
  next
    case False
    have "p + sz < start" if m: "(p, sz, at) \<in> set ys" for p sz at
    proof -
      have "fst (last ys) + fst (snd (last ys)) \<le> start"
        using before m last_in_set [of ys] by (metis empty_iff list.set(1) prod.collapse)
      then show ?thesis using franges_last [OF fy m] False m by force
    qed
    then show ?thesis using gap by blast
  qed
  then show ?thesis
  proof cases
    case prev
    have okp: "zone_ok s z (ys' @ (p, sz, at) # zs)" using ok prev by simp
    note mid = zone_mid [OF okp z host]
    have l: "?l = p" and pe: "PAGE_END s p = start" using prev mid(2) by (auto simp: PAGE_END_def)
    have "p \<noteq> z_root_at s z" using g(4) mid(9) by auto
    then have t': "t = ff_extend p (mem s p) n attr s" unfolding t ff_link_def l pe by (simp add: Let_def)
    show ?thesis
    proof (cases "zs \<noteq> [] \<and> fst (hd zs) = start + n")
      case True
      then obtain tz bt zs' where zs: "zs = (start + n, tz, bt) # zs'" by (cases zs) auto
      have "zone_ok s z (ys' @ (p, sz, at) # (start + n, tz, bt) # zs')" using okp zs by simp
      note e = ff_extend_both_ok [OF this z host prev(2) refl al(2,3) zero]
      have "t = ff_extend p (start + n) n attr s" using t' mid(5) zs by simp
      note e = e [OF this]
      show ?thesis by (rule freed_zoneI [OF e]) (use zs prev in auto)
    next
      case False
      then have "zs \<noteq> [] \<longrightarrow> start + n < fst (hd zs)" using after by auto
      note e = ff_extend_ok [OF okp z host prev(2) this al(2) hi zero t']
      show ?thesis by (rule freed_zoneI [OF e]) (use prev in auto)
    qed
  next
    case gap
    have nl: "\<not> (?l \<noteq> z_root_at s z \<and> PAGE_END s ?l = start)"
    proof (cases ys rule: rev_cases)
      case (snoc ys' r)
      obtain p sz at where r: "r = (p, sz, at)" by (cases r)
      have "zone_ok s z (ys' @ (p, sz, at) # zs)" using ok snoc r by simp
      from zone_mid(2) [OF this z host] show ?thesis using snoc r gap by (auto simp: PAGE_END_def)
    qed simp
    show ?thesis
    proof (cases "zs \<noteq> [] \<and> fst (hd zs) = start + n")
      case True
      then obtain tz bt zs' where zs: "zs = (start + n, tz, bt) # zs'" by (cases zs) auto
      have okn: "zone_ok s z (ys @ (start + n, tz, bt) # zs')" using ok zs by simp
      have "mem s ?l = start + n" "start + n \<noteq> PAGE_ERROR" using g(1,3) zs by simp_all
      then have "t = ff_merge_next start (start + n) n attr s" unfolding t ff_link_def Let_def if_not_P [OF nl] by simp
      note e = ff_merge_next_ok [OF okn z host gap refl al lo zero this]
      show ?thesis by (rule freed_zoneI [OF e]) (use zs in auto)
    next
      case False
      then have lt: "zs \<noteq> [] \<longrightarrow> start + n < fst (hd zs)" using after by auto
      have ni: "\<not> (mem s ?l \<noteq> PAGE_ERROR \<and> mem s ?l = start + n)" using False g(1) by auto
      have "t = ff_insert start ?l (mem s ?l) n attr s"
        unfolding t ff_link_def Let_def if_not_P [OF nl] if_not_P [OF ni] ..
      note e = ff_insert_ok [OF ok z host gap lt al lo hi zero this]
      show ?thesis by (rule freed_zoneI [OF e]) auto
    qed
  qed
qed

subsection \<open>What freeing guarantees\<close>

text \<open>
  \<open>page_freed s X y p m t\<close>: the step from \<open>s\<close> to \<open>t\<close> added exactly the \<open>m\<close> bytes at \<open>p\<close> to the free
  memory of zone \<open>y\<close> and wrote nothing outside that zone's free bytes, the freed bytes and the
  list head. (A well-formed list has a gap between neighbours, so ranges that touch were merged.)
\<close>

definition page_freed ::
  "pstate \<Rightarrow> (nat \<Rightarrow> frange list) \<Rightarrow> nat \<Rightarrow> nat \<Rightarrow> nat \<Rightarrow> pstate \<Rightarrow> bool" where
  "page_freed s X y p m t \<longleftrightarrow>
     (\<exists>xs. pwf t (X(y := xs)) \<and> free_bytes xs = free_bytes (X y) \<union> {p ..< p + m}) \<and>
     same_outside (insert (z_root_at s y) (free_bytes (X y) \<union> {p ..< p + m})) s t"

lemma ff_stats_simps [simp]:
  "mem (ff_stats z n s) = mem s" "page_zones (ff_stats z n s) = page_zones s"
  by (simp_all add: ff_stats_def)

lemma zone_ok_stats [simp]: "zone_ok (ff_stats y n s) z xs = zone_ok s z xs"
  using plist_cong [of "z_root_at s z" xs "ff_stats y n s" s] zero_ranges_cong [of xs "ff_stats y n s" s]
  by (simp add: zone_ok_def z_root_at_def)

lemma page_ffree_zone_ok:
  assumes wf: "pwf s X" and z: "z < MZONE_REAL_COUNT"
    and al: "4096 dvd start" "4096 dvd n" "0 < n" and lo: "MZONE_MIN z \<le> start"
    and hi: "start + n \<le> MZONE_MAX z + 1" and inuse: "{start ..< start + n} \<inter> free_bytes (X z) = {}"
    and zero: "zero_attr attr \<longrightarrow> zeroed s start n"
  shows "\<exists>t. page_ffree_zone s z start n attr = Some t \<and> page_freed s X z start n t"
proof -
  have host: "VM_HOST_BASE \<le> page_zones s" and ok: "zone_ok s z (X z)" using wf z by (auto simp: pwf_def)
  have pl: "plist s (z_root_at s z) (X z)" and f: "franges (MZONE_MIN z) (MZONE_MAX z + 1) (X z)"
    using ok by (simp_all add: zone_ok_def)
  have "MZONE_MAX z + 1 \<le> VM_HOST_BASE" using zone_max_below_host [OF z] by simp
  from ff_find_correct [OF pl f this, of start] obtain ys zs where
    X: "X z = ys @ zs" and ff: "ff_find s start (z_root_at s z) = Some (pend (z_root_at s z) ys)"
    and before: "\<forall>p sz at. (p, sz, at) \<in> set ys \<longrightarrow> p + sz \<le> start"
    and aft: "zs \<noteq> [] \<longrightarrow> start < fst (hd zs) + fst (snd (hd zs))" by blast
  have after: "zs \<noteq> [] \<longrightarrow> start + n \<le> fst (hd zs)"
  proof
    assume "zs \<noteq> []"
    then obtain q tz bt zs' where zs: "zs = (q, tz, bt) # zs'" by (cases zs) auto
    show "start + n \<le> fst (hd zs)"
    proof (rule ccontr)
      assume "\<not> start + n \<le> fst (hd zs)"
      then have "max start q \<in> {start ..< start + n} \<inter> free_bytes (X z)"
        using aft X zs al franges_member [OF f, of q tz bt] by (auto simp: max_def)
      with inuse show False by blast
    qed
  qed
  let ?t = "ff_link z (pend (z_root_at s z) ys) start n attr s"
  obtain xs where xs: "zone_ok ?t z xs" "free_bytes xs = free_bytes (X z) \<union> {start ..< start + n}"
    "same_outside (insert (z_root_at s z) (free_bytes (X z) \<union> {start ..< start + n})) s ?t"
    using ff_link_ok [OF ok [unfolded X] z host before after al lo hi zero refl] unfolding X by blast
  have "same_outside (insert (z_root_at s z) (free_bytes (X z) \<union> {start ..< start + n})) s (ff_stats z n ?t)"
    using xs(3) by (simp add: same_outside_def)
  moreover have "pwf (ff_stats z n ?t) (X(z := xs))"
    by (rule pwf_update [OF wf z _ calculation]) (use xs(1) zone_free_bytes [OF wf z] lo hi in auto)
  ultimately show ?thesis using xs(2) ff by (auto simp: page_ffree_zone_def page_freed_def)
qed


text \<open>
  A region may straddle the boundary at 1 MiB; then \<open>page_ffree\<close> frees the part above first.
  \<open>freed_all\<close> describes the effect on the two zones together.
\<close>

definition all_free :: "(nat \<Rightarrow> frange list) \<Rightarrow> nat set" where
  "all_free X = (\<Union>z\<in>{..<MZONE_REAL_COUNT}. free_bytes (X z))"

definition list_heads :: "pstate \<Rightarrow> nat set" where
  "list_heads s = z_root_at s ` {..<MZONE_REAL_COUNT}"

lemma all_free_2: "all_free X = free_bytes (X 0) \<union> free_bytes (X 1)"
  by (auto simp: all_free_def MZONE_REAL_COUNT_def less_2_cases_iff)

lemma page_freed_all:
  assumes "page_freed s X y p m t" and "y < MZONE_REAL_COUNT"
  obtains X' where "pwf t X'" "all_free X' = all_free X \<union> {p ..< p + m}"
    "\<forall>z. z \<noteq> y \<longrightarrow> X' z = X z" "same_outside (list_heads s \<union> all_free X \<union> {p ..< p + m}) s t"
proof -
  obtain xs where xs: "pwf t (X(y := xs))" "free_bytes xs = free_bytes (X y) \<union> {p ..< p + m}"
    using assms by (auto simp: page_freed_def)
  have "all_free (X(y := xs)) = all_free X \<union> {p ..< p + m}"
    using xs(2) assms(2) by (auto simp: all_free_def split: if_splits)
  moreover have "same_outside (list_heads s \<union> all_free X \<union> {p ..< p + m}) s t"
    using assms by (auto simp: page_freed_def list_heads_def all_free_def elim!: same_outside_mono)
  ultimately show thesis using xs(1) that [of "X(y := xs)"] by simp
qed

lemma mzone_of_bounds:
  "mzone_of p < MZONE_REAL_COUNT" "MZONE_MIN (mzone_of p) \<le> p"
  "p < VM_HOST_BASE \<Longrightarrow> p \<le> MZONE_MAX (mzone_of p)"
  by (simp_all add: mzone_of_eq MZONE_REAL_COUNT_def)

lemma all_free_zone:
  assumes "pwf s X" and "z < MZONE_REAL_COUNT"
  shows "free_bytes (X z) = all_free X \<inter> {MZONE_MIN z ..< MZONE_MAX z + 1}"
proof -
  have "free_bytes (X y) \<inter> {MZONE_MIN z ..< MZONE_MAX z + 1} = {}" if "y < MZONE_REAL_COUNT" "y \<noteq> z" for y
    using zone_free_bytes [OF assms(1) that(1)] that(2) assms(2) that(1)
    by (fastforce simp: MZONE_REAL_COUNT_def less_2_cases_iff)
  then show ?thesis using zone_free_bytes [OF assms] assms(2) by (fastforce simp: all_free_def)
qed

lemma page_ffree_one_zone:
  assumes wf: "pwf s X" and n: "n \<noteq> 0" and al: "4096 dvd start"
    and hi: "start + CEIL_ALIGN n PAGESIZE \<le> MZONE_MAX (mzone_of start) + 1" and small: "n \<le> VM_HOST_BASE"
    and inuse: "{start ..< start + CEIL_ALIGN n PAGESIZE} \<inter> all_free X = {}"
    and zero: "zero_attr attr \<longrightarrow> zeroed s start (CEIL_ALIGN n PAGESIZE)"
  shows "\<exists>t. page_ffree s start n attr = Some t \<and>
    page_freed s X (mzone_of start) start (CEIL_ALIGN n PAGESIZE) t"
proof -
  let ?m = "CEIL_ALIGN n PAGESIZE" and ?z = "mzone_of start"
  note b = mzone_of_bounds [of start]
  have m: "0 < ?m" using CEIL_ALIGN_page_ge [of n] n small by simp
  have host: "MZONE_MAX ?z < VM_HOST_BASE" by (rule zone_max_below_host [OF b(1)])
  have "\<not> MZONE_MAX ?z < sub32 (add32 start ?m) 1"
    using hi host m by (simp add: add32_id sub32_id)
  then have "page_ffree s start n attr = page_ffree_zone s ?z start ?m attr"
    using n by (subst page_ffree.simps) (simp add: Let_def)
  moreover have "{start ..< start + ?m} \<inter> free_bytes (X ?z) = {}"
    using inuse b(1) by (auto simp: all_free_def)
  ultimately show ?thesis
    using page_ffree_zone_ok [OF wf b(1) al CEIL_ALIGN_page_dvd m b(2) hi _ zero] by simp
qed


lemma page_ffree_straddle:
  assumes wf: "pwf s X" and al: "4096 dvd start" "4096 dvd m"
    and lo: "start < 0x100000" and hi: "0x100000 < start + m" "start + m \<le> VM_HOST_BASE"
    and inuse: "{start ..< start + m} \<inter> all_free X = {}"
    and zero: "zero_attr attr \<longrightarrow> zeroed s start m"
  shows "\<exists>t X'. page_ffree s start m attr = Some t \<and> pwf t X' \<and>
    all_free X' = all_free X \<union> {start ..< start + m} \<and>
    same_outside (list_heads s \<union> all_free X \<union> {start ..< start + m}) s t"
proof -
  let ?zo = "0x100000 - start"
  have zo: "4096 dvd ?zo" "0 < ?zo" "4096 dvd m - ?zo" "start + ?zo = 0x100000" "0x100000 + (m - ?zo) = start + m"
    using al lo hi by (simp_all add: dvd_diff_nat)
  have c: "CEIL_ALIGN m PAGESIZE = m" "CEIL_ALIGN (m - ?zo) PAGESIZE = m - ?zo" using zo al hi by simp_all
  have z1: "mzone_of 0x100000 = 1" "mzone_of start = 0" using lo by (simp_all add: mzone_of_eq)
  have split: "{start ..< start + m} = {0x100000 ..< 0x100000 + (m - ?zo)} \<union> {start ..< start + ?zo}"
    using zo(4,5) lo hi by auto
  have i0: "{0x100000 ..< 0x100000 + (m - ?zo)} \<inter> all_free X = {}" using inuse unfolding split by blast
  have z0: "zero_attr attr \<longrightarrow> zeroed s 0x100000 (m - ?zo)" using zero zo(5) lo by (simp add: zeroed_def)
  have h0: "0x100000 + (m - ?zo) \<le> MZONE_MAX (mzone_of 0x100000) + 1" "m - ?zo \<le> VM_HOST_BASE" "m - ?zo \<noteq> 0"
    using zo(4,5) hi unfolding z1 by simp_all
  obtain u where u: "page_ffree s 0x100000 (m - ?zo) attr = Some u" "page_freed s X 1 0x100000 (m - ?zo) u"
    using page_ffree_one_zone [OF wf h0(3), of "0x100000" attr] h0(1,2) i0 z0 unfolding c(2) z1 by auto
  have one: "1 < MZONE_REAL_COUNT" by (simp add: MZONE_REAL_COUNT_def)
  obtain X1 where X1: "pwf u X1" "all_free X1 = all_free X \<union> {0x100000 ..< 0x100000 + (m - ?zo)}"
    "\<forall>z. z \<noteq> 1 \<longrightarrow> X1 z = X z"
    "same_outside (list_heads s \<union> all_free X \<union> {0x100000 ..< 0x100000 + (m - ?zo)}) s u"
    by (rule page_freed_all [OF u(2) one])
  have i1: "{start ..< start + ?zo} \<inter> free_bytes (X1 0) = {}"
    using inuse X1(3) unfolding split by (auto simp: all_free_2)
  have zu: "zero_attr attr \<longrightarrow> zeroed u start ?zo"
  proof
    assume "zero_attr attr"
    with zero have z: "zeroed s start m" by simp
    show "zeroed u start ?zo"
      unfolding zeroed_def
    proof (intro allI impI)
      fix a assume a: "4 dvd a" "start \<le> a" "a < start + ?zo"
      have "a \<in> {start ..< start + m}" using a unfolding split by auto
      then have "a \<notin> all_free X" using inuse by blast
      moreover have "a \<notin> list_heads s"
        using a zo wf by (auto simp: list_heads_def z_root_at_def pwf_def)
      ultimately have "mem u a = mem s a" using X1(4) a zo by (auto simp: same_outside_def)
      then show "mem u a = 0" using z a zo hi by (simp add: zeroed_def)
    qed
  qed
  obtain t where t: "page_ffree_zone u 0 start ?zo attr = Some t" "page_freed u X1 0 start ?zo t"
    using page_ffree_zone_ok [OF X1(1) _ al(1) zo(1,2) _ _ i1 zu] lo by (auto simp: MZONE_REAL_COUNT_def)
  obtain X2 where X2: "pwf t X2" "all_free X2 = all_free X1 \<union> {start ..< start + ?zo}"
    "same_outside (list_heads u \<union> all_free X1 \<union> {start ..< start + ?zo}) u t"
    by (rule page_freed_all [OF t(2)]) (simp_all add: MZONE_REAL_COUNT_def)
  have "page_ffree s start m attr = Some t"
    using u(1) t(1) lo hi al zo unfolding page_ffree.simps [of s start m attr] c(1) z1 Let_def
    by (auto simp: add32_id sub32_id)
  moreover have "list_heads u = list_heads s"
    using X1(4) by (simp add: list_heads_def z_root_at_def same_outside_def)
  ultimately show ?thesis
    using X2(1,2) X1(2) same_outside_trans [OF X1(4) X2(3), of "list_heads s \<union> all_free X \<union> {start ..< start + m}"]
    unfolding split by (intro exI [of _ t] exI [of _ X2]) auto
qed

lemma page_ffree_cases:
  assumes wf: "pwf s X" and n: "n \<noteq> 0" and al: "4096 dvd start" and hi: "start + n \<le> VM_HOST_BASE"
    and inuse: "{start ..< start + CEIL_ALIGN n PAGESIZE} \<inter> all_free X = {}"
    and zero: "zero_attr attr \<longrightarrow> zeroed s start (CEIL_ALIGN n PAGESIZE)"
  shows "\<exists>t X'. page_ffree s start n attr = Some t \<and> pwf t X' \<and>
    all_free X' = all_free X \<union> {start ..< start + CEIL_ALIGN n PAGESIZE} \<and>
    same_outside (list_heads s \<union> all_free X \<union> {start ..< start + CEIL_ALIGN n PAGESIZE}) s t"
proof -
  let ?m = "CEIL_ALIGN n PAGESIZE"
  have "?m \<le> VM_HOST_BASE - start" by (rule CEIL_ALIGN_page_le) (use hi al in \<open>simp_all add: dvd_diff_nat\<close>)
  then have hm: "start + ?m \<le> VM_HOST_BASE" using hi by simp
  have m0: "?m \<noteq> 0" using CEIL_ALIGN_page_ge [of n] n hi by simp
  show ?thesis
  proof (cases "start + ?m \<le> MZONE_MAX (mzone_of start) + 1")
    case True
    from page_ffree_one_zone [OF wf n al True _ inuse zero] hi obtain t where
      t: "page_ffree s start n attr = Some t" "page_freed s X (mzone_of start) start ?m t" by auto
    from page_freed_all [OF t(2) mzone_of_bounds(1)] t(1) show ?thesis by metis
  next
    case False
    then have "start < 0x100000" "0x100000 < start + ?m"
      using hm by (auto simp: mzone_of_eq split: if_splits)
    moreover have "page_ffree s start n attr = page_ffree s start ?m attr"
      using n m0 CEIL_ALIGN_page_less [of n]
      by (subst (1 2) page_ffree.simps) (simp add: CEIL_ALIGN_page_id)
    ultimately show ?thesis
      using page_ffree_straddle [OF wf al CEIL_ALIGN_page_dvd _ _ hm inuse zero] by simp
  qed
qed


subsection \<open>Properties\<close>

text \<open>
  C2: Freeing a page-aligned region of allocated memory below the kernel returns, adds exactly that
  region (rounded up to pages) to the free memory, merging it with the ranges it touches and
  splitting it at the zone boundary, keeps the free lists well formed, and writes only to free
  memory, to the freed region and to the list heads. A region freed as \<open>PAGEATTR_ZERO\<close> must hold
  zeros; then ranges marked zero remain zero.
\<close>

theorem page_ffree_correct:
  assumes "pwf s X" and "4096 dvd start" and "start + n_bytes \<le> VM_HOST_BASE"
    and "{start ..< start + CEIL_ALIGN n_bytes PAGESIZE} \<inter> all_free X = {}"
    and "zero_attr attr \<longrightarrow> zeroed s start (CEIL_ALIGN n_bytes PAGESIZE)"
  shows "\<exists>t X'. page_ffree s start n_bytes attr = Some t \<and> pwf t X' \<and>
    all_free X' = all_free X \<union> {start ..< start + CEIL_ALIGN n_bytes PAGESIZE} \<and>
    same_outside (list_heads s \<union> all_free X \<union> {start ..< start + CEIL_ALIGN n_bytes PAGESIZE}) s t"
proof (cases "n_bytes = 0")
  case True
  then show ?thesis using assms(1)
    by (subst page_ffree.simps) (auto simp: CEIL_ALIGN_page add32_def)
next
  case False
  show ?thesis by (rule page_ffree_cases [OF assms(1) False assms(2-5)])
qed

theorem page_ffree_correct_witness:
  "\<exists>t X'. page_ffree page_demo 0xFF000 0x101000 0 = Some t \<and> pwf t X' \<and>
     all_free X' = {0xFF000 ..< 0x204000}"
proof -
  have c: "CEIL_ALIGN 0x101000 PAGESIZE = 0x101000" by (simp add: CEIL_ALIGN_page add32_def)
  have f: "all_free demo_ranges = {0x200000 ..< 0x204000}" by (simp add: all_free_2 demo_ranges_def)
  have "{0xFF000 ..< 0x200000} \<union> {0x200000 ..< 0x204000} = {0xFF000 ..< 0x204000 :: nat}"
    by (rule ivl_disj_un_two(3)) simp_all
  then show ?thesis
    using page_ffree_correct [OF page_demo_wf, of "0xFF000" "0x101000" 0]
    by (auto simp: c f zero_attr_odd Un_commute)
qed

subsection \<open>Sources of memory\<close>

text \<open>
  What clients of the allocators rely on, without the lists: \<open>pages s A\<close> says that the store is
  well formed with exactly the bytes \<open>A\<close> free, and \<open>page_take A attr m s p t\<close> that the step from \<open>s\<close> to
  \<open>t\<close> handed out \<open>m\<close> bytes of \<open>A\<close> at \<open>p\<close>.
\<close>

definition pages :: "pstate \<Rightarrow> nat set \<Rightarrow> bool" where
  "pages s A \<longleftrightarrow> (\<exists>X. pwf s X \<and> all_free X = A)"

definition page_take :: "nat set \<Rightarrow> nat \<Rightarrow> nat \<Rightarrow> pstate \<Rightarrow> nat \<Rightarrow> pstate \<Rightarrow> bool" where
  "page_take A attr m s p t \<longleftrightarrow> 4096 dvd p \<and> {p ..< p + m} \<subseteq> A \<and> pages t (A - {p ..< p + m}) \<and>
     same_outside (list_heads s \<union> A) s t \<and> (zero_attr attr \<longrightarrow> zeroed t p m)"

lemma page_got_take:
  assumes wf: "pwf s X" and g: "page_got s X attr y p m t" and y: "y < MZONE_REAL_COUNT"
  shows "page_take (all_free X) attr m s p t"
proof -
  obtain xs where xs: "pwf t (X(y := xs))" "free_bytes xs = free_bytes (X y) - {p ..< p + m}"
    using g by (auto simp: page_got_def)
  have sub: "{p ..< p + m} \<subseteq> free_bytes (X y)" using g by (simp add: page_got_def)
  have other: "free_bytes (X z) \<inter> {p ..< p + m} = {}" if "z < MZONE_REAL_COUNT" "z \<noteq> y" for z
  proof -
    have "free_bytes (X z) \<inter> free_bytes (X y) = {}"
      using zone_free_bytes [OF wf that(1)] zone_free_bytes [OF wf y] that y
      by (fastforce simp: MZONE_REAL_COUNT_def less_2_cases_iff)
    then show ?thesis using sub by blast
  qed
  have "all_free (X(y := xs)) = all_free X - {p ..< p + m}"
    unfolding all_free_def using xs(2) y other by (fastforce split: if_splits)
  moreover have "same_outside (list_heads s \<union> all_free X) s t"
    using g y by (auto simp: page_got_def list_heads_def all_free_def elim!: same_outside_mono)
  moreover have "{p ..< p + m} \<subseteq> all_free X" using sub y by (auto simp: all_free_def)
  ultimately show ?thesis
    using g xs(1) unfolding page_take_def page_got_def pages_def by blast
qed

lemma pages_below_host:
  assumes "pages s A"
  shows "A \<subseteq> {..< VM_HOST_BASE}" "list_heads s \<inter> {..< VM_HOST_BASE} = {}"
proof -
  obtain X where X: "pwf s X" "all_free X = A" using assms by (auto simp: pages_def)
  show "A \<subseteq> {..< VM_HOST_BASE}"
    using zone_free_bytes [OF X(1)] zone_max_below_host unfolding X(2) [symmetric] all_free_def by fastforce
  show "list_heads s \<inter> {..< VM_HOST_BASE} = {}"
    using X(1) by (auto simp: list_heads_def z_root_at_def pwf_def)
qed

lemma list_heads_same: "same_outside A s t \<Longrightarrow> list_heads t = list_heads s"
  by (simp add: list_heads_def z_root_at_def same_outside_def)

lemma pages_free:
  assumes "pages s A" and "4096 dvd p" and "p + n \<le> VM_HOST_BASE"
    and "{p ..< p + CEIL_ALIGN n PAGESIZE} \<inter> A = {}" and "zero_attr attr \<longrightarrow> zeroed s p (CEIL_ALIGN n PAGESIZE)"
  obtains t where "page_ffree s p n attr = Some t" "pages t (A \<union> {p ..< p + CEIL_ALIGN n PAGESIZE})"
    "same_outside (list_heads s \<union> A \<union> {p ..< p + CEIL_ALIGN n PAGESIZE}) s t"
proof (cases "n = 0")
  case True
  then have "CEIL_ALIGN n PAGESIZE = 0" by (simp add: CEIL_ALIGN_page add32_def)
  then show ?thesis using that [of s] assms(1) True by (simp add: page_ffree.simps)
next
  case False
  obtain X where X: "pwf s X" "all_free X = A" using assms(1) by (auto simp: pages_def)
  from page_ffree_cases [OF X(1) False assms(2,3) assms(4) [folded X(2)] assms(5)] obtain t X' where
    "page_ffree s p n attr = Some t" "pwf t X'" "all_free X' = A \<union> {p ..< p + CEIL_ALIGN n PAGESIZE}"
    "same_outside (list_heads s \<union> A \<union> {p ..< p + CEIL_ALIGN n PAGESIZE}) s t" unfolding X(2) by blast
  then show ?thesis using that [of t] by (auto simp: pages_def)
qed

text \<open>
  The interface: a source either fails and changes nothing or hands out \<open>size\<close> bytes of the free
  memory. Its clients need no more; the lemmas of the locale hold for every allocator of the file.
\<close>

locale page_source =
  fixes alloc :: "pstate \<Rightarrow> (nat \<times> pstate) option" and size :: nat and attr :: nat
  assumes alloc: "pages s A \<Longrightarrow> alloc s = Some (PAGE_ERROR, s) \<or>
    (\<exists>p t. alloc s = Some (p, t) \<and> p \<noteq> PAGE_ERROR \<and> page_take A attr size s p t)"
    and size: "4096 dvd size" "size < U32"
begin

lemma alloc_free:
  assumes "pages s A" and "alloc s = Some (p, t)" and "p \<noteq> PAGE_ERROR"
  obtains u where "page_ffree t p size 0 = Some u" "pages u A" "same_outside (list_heads s \<union> A) s u"
proof -
  have tk: "page_take A attr size s p t" using alloc [OF assms(1)] assms(2,3) by auto
  have c: "CEIL_ALIGN size PAGESIZE = size" using size by simp
  have sub: "{p ..< p + size} \<subseteq> A" and t: "pages t (A - {p ..< p + size})"
    and st: "same_outside (list_heads s \<union> A) s t" using tk by (auto simp: page_take_def)
  have "p + size \<le> VM_HOST_BASE" if "size \<noteq> 0"
  proof -
    have "p + size - 1 \<in> A" using sub that by auto
    then show ?thesis using pages_below_host(1) [OF assms(1)] that by auto
  qed
  then show thesis
  proof (cases "size = 0")
    case True
    then show ?thesis using that [of t] t st by (simp add: page_ffree.simps)
  next
    case False
    with \<open>size \<noteq> 0 \<Longrightarrow> _\<close> have h: "p + size \<le> VM_HOST_BASE" by simp
    obtain u where u: "page_ffree t p size 0 = Some u" "pages u (A - {p ..< p + size} \<union> {p ..< p + size})"
      "same_outside (list_heads t \<union> (A - {p ..< p + size}) \<union> {p ..< p + size}) t u"
      by (rule pages_free [OF t, of p size 0]) (use tk h in \<open>auto simp: c page_take_def zero_attr_odd\<close>)
    have "A - {p ..< p + size} \<union> {p ..< p + size} = A" using sub by blast
    then show ?thesis
      using that [of u] u same_outside_trans [OF st u(3), of "list_heads s \<union> A"] list_heads_same [OF st] sub by auto
  qed
qed

lemma alloc_disjoint:
  assumes "pages s A" and "alloc s = Some (p, t)" and "p \<noteq> PAGE_ERROR"
    and "alloc t = Some (q, u)" and "q \<noteq> PAGE_ERROR"
  shows "{p ..< p + size} \<inter> {q ..< q + size} = {}"
    "\<And>a. p \<le> a \<Longrightarrow> a < p + size \<Longrightarrow> mem u a = mem t a"
proof -
  have t: "pages t (A - {p ..< p + size})" and pA: "{p ..< p + size} \<subseteq> A"
    using alloc [OF assms(1)] assms(2,3) by (auto simp: page_take_def)
  then have u: "page_take (A - {p ..< p + size}) attr size t q u" using alloc [OF t] assms(4,5) by auto
  then have "{q ..< q + size} \<subseteq> A - {p ..< p + size}" by (simp add: page_take_def)
  then show "{p ..< p + size} \<inter> {q ..< q + size} = {}" by blast
  fix a assume a: "p \<le> a" "a < p + size"
  then have "a < VM_HOST_BASE" using pA pages_below_host(1) [OF assms(1)] by auto
  then have "a \<notin> list_heads t" using pages_below_host(2) [OF t] by auto
  then show "mem u a = mem t a" using u a by (auto simp: page_take_def same_outside_def)
qed

end

lemma page_malloc_source:
  assumes z: "z < MZONE_REAL_COUNT"
  shows "page_source (\<lambda>s. page_malloc s n attr z) (CEIL_ALIGN n PAGESIZE) attr"
proof unfold_locales
  fix s A assume "pages s A"
  then obtain X where X: "pwf s X" "all_free X = A" by (auto simp: pages_def)
  from pm.fallback_cases [OF X(1) z, of n attr]
  show "page_malloc s n attr z = Some (PAGE_ERROR, s) \<or>
    (\<exists>p t. page_malloc s n attr z = Some (p, t) \<and> p \<noteq> PAGE_ERROR \<and>
       page_take A attr (CEIL_ALIGN n PAGESIZE) s p t)"
    using page_got_take [OF X(1)] X(2) z by (metis le_less_trans)
qed (simp_all add: CEIL_ALIGN_page_less)

text \<open>The two zones of the i386 build, \<open>MZONE_1MB\<close> and \<open>MZONE_HIMEM\<close>.\<close>

interpretation lomem: page_source "\<lambda>s. page_malloc s n attr 0" "CEIL_ALIGN n PAGESIZE" attr for n attr
  by (rule page_malloc_source) (simp add: MZONE_REAL_COUNT_def)

interpretation himem: page_source "\<lambda>s. page_malloc s n attr 1" "CEIL_ALIGN n PAGESIZE" attr for n attr
  by (rule page_malloc_source) (simp add: MZONE_REAL_COUNT_def)

lemma page_demo_pages: "pages page_demo {0x200000 ..< 0x204000}"
  unfolding pages_def
proof (intro exI conjI)
  show "pwf page_demo demo_ranges" by (rule page_demo_wf)
  show "all_free demo_ranges = {0x200000 ..< 0x204000}" by (simp add: all_free_2 demo_ranges_def)
qed

text \<open>
  C3: Round trip. A block that \<open>page_malloc\<close> returned and that is freed again restores exactly the
  free memory there was before, and nothing outside it has changed.
\<close>

theorem page_malloc_ffree_roundtrip:
  assumes "pages s A" and "page_malloc s n attr 1 = Some (p, t)" and "p \<noteq> PAGE_ERROR"
  shows "\<exists>u. page_ffree t p (CEIL_ALIGN n PAGESIZE) 0 = Some u \<and> pages u A \<and>
    same_outside (list_heads s \<union> A) s u"
  using himem.alloc_free [OF assms] by blast

theorem page_malloc_ffree_roundtrip_witness:
  "\<exists>p t u. page_malloc page_demo 5000 0 1 = Some (p, t) \<and> p \<noteq> PAGE_ERROR \<and>
     page_ffree t p 8192 0 = Some u \<and> pages u {0x200000 ..< 0x204000}"
proof -
  have c: "CEIL_ALIGN 5000 PAGESIZE = 8192" by (simp add: CEIL_ALIGN_page add32_def)
  have "\<not> no_fit (demo_ranges 1) 5000" by (simp add: no_fit_def demo_ranges_def)
  then obtain p t where "page_malloc page_demo 5000 0 1 = Some (p, t)" "p \<noteq> PAGE_ERROR"
    using pm.fallback_cases [OF page_demo_wf, of 1 5000 0] by (auto simp: MZONE_REAL_COUNT_def)
  then show ?thesis using page_malloc_ffree_roundtrip [OF page_demo_pages, of 5000 0 p t] c by auto
qed


lemma page_malloc_one_page:
  assumes "pwf s X" and "free_bytes (X 1) \<noteq> {}"
  shows "\<exists>p t. page_malloc s 4096 attr 1 = Some (p, t) \<and> p \<noteq> PAGE_ERROR \<and> page_got s X attr 1 p 4096 t"
proof -
  have one: "1 < MZONE_REAL_COUNT" by (simp add: MZONE_REAL_COUNT_def)
  obtain q u b where r: "(q, u, b) \<in> set (X 1)" using assms(2) by (auto simp: free_bytes_def)
  have "4096 \<le> u" using range_below_host [OF assms(1) one r] by (auto dest: dvd_imp_le)
  then have "\<not> no_fit (X 1) 4096" using r by (auto simp: no_fit_def not_less)
  then show ?thesis using pm.fallback_cases [OF assms(1) one, of 4096 attr] by (fastforce simp: le_Suc_eq)
qed


end
