(* ===== verification/Page_Alloc_In.thy ===== *)
theory Page_Alloc_In
  imports Page_Free
begin

text \<open>
  Allocation at a given place: \<open>page_malloc_in\<close> and \<open>page_malloc_at\<close> of
  \<open>src/src/kernel/memory/memory.c\<close>. The arguments \<open>min\<close> and \<open>max\<close> of the source are called \<open>mn\<close>
  and \<open>mx\<close>. The block may be cut out of the bottom, the middle or the top of a free range or
  consume it; \<open>cut\<close> says what is left.
\<close>

subsection \<open>The code\<close>

partial_function (option) pin_search ::
  "pstate \<Rightarrow> nat \<Rightarrow> nat \<Rightarrow> nat \<Rightarrow> nat \<Rightarrow> nat \<Rightarrow> nat \<Rightarrow> (nat \<times> nat) option" where
  "pin_search s mn mx n_bytes iter best_page best_size =
     (if iter = PAGE_ERROR \<or> mx < iter then Some (best_page, best_size)
      else if PAGE_END s iter \<le> mn then pin_search s mn mx n_bytes (p_next s iter) best_page best_size
      else let iter_end = (if add32 mx n_bytes < PAGE_END s iter then add32 mx n_bytes else PAGE_END s iter);
               avail0 = sub32 iter_end mn;
               page_avail = (if p_size s iter < avail0 then p_size s iter else avail0)
           in if page_avail < n_bytes \<or> best_size \<le> page_avail
              then pin_search s mn mx n_bytes (p_next s iter) best_page best_size
              else if page_avail = n_bytes then Some (iter, page_avail)
              else pin_search s mn mx n_bytes (p_next s iter) iter page_avail)"

definition pin_unlink :: "nat \<Rightarrow> pstate \<Rightarrow> pstate" where
  "pin_unlink p s =
     (let s1 = (if p_next s p \<noteq> PAGE_ERROR then set_p_self (p_next s p) (p_self s p) s else s)
      in put (p_self s1 p) (p_next s1 p) s1)"

definition pin_bottom :: "nat \<Rightarrow> nat \<Rightarrow> pstate \<Rightarrow> pstate" where
  "pin_bottom best_page n_bytes s =
     (let new_base = best_page + n_bytes;
          s1 = copy_ctl new_base best_page s;
          s2 = set_p_size new_base (p_size s1 new_base - n_bytes) s1;
          s3 = relink_next new_base s2
      in put (p_self s3 new_base) new_base s3)"

definition pin_middle :: "nat \<Rightarrow> nat \<Rightarrow> nat \<Rightarrow> pstate \<Rightarrow> pstate" where
  "pin_middle best_page result n_bytes s =
     (let hi_split = result + n_bytes;
          s1 = copy_ctl hi_split best_page s;
          s2 = relink_next hi_split s1;
          s3 = set_p_self hi_split best_page s2;
          s4 = set_p_size hi_split (p_size s3 hi_split - (hi_split - best_page)) s3;
          s5 = set_p_next best_page hi_split s4
      in set_p_size best_page (p_size s5 best_page - n_bytes) s5)"

definition pin_split :: "nat \<Rightarrow> nat \<Rightarrow> nat \<Rightarrow> nat \<Rightarrow> pstate \<Rightarrow> pstate" where
  "pin_split best_page result n_bytes attr s =
     (let part_attr = p_attr s best_page in
      if result = best_page
      then (let s1 = (if n_bytes = p_size s best_page then pin_unlink best_page s
                      else pin_bottom best_page n_bytes s)
            in if zero_attr part_attr \<and> zero_attr attr then clear_ctl best_page s1 else s1)
      else (let s1 = (if result + n_bytes \<noteq> PAGE_END s best_page
                      then pin_middle best_page result n_bytes s else s)
            in set_p_size best_page (result - best_page) s1))"

definition pin_stats :: "nat \<Rightarrow> nat \<Rightarrow> pstate \<Rightarrow> pstate" where
  "pin_stats zone n s = s\<lparr>
     z_alloc := (z_alloc s)(zone := add32 (z_alloc s zone) 1),
     z_inuse := (z_inuse s)(zone := add32 (z_inuse s zone) n),
     z_avail := (z_avail s)(zone := sub32 (z_avail s zone) n)\<rparr>"

definition page_malloc_in_zone :: "pstate \<Rightarrow> nat \<Rightarrow> nat \<Rightarrow> nat \<Rightarrow> nat \<Rightarrow> nat \<Rightarrow> (nat \<times> pstate) option" where
  "page_malloc_in_zone s mn mx n_bytes attr zone = do {
     (best_page, best_size) \<leftarrow> pin_search s mn mx n_bytes (z_root s zone) PAGE_ERROR PAGE_ERROR;
     if best_page = PAGE_ERROR then Some (PAGE_ERROR, s)
     else (let part_attr = p_attr s best_page;
               top = best_page + (p_size s best_page - n_bytes);
               result = (if mx < top then mx else top);
               s1 = pin_stats zone n_bytes (pin_split best_page result n_bytes attr s)
           in Some (result, if \<not> zero_attr part_attr \<and> zero_attr attr
                            then memsetl result 0 (n_bytes div 4) s1 else s1))
   }"

text \<open>The zones from \<open>mzone_of(max)\<close> down to \<open>mzone_of(min)\<close>.\<close>

fun page_malloc_in_loop :: "pstate \<Rightarrow> nat \<Rightarrow> nat \<Rightarrow> nat \<Rightarrow> nat \<Rightarrow> nat \<Rightarrow> nat \<Rightarrow> (nat \<times> pstate) option" where
  "page_malloc_in_loop s mn mx n_bytes attr zone zone_min =
     (if zone < zone_min then Some (PAGE_ERROR, s)
      else do {
        (result, s') \<leftarrow> page_malloc_in_zone s mn mx n_bytes attr zone;
        if result \<noteq> PAGE_ERROR \<or> zone = 0 then Some (result, s')
        else page_malloc_in_loop s' mn mx n_bytes attr (zone - 1) zone_min
      })"

declare page_malloc_in_loop.simps [simp del]

definition page_malloc_in :: "pstate \<Rightarrow> nat \<Rightarrow> nat \<Rightarrow> nat \<Rightarrow> nat \<Rightarrow> (nat \<times> pstate) option" where
  "page_malloc_in s mn mx n_bytes attr =
     page_malloc_in_loop s mn mx (CEIL_ALIGN n_bytes PAGESIZE) attr (mzone_of mx) (mzone_of mn)"

definition page_malloc_at :: "pstate \<Rightarrow> nat \<Rightarrow> nat \<Rightarrow> nat \<Rightarrow> (nat \<times> pstate) option" where
  "page_malloc_at s start n_bytes attr = page_malloc_in s start start n_bytes attr"

subsection \<open>The search\<close>

text \<open>A range can serve the request if a block of \<open>n\<close> bytes that starts in \<open>min..max\<close> fits into it.\<close>

definition pin_fits :: "nat \<Rightarrow> nat \<Rightarrow> nat \<Rightarrow> frange \<Rightarrow> bool" where
  "pin_fits mn mx n r \<longleftrightarrow> (\<exists>p. mn \<le> p \<and> p \<le> mx \<and> fst r \<le> p \<and> p + n \<le> fst r + fst (snd r))"

lemma pin_avail:
  assumes "mn \<le> mx" and "mx + n < U32" and "0 < n" and "p + sz \<le> VM_HOST_BASE" and "p \<le> mx" and "mn < p + sz"
  shows "pin_fits mn mx n (p, sz, at) \<longleftrightarrow>
    n \<le> (let ie = (if add32 mx n < p + sz then add32 mx n else p + sz); av = sub32 ie mn
         in if sz < av then sz else av)"
    and "(let ie = (if add32 mx n < p + sz then add32 mx n else p + sz); av = sub32 ie mn
         in if sz < av then sz else av) \<le> VM_HOST_BASE"
proof -
  let ?ie = "if add32 mx n < p + sz then add32 mx n else p + sz"
  have ie: "?ie = min (mx + n) (p + sz)" using assms by (simp add: add32_id min_def)
  then have av: "sub32 ?ie mn = min (mx + n) (p + sz) - mn"
    using assms by (simp add: sub32_id min_def)
  have "pin_fits mn mx n (p, sz, at) \<longleftrightarrow> mn + n \<le> p + sz \<and> n \<le> sz"
  proof
    assume "mn + n \<le> p + sz \<and> n \<le> sz"
    then show "pin_fits mn mx n (p, sz, at)" unfolding pin_fits_def
      using assms by (intro exI [of _ "max mn p"]) (auto simp: max_def)
  qed (auto simp: pin_fits_def)
  then show "pin_fits mn mx n (p, sz, at) \<longleftrightarrow>
    n \<le> (let ie = (if add32 mx n < p + sz then add32 mx n else p + sz); av = sub32 ie mn
         in if sz < av then sz else av)"
    unfolding Let_def av using assms by (auto simp: min_def)
  show "(let ie = (if add32 mx n < p + sz then add32 mx n else p + sz); av = sub32 ie mn
         in if sz < av then sz else av) \<le> VM_HOST_BASE"
    unfolding Let_def av using assms by (auto simp: min_def)
qed

lemma pin_search_correct:
  assumes "plist s l xs" and "franges lo hi xs" and "hi \<le> VM_HOST_BASE"
    and b: "mn \<le> mx" "mx + n < U32" "0 < n"
  shows "\<exists>bp' bs'. pin_search s mn mx n (mem s l) bp bs = Some (bp', bs') \<and>
    ((bp', bs') = (bp, bs) \<and> (bs = PAGE_ERROR \<longrightarrow> (\<forall>r\<in>set xs. \<not> pin_fits mn mx n r)) \<or>
     (\<exists>sz at. (bp', sz, at) \<in> set xs \<and> pin_fits mn mx n (bp', sz, at)))"
  using assms(1-3)
proof (induction xs arbitrary: l lo bp bs)
  case Nil
  then show ?case by (simp add: pin_search.simps)
next
  case (Cons r xs)
  obtain p sz at where r: "r = (p, sz, at)" by (cases r)
  have p: "mem s l = p" "p_size s p = sz" "plist s p xs" "p_next s p = mem s p" "PAGE_END s p = p + sz"
    using Cons.prems r by (auto simp: p_next_def PAGE_END_def)
  have f: "franges (p + sz + 1) hi xs" and ne: "p \<noteq> PAGE_ERROR" and ps: "p + sz \<le> VM_HOST_BASE"
    using Cons.prems r by auto
  note IH = Cons.IH [OF p(3) f Cons.prems(3)]
  have later: "p \<le> fst q" if "q \<in> set xs" for q
    using franges_member [OF f, of "fst q" "fst (snd q)" "snd (snd q)"] that by simp
  consider (stop) "mx < p" | (skip) "p \<le> mx" "p + sz \<le> mn" | (look) "p \<le> mx" "mn < p + sz" by linarith
  then show ?case
  proof cases
    case stop
    then have "pin_search s mn mx n (mem s l) bp bs = Some (bp, bs)" using p by (simp add: pin_search.simps)
    moreover have "\<not> pin_fits mn mx n q" if "q \<in> set (r # xs)" for q
      using that stop later r by (fastforce simp: pin_fits_def)
    ultimately show ?thesis by auto
  next
    case skip
    then have "pin_search s mn mx n (mem s l) bp bs = pin_search s mn mx n (mem s p) bp bs"
      using p ne by (subst pin_search.simps) simp
    moreover have "\<not> pin_fits mn mx n r" using skip b r by (auto simp: pin_fits_def)
    ultimately show ?thesis using IH [of bp bs] by fastforce
  next
    case look
    define av where "av = (let ie = (if add32 mx n < p + sz then add32 mx n else p + sz); av = sub32 ie mn
         in if sz < av then sz else av)"
    note a = pin_avail(1) [OF b ps look, of at, folded av_def] pin_avail(2) [OF b ps look, folded av_def]
    have e: "pin_search s mn mx n (mem s l) bp bs =
      (if av < n \<or> bs \<le> av then pin_search s mn mx n (mem s p) bp bs
       else if av = n then Some (p, av) else pin_search s mn mx n (mem s p) p av)"
      using look p ne by (subst pin_search.simps) (simp add: av_def Let_def)
    consider (drop) "av < n \<or> bs \<le> av" | (hit) "\<not> (av < n \<or> bs \<le> av)" "av = n"
      | (cand) "\<not> (av < n \<or> bs \<le> av)" "av \<noteq> n" by blast
    then show ?thesis
    proof cases
      case drop
      then have "bs = PAGE_ERROR \<longrightarrow> \<not> pin_fits mn mx n r" using a r by auto
      then show ?thesis using IH [of bp bs] drop e by fastforce
    next
      case hit
      then show ?thesis using e a(1) r by auto
    next
      case cand
      then have "pin_fits mn mx n r" using a(1) r by simp
      then show ?thesis using IH [of p av] cand e r by fastforce
    qed
  qed
qed


subsection \<open>Splitting a range\<close>

lemma mem_copy_ctl:
  assumes "src + 16 \<le> dst \<or> dst + 16 \<le> src"
  shows "mem (copy_ctl dst src s) a = (if a = dst then mem s src else if a = dst + 4 then mem s (src + 4)
     else if a = dst + 8 then mem s (src + 8) else if a = dst + 12 then mem s (src + 12) else mem s a)"
    "page_zones (copy_ctl dst src s) = page_zones s"
  using assms by (simp_all add: copy_ctl_def page_set_defs page_get_defs)

lemma pin_unlink_mem:
  assumes ok: "zone_ok s z (ys @ (bp, bs, at) # zs)" and z: "z < MZONE_REAL_COUNT"
    and host: "VM_HOST_BASE \<le> page_zones s"
  shows "mem (pin_unlink bp s) = mem (page_unlink bp s)" "page_zones (pin_unlink bp s) = page_zones s"
proof -
  note mid = zone_mid [OF ok z host]
  let ?l = "pend (z_root_at s z) ys"
  have l: "mem s (bp + 4) = ?l" using mid(1) by (simp add: p_self_def)
  show "mem (pin_unlink bp s) = mem (page_unlink bp s)"
  proof (cases "zs = []")
    case True
    then have "pin_unlink bp s = put ?l PAGE_ERROR s"
      using mid(5) l by (simp add: pin_unlink_def page_get_defs)
    then show ?thesis using True by (simp add: page_unlink_mem(1) [OF ok z host])
  next
    case False
    have nx: "mem s bp = fst (hd zs)" "fst (hd zs) \<noteq> PAGE_ERROR" "bp + 4096 < fst (hd zs)" "?l \<noteq> fst (hd zs) + 4"
      using mid(5,6,11,12,16) False by auto
    have "pin_unlink bp s = put ?l (fst (hd zs)) (put (fst (hd zs) + 4) ?l s)"
      using nx l by (simp add: pin_unlink_def page_get_defs set_p_self_def)
    then show ?thesis using False nx(4) by (simp add: page_unlink_mem(1) [OF ok z host] fun_upd_twist)
  qed
  show "page_zones (pin_unlink bp s) = page_zones s" by (simp add: pin_unlink_def Let_def page_set_defs)
qed

lemma pin_bottom_mem:
  assumes q: "q = bp + n" "4096 \<le> n" "n + 4096 \<le> bs" "bp + bs \<le> VM_HOST_BASE"
    and l: "l < bp \<or> bp + bs \<le> l"
    and ctl: "mem s (bp + 4) = l" "mem s (bp + 8) = bs" "mem s (bp + 12) = at"
    and nx: "mem s bp \<noteq> PAGE_ERROR \<longrightarrow> bp + bs \<le> mem s bp" "mem s bp \<noteq> PAGE_ERROR \<longrightarrow> l \<noteq> mem s bp + 4"
    and t: "t = pin_bottom bp n s"
  shows "mem t q = mem s bp" "mem t (q + 4) = l" "mem t (q + 8) = bs - n" "mem t (q + 12) = at" "mem t l = q"
    "mem s bp \<noteq> PAGE_ERROR \<longrightarrow> mem t (mem s bp + 4) = q" "page_zones t = page_zones s"
    "\<And>a. a < q \<or> q + 16 \<le> a \<Longrightarrow> a \<noteq> l \<Longrightarrow> (mem s bp \<noteq> PAGE_ERROR \<longrightarrow> a \<noteq> mem s bp + 4) \<Longrightarrow> mem t a = mem s a"
proof -
  define s1 where "s1 = copy_ctl q bp s"
  define s2 where "s2 = set_p_size q (p_size s1 q - n) s1"
  define s3 where "s3 = relink_next q s2"
  have ap: "bp + 16 \<le> q \<or> q + 16 \<le> bp" using q by simp
  have m2: "mem s2 a = (if a = q then mem s bp else if a = q + 4 then l else if a = q + 8 then bs - n
      else if a = q + 12 then at else mem s a)" for a
    using ctl by (simp add: s2_def s1_def mem_copy_ctl [OF ap] page_set_defs page_get_defs)
  have m3: "mem s3 a = (if mem s bp \<noteq> PAGE_ERROR \<and> a = mem s bp + 4 then q else mem s2 a)" for a
    unfolding s3_def mem_relink_next by (simp add: m2)
  have v3: "mem s3 (q + 4) = l" unfolding m3 m2 using nx(1) q by auto
  have tm: "mem t a = (if a = l then q else mem s3 a)" for a
    unfolding t pin_bottom_def Let_def q(1) [symmetric] s1_def [symmetric] s2_def [symmetric]
      s3_def [symmetric] p_self_def v3 by simp
  show "mem t q = mem s bp" "mem t (q + 4) = l" "mem t (q + 8) = bs - n" "mem t (q + 12) = at" "mem t l = q"
    unfolding tm m3 m2 using q l nx(1) by auto
  show "mem s bp \<noteq> PAGE_ERROR \<longrightarrow> mem t (mem s bp + 4) = q" unfolding tm m3 by simp
  show "page_zones t = page_zones s"
    unfolding t pin_bottom_def by (simp add: Let_def mem_relink_next copy_ctl_def page_set_defs)
  show "mem t a = mem s a" if "a < q \<or> q + 16 \<le> a" "a \<noteq> l" "mem s bp \<noteq> PAGE_ERROR \<longrightarrow> a \<noteq> mem s bp + 4" for a
  proof -
    have "a \<noteq> q" "a \<noteq> q + 4" "a \<noteq> q + 8" "a \<noteq> q + 12" using that(1) by linarith+
    then show ?thesis unfolding tm m3 m2 using that(2,3) by auto
  qed
qed

lemma pin_middle_mem:
  assumes q: "q = r + n" "bp + 4096 \<le> r" "4096 \<le> n" "q + 4096 \<le> bp + bs"
    and ctl: "mem s (bp + 4) = l" "mem s (bp + 8) = bs" "mem s (bp + 12) = at"
    and nx: "mem s bp \<noteq> PAGE_ERROR \<longrightarrow> bp + bs \<le> mem s bp"
    and t: "t = set_p_size bp (r - bp) (pin_middle bp r n s)"
  shows "mem t q = mem s bp" "mem t (q + 4) = bp" "mem t (q + 8) = bs - (q - bp)" "mem t (q + 12) = at"
    "mem t bp = q" "mem t (bp + 8) = r - bp"
    "mem s bp \<noteq> PAGE_ERROR \<longrightarrow> mem t (mem s bp + 4) = q" "page_zones t = page_zones s"
    "\<And>a. a < q \<or> q + 16 \<le> a \<Longrightarrow> a \<noteq> bp \<Longrightarrow> a \<noteq> bp + 8 \<Longrightarrow>
      (mem s bp \<noteq> PAGE_ERROR \<longrightarrow> a \<noteq> mem s bp + 4) \<Longrightarrow> mem t a = mem s a"
proof -
  define s1 where "s1 = copy_ctl q bp s"
  define s2 where "s2 = relink_next q s1"
  define s3 where "s3 = set_p_self q bp s2"
  define s4 where "s4 = set_p_size q (p_size s3 q - (q - bp)) s3"
  have ap: "bp + 16 \<le> q \<or> q + 16 \<le> bp" using q by simp
  have m1: "mem s1 a = (if a = q then mem s bp else if a = q + 4 then l else if a = q + 8 then bs
      else if a = q + 12 then at else mem s a)" for a
    using ctl by (simp add: s1_def mem_copy_ctl [OF ap])
  have m2: "mem s2 a = (if mem s bp \<noteq> PAGE_ERROR \<and> a = mem s bp + 4 then q else mem s1 a)" for a
    unfolding s2_def mem_relink_next by (simp add: m1)
  have v3: "mem s3 (q + 8) = bs" unfolding s3_def set_p_self_def using nx q by (auto simp: m2 m1)
  have m4: "mem s4 a = (if a = q + 8 then bs - (q - bp) else if a = q + 4 then bp else mem s2 a)" for a
    unfolding s4_def p_size_def set_p_size_def v3 by (simp add: s3_def set_p_self_def)
  have tm: "mem t a = (if a = bp + 8 then r - bp else if a = bp then q else mem s4 a)" for a
    unfolding t pin_middle_def Let_def q(1) [symmetric] s1_def [symmetric] s2_def [symmetric]
      s3_def [symmetric] s4_def [symmetric] by (simp add: page_set_defs)
  show "mem t q = mem s bp" "mem t (q + 4) = bp" "mem t (q + 8) = bs - (q - bp)" "mem t (q + 12) = at"
    "mem t bp = q" "mem t (bp + 8) = r - bp"
    unfolding tm m4 m2 m1 using q nx by auto
  show "mem s bp \<noteq> PAGE_ERROR \<longrightarrow> mem t (mem s bp + 4) = q" unfolding tm m4 m2 using q nx by auto
  show "page_zones t = page_zones s"
    unfolding t pin_middle_def by (simp add: Let_def mem_relink_next copy_ctl_def page_set_defs)
  show "mem t a = mem s a" if "a < q \<or> q + 16 \<le> a" "a \<noteq> bp" "a \<noteq> bp + 8"
    "mem s bp \<noteq> PAGE_ERROR \<longrightarrow> a \<noteq> mem s bp + 4" for a
  proof -
    have "a \<noteq> q" "a \<noteq> q + 4" "a \<noteq> q + 8" "a \<noteq> q + 12" using that(1) by linarith+
    then show ?thesis unfolding tm m4 m2 m1 using that(2-4) by auto
  qed
qed


text \<open>What is left of a range \<open>(bp, bs, at)\<close> when the block \<open>r ..< r + n\<close> is taken out of it.\<close>

definition cut :: "frange \<Rightarrow> nat \<Rightarrow> nat \<Rightarrow> frange list" where
  "cut b r n = (case b of (bp, bs, at) \<Rightarrow>
     (if r = bp then [] else [(bp, r - bp, at)]) @
     (if r + n = bp + bs then [] else [(r + n, bs - (r + n - bp), at)]))"

lemma cut_free_bytes:
  "bp \<le> r \<Longrightarrow> r + n \<le> bp + bs \<Longrightarrow> free_bytes (cut (bp, bs, at) r n) = {bp ..< bp + bs} - {r ..< r + n}"
  by (auto simp: cut_def)

lemma cut_franges:
  assumes f: "franges lo hi (ys @ (bp, bs, at) # zs)" and r: "bp \<le> r" "r + n \<le> bp + bs"
    and al: "4096 dvd r" "4096 dvd n" "0 < n"
  shows "franges lo hi (ys @ cut (bp, bs, at) r n @ zs)"
proof -
  have "franges (bp + bs + 1) hi zs" and b: "4096 dvd bp" "4096 dvd bs" "bp + bs \<le> hi"
    "(if ys = [] then lo else fst (last ys) + fst (snd (last ys)) + 1) \<le> bp" and ys: "franges lo hi ys"
    using f by (simp_all add: franges_append)
  then have zs: "franges lo' hi zs" if "lo' \<le> bp + bs + 1" for lo' using that franges_mono by blast
  have e: "r + n + (bs - (r + n - bp)) = bp + bs" using r by simp
  have d: "4096 dvd r - bp" "4096 dvd bs - (r + n - bp)" using b al r by (simp_all add: dvd_diff_nat)
  show ?thesis using ys b d e al r zs by (auto simp: cut_def franges_append)
qed

lemma zone_cutI:
  assumes ok: "zone_ok s z (ys @ (bp, bs, at) # zs)" and z: "z < MZONE_REAL_COUNT"
    and host: "VM_HOST_BASE \<le> page_zones s" and l: "l = pend (z_root_at s z) ys" and pz: "page_zones t = page_zones s"
    and keep: "\<And>a. a < bp \<or> bp + bs \<le> a \<Longrightarrow> a \<noteq> l \<Longrightarrow> (mem s bp \<noteq> PAGE_ERROR \<longrightarrow> a \<noteq> mem s bp + 4) \<Longrightarrow>
      mem t a = mem s a"
    and new: "pseg t l new" "mem t (pend l new) = mem s bp"
      "mem s bp \<noteq> PAGE_ERROR \<longrightarrow> mem t (mem s bp + 4) = pend l new"
    and fr: "franges (MZONE_MIN z) (MZONE_MAX z + 1) (ys @ new @ zs)" and zr: "zero_ranges t new"
  shows "zone_ok t z (ys @ new @ zs)"
    "same_outside (insert (z_root_at s z) (free_bytes (ys @ (bp, bs, at) # zs))) s t"
proof -
  note mid = zone_mid [OF ok z host] and nx = zone_mid_next [OF ok z host]
  have f: "franges (MZONE_MIN z) (MZONE_MAX z + 1) (ys @ (bp, bs, at) # zs)" using ok by (simp add: zone_ok_def)
  show "zone_ok t z (ys @ new @ zs)"
  proof (rule zone_splice [where old = "[(bp, bs, at)]" and s = s])
    show "mem t a = mem s a" if a: "a = z_root_at s z \<or> a \<in> free_bytes ys \<or> a \<in> free_bytes zs"
      "a \<noteq> pend (z_root_at s z) ys" "zs \<noteq> [] \<Longrightarrow> a \<noteq> fst (hd zs) + 4" for a
      by (rule keep [OF mid(14) [OF a(1)]]) (use a(2,3) l mid(5) in auto)
    show "p_self t (fst (hd zs)) = pend (z_root_at s z) (ys @ new)" if "zs \<noteq> []"
      using new(3) nx(2) [OF that] l by (simp add: p_self_def)
  qed (use ok z host pz new fr zr l in simp_all)
  show "same_outside (insert (z_root_at s z) (free_bytes (ys @ (bp, bs, at) # zs))) s t"
    unfolding same_outside_def
  proof (intro conjI allI impI pz)
    fix a assume a: "a \<notin> insert (z_root_at s z) (free_bytes (ys @ (bp, bs, at) # zs))"
    have "a \<noteq> l"
      using a l pend_cases [of "MZONE_MIN z" "MZONE_MAX z + 1" ys] f by (auto simp: franges_append)
    moreover have "mem s bp \<noteq> PAGE_ERROR \<longrightarrow> a \<noteq> mem s bp + 4"
      using a mid(5) hd_ctl_bytes [of _ _ "ys @ [(bp, bs, at)]" zs 4] f by auto
    ultimately show "mem t a = mem s a" using keep [of a] a by auto
  qed
qed

lemma zone_mid_cells:
  assumes ok: "zone_ok s z (ys @ (bp, bs, at) # zs)" and z: "z < MZONE_REAL_COUNT"
    and host: "VM_HOST_BASE \<le> page_zones s" and l: "l = pend (z_root_at s z) ys"
  shows "mem s (bp + 4) = l" "mem s (bp + 8) = bs" "mem s (bp + 12) = at" "mem s l = bp" "l < bp \<or> bp + bs \<le> l"
    "4096 \<le> bs" "mem s bp \<noteq> PAGE_ERROR \<longrightarrow> bp + bs \<le> mem s bp"
    "mem s bp \<noteq> PAGE_ERROR \<longrightarrow> l \<noteq> mem s bp + 4" "4096 dvd bp" "bp + bs \<le> VM_HOST_BASE"
    "\<And>a. zero_attr at \<Longrightarrow> 4 dvd a \<Longrightarrow> bp + 16 \<le> a \<Longrightarrow> a < bp + bs \<Longrightarrow> mem s a = 0"
    "mem s bp \<noteq> PAGE_ERROR \<longrightarrow> mem s (mem s bp + 4) = bp"
  using zone_mid [OF ok z host, folded l] zone_mid_next(1) [OF ok z host]
  by (auto simp: p_self_def p_size_def p_attr_def zero_range_def split: if_splits)

lemma zone_cut_top:
  assumes ok: "zone_ok s z (ys @ (bp, bs, at) # zs)" and z: "z < MZONE_REAL_COUNT"
    and host: "VM_HOST_BASE \<le> page_zones s" and l: "l = pend (z_root_at s z) ys"
    and fr: "franges (MZONE_MIN z) (MZONE_MAX z + 1) (ys @ cut (bp, bs, at) r n @ zs)"
    and r: "bp + 4096 \<le> r" "r + n = bp + bs" and t: "t = pin_split bp r n attr s"
  shows "zone_ok t z (ys @ cut (bp, bs, at) r n @ zs)"
    "same_outside (insert (z_root_at s z) (free_bytes (ys @ (bp, bs, at) # zs))) s t"
    "zero_attr at \<longrightarrow> zero_attr attr \<longrightarrow> zeroed t r n"
proof -
  note c = zone_mid_cells [OF ok z host l]
  have tm: "mem t a = (if a = bp + 8 then r - bp else mem s a)" for a
    unfolding t pin_split_def Let_def using r c(2) by (simp add: PAGE_END_def p_size_def set_p_size_def)
  have pz: "page_zones t = page_zones s"
    unfolding t pin_split_def Let_def using r c(2) by (simp add: PAGE_END_def p_size_def set_p_size_def)
  have ct: "cut (bp, bs, at) r n = [(bp, r - bp, at)]" using r by (simp add: cut_def)
  have keep: "mem t a = mem s a" if "a < bp \<or> bp + bs \<le> a" for a using that c(6) by (auto simp: tm)
  have sg: "pseg t l [(bp, r - bp, at)]"
    using c(1,3,4,5,6) by (auto simp: tm page_get_defs)
  have bck: "mem s bp \<noteq> PAGE_ERROR \<longrightarrow> mem t (mem s bp + 4) = bp"
    using c(6,7,12) by (auto simp: tm)
  have zr: "zero_ranges t [(bp, r - bp, at)]"
    using c(11) r by (auto simp: tm zero_range_def)
  show "zone_ok t z (ys @ cut (bp, bs, at) r n @ zs)"
    "same_outside (insert (z_root_at s z) (free_bytes (ys @ (bp, bs, at) # zs))) s t"
    using zone_cutI [OF ok z host l pz keep sg _ _ _ zr] fr bck unfolding ct by (simp_all add: tm)
  show "zero_attr at \<longrightarrow> zero_attr attr \<longrightarrow> zeroed t r n"
    using c(11) r by (auto simp: tm zeroed_def)
qed


lemma zone_cut_whole:
  assumes ok: "zone_ok s z (ys @ (bp, bs, at) # zs)" and z: "z < MZONE_REAL_COUNT"
    and host: "VM_HOST_BASE \<le> page_zones s" and l: "l = pend (z_root_at s z) ys"
    and fr: "franges (MZONE_MIN z) (MZONE_MAX z + 1) (ys @ cut (bp, bs, at) r n @ zs)"
    and r: "r = bp" "n = bs" and t: "t = pin_split bp r n attr s"
  shows "zone_ok t z (ys @ cut (bp, bs, at) r n @ zs)"
    "same_outside (insert (z_root_at s z) (free_bytes (ys @ (bp, bs, at) # zs))) s t"
    "zero_attr at \<longrightarrow> zero_attr attr \<longrightarrow> zeroed t r n"
proof -
  note c = zone_mid_cells [OF ok z host l]
  define u where "u = pin_unlink bp s"
  have mu: "mem u a = (if mem s bp \<noteq> PAGE_ERROR \<and> a = mem s bp + 4 then l else if a = l then mem s bp else mem s a)" for a
    using zone_mid(5,12) [OF ok z host]
    by (auto simp: u_def pin_unlink_mem(1) [OF ok z host] page_unlink_mem(1) [OF ok z host] l)
  have tm: "mem t a = (if zero_attr at \<and> zero_attr attr \<and> a \<in> {bp, bp + 4, bp + 8, bp + 12} then 0 else mem u a)" for a
    unfolding t pin_split_def Let_def using r c(2,3) by (auto simp: u_def p_size_def p_attr_def)
  have pz: "page_zones t = page_zones s"
    unfolding t pin_split_def Let_def using r c(2) by (simp add: p_size_def pin_unlink_mem(2) [OF ok z host])
  have ct: "cut (bp, bs, at) r n = []" using r by (simp add: cut_def)
  have tu: "mem t a = mem u a" if "a < bp \<or> bp + bs \<le> a" for a using that c(6) by (auto simp: tm)
  have keep: "mem t a = mem s a"
    if "a < bp \<or> bp + bs \<le> a" "a \<noteq> l" "mem s bp \<noteq> PAGE_ERROR \<longrightarrow> a \<noteq> mem s bp + 4" for a
    using that by (auto simp: tu mu)
  have link: "mem t (pend l []) = mem s bp" using tu [OF c(5)] c(8) by (auto simp: mu)
  have bck: "mem s bp \<noteq> PAGE_ERROR \<longrightarrow> mem t (mem s bp + 4) = pend l []"
    using tu [of "mem s bp + 4"] c(7) by (auto simp: mu)
  show "zone_ok t z (ys @ cut (bp, bs, at) r n @ zs)"
    "same_outside (insert (z_root_at s z) (free_bytes (ys @ (bp, bs, at) # zs))) s t"
    using zone_cutI [OF ok z host l pz keep _ link bck] fr unfolding ct by simp_all
  show "zero_attr at \<longrightarrow> zero_attr attr \<longrightarrow> zeroed t r n"
    unfolding zeroed_def
  proof (intro impI allI)
    fix a assume a: "zero_attr at" "zero_attr attr" "4 dvd a" "r \<le> a" "a < r + n"
    have u: "mem u a = mem s a" using a(4,5) r c(5,7) by (auto simp: mu)
    show "mem t a = 0"
    proof (cases "a < bp + 16")
      case True then show ?thesis using ctl_cells [OF a(3) c(9)] a r by (simp add: tm)
    next
      case False then show ?thesis using u c(11) [OF a(1,3)] a r by (simp add: tm)
    qed
  qed
qed

lemma zone_cut_bottom:
  assumes ok: "zone_ok s z (ys @ (bp, bs, at) # zs)" and z: "z < MZONE_REAL_COUNT"
    and host: "VM_HOST_BASE \<le> page_zones s" and l: "l = pend (z_root_at s z) ys"
    and fr: "franges (MZONE_MIN z) (MZONE_MAX z + 1) (ys @ cut (bp, bs, at) r n @ zs)"
    and r: "r = bp" "n + 4096 \<le> bs" "4096 \<le> n" and t: "t = pin_split bp r n attr s"
  shows "zone_ok t z (ys @ cut (bp, bs, at) r n @ zs)"
    "same_outside (insert (z_root_at s z) (free_bytes (ys @ (bp, bs, at) # zs))) s t"
    "zero_attr at \<longrightarrow> zero_attr attr \<longrightarrow> zeroed t r n"
proof -
  note c = zone_mid_cells [OF ok z host l]
  define u where "u = pin_bottom bp n s"
  note m = pin_bottom_mem [OF refl r(3,2) c(10,5,1,2,3,7,8) u_def]
  have tm: "mem t a = (if zero_attr at \<and> zero_attr attr \<and> a \<in> {bp, bp + 4, bp + 8, bp + 12} then 0 else mem u a)" for a
    unfolding t pin_split_def Let_def using r c(2,3) by (auto simp: u_def p_size_def p_attr_def)
  have pz: "page_zones t = page_zones s"
    unfolding t pin_split_def Let_def using r c(2) m(7) by (auto simp: u_def p_size_def)
  have ct: "cut (bp, bs, at) r n = [(bp + n, bs - n, at)]" using r by (simp add: cut_def)
  have tu: "mem t a = mem u a" if "a < bp \<or> bp + 16 \<le> a" for a using that by (auto simp: tm)
  have keep: "mem t a = mem s a"
    if "a < bp \<or> bp + bs \<le> a" "a \<noteq> l" "mem s bp \<noteq> PAGE_ERROR \<longrightarrow> a \<noteq> mem s bp + 4" for a
    using that r m(8) [of a] tu [of a] c(6) by auto
  have sg: "pseg t l [(bp + n, bs - n, at)]" "mem t (pend l [(bp + n, bs - n, at)]) = mem s bp"
    using tu [of l] tu [of "bp + n"] tu [of "bp + n + 4"] tu [of "bp + n + 8"] tu [of "bp + n + 12"] m(1-5) r c(5,6)
    by (auto simp: page_get_defs)
  have bck: "mem s bp \<noteq> PAGE_ERROR \<longrightarrow> mem t (mem s bp + 4) = pend l [(bp + n, bs - n, at)]"
    using tu [of "mem s bp + 4"] m(6) c(6,7) by auto
  have old: "mem u a = mem s a" if "bp \<le> a" "a < bp + bs" "a < bp + n \<or> bp + n + 16 \<le> a" for a
    by (rule m(8)) (use that c(5,7) in auto)
  have zr: "zero_ranges t [(bp + n, bs - n, at)]"
    using tu old c(11) r by (auto simp: zero_range_def)
  show "zone_ok t z (ys @ cut (bp, bs, at) r n @ zs)"
    "same_outside (insert (z_root_at s z) (free_bytes (ys @ (bp, bs, at) # zs))) s t"
    using zone_cutI [OF ok z host l pz keep sg bck _ zr] fr unfolding ct by simp_all
  show "zero_attr at \<longrightarrow> zero_attr attr \<longrightarrow> zeroed t r n"
    unfolding zeroed_def
  proof (intro impI allI)
    fix a assume a: "zero_attr at" "zero_attr attr" "4 dvd a" "r \<le> a" "a < r + n"
    show "mem t a = 0"
    proof (cases "a < bp + 16")
      case True then show ?thesis using ctl_cells [OF a(3) c(9)] a r by (simp add: tm)
    next
      case False then show ?thesis using old [of a] c(11) [OF a(1,3)] a r by (simp add: tm)
    qed
  qed
qed

lemma zone_cut_middle:
  assumes ok: "zone_ok s z (ys @ (bp, bs, at) # zs)" and z: "z < MZONE_REAL_COUNT"
    and host: "VM_HOST_BASE \<le> page_zones s" and l: "l = pend (z_root_at s z) ys"
    and fr: "franges (MZONE_MIN z) (MZONE_MAX z + 1) (ys @ cut (bp, bs, at) r n @ zs)"
    and r: "bp + 4096 \<le> r" "r + n + 4096 \<le> bp + bs" "4096 \<le> n" and t: "t = pin_split bp r n attr s"
  shows "zone_ok t z (ys @ cut (bp, bs, at) r n @ zs)"
    "same_outside (insert (z_root_at s z) (free_bytes (ys @ (bp, bs, at) # zs))) s t"
    "zero_attr at \<longrightarrow> zero_attr attr \<longrightarrow> zeroed t r n"
proof -
  note c = zone_mid_cells [OF ok z host l]
  have t': "t = set_p_size bp (r - bp) (pin_middle bp r n s)"
    unfolding t pin_split_def Let_def using r c(2) by (simp add: PAGE_END_def p_size_def)
  note m = pin_middle_mem [OF refl r(1,3,2) c(1-3,7) t']
  let ?hi = "(r + n, bs - (r + n - bp), at)"
  have ct: "cut (bp, bs, at) r n = [(bp, r - bp, at), ?hi]" using r by (simp add: cut_def)
  have keep: "mem t a = mem s a"
    if "a < bp \<or> bp + bs \<le> a" "mem s bp \<noteq> PAGE_ERROR \<longrightarrow> a \<noteq> mem s bp + 4" for a
    by (rule m(9)) (use that r c(6) in auto)
  have lk: "mem t l = bp" using keep [of l] c(4,5,8) by auto
  have old: "mem t a = mem s a" if "bp + 12 \<le> a" "a < bp + bs" "a < r + n \<or> r + n + 16 \<le> a" for a
    by (rule m(9)) (use that c(7) in auto)
  have b4: "mem t (bp + 4) = l"
    using m(9) [of "bp + 4"] c(1,7) r by auto
  have b12: "mem t (bp + 12) = at" using old [of "bp + 12"] c(3) r by auto
  have sg: "pseg t l [(bp, r - bp, at), ?hi]" "mem t (pend l [(bp, r - bp, at), ?hi]) = mem s bp"
    using lk b4 b12 m(1-6) by (auto simp: page_get_defs)
  have bck: "mem s bp \<noteq> PAGE_ERROR \<longrightarrow> mem t (mem s bp + 4) = pend l [(bp, r - bp, at), ?hi]" using m(7) by simp
  have zr: "zero_ranges t [(bp, r - bp, at), ?hi]"
    using old c(11) r by (auto simp: zero_range_def)
  show "zone_ok t z (ys @ cut (bp, bs, at) r n @ zs)"
    "same_outside (insert (z_root_at s z) (free_bytes (ys @ (bp, bs, at) # zs))) s t"
    using zone_cutI [OF ok z host l m(8) keep sg bck _ zr] fr unfolding ct by simp_all
  show "zero_attr at \<longrightarrow> zero_attr attr \<longrightarrow> zeroed t r n"
    using old c(11) r by (auto simp: zeroed_def)
qed


lemma zone_cut:
  assumes ok: "zone_ok s z (ys @ (bp, bs, at) # zs)" and z: "z < MZONE_REAL_COUNT"
    and host: "VM_HOST_BASE \<le> page_zones s"
    and r: "bp \<le> r" "r + n \<le> bp + bs" and al: "4096 dvd r" "4096 dvd n" "0 < n"
    and t: "t = pin_split bp r n attr s"
  shows "zone_ok t z (ys @ cut (bp, bs, at) r n @ zs)"
    "same_outside (insert (z_root_at s z) (free_bytes (ys @ (bp, bs, at) # zs))) s t"
    "zero_attr at \<longrightarrow> zero_attr attr \<longrightarrow> zeroed t r n"
proof -
  have f: "franges (MZONE_MIN z) (MZONE_MAX z + 1) (ys @ (bp, bs, at) # zs)" using ok by (simp add: zone_ok_def)
  note fr = cut_franges [OF f r al]
  have b: "4096 dvd bp" "4096 dvd bp + bs" using franges_member [OF f, of bp bs at] by simp_all
  have n: "4096 \<le> n" using al by (auto dest: dvd_imp_le)
  have "r = bp \<or> bp + 4096 \<le> r" using page_dvd_less_imp_le [OF b(1) al(1)] r(1) by linarith
  moreover have "r + n = bp + bs \<or> r + n + 4096 \<le> bp + bs"
    using page_dvd_less_imp_le [of "r + n" "bp + bs"] al b(2) r(2) by (simp add: le_eq_less_or_eq) blast
  ultimately consider (whole) "r = bp" "n = bs" | (bottom) "r = bp" "n + 4096 \<le> bs"
    | (top) "bp + 4096 \<le> r" "r + n = bp + bs" | (middle) "bp + 4096 \<le> r" "r + n + 4096 \<le> bp + bs"
    by fastforce
  then have "zone_ok t z (ys @ cut (bp, bs, at) r n @ zs) \<and>
    same_outside (insert (z_root_at s z) (free_bytes (ys @ (bp, bs, at) # zs))) s t \<and>
    (zero_attr at \<longrightarrow> zero_attr attr \<longrightarrow> zeroed t r n)"
  proof cases
    case whole show ?thesis by (intro conjI zone_cut_whole [OF ok z host refl fr whole t])
  next
    case bottom show ?thesis by (intro conjI zone_cut_bottom [OF ok z host refl fr bottom n t])
  next
    case top show ?thesis by (intro conjI zone_cut_top [OF ok z host refl fr top t])
  next
    case middle show ?thesis by (intro conjI zone_cut_middle [OF ok z host refl fr middle n t])
  qed
  then show "zone_ok t z (ys @ cut (bp, bs, at) r n @ zs)"
    "same_outside (insert (z_root_at s z) (free_bytes (ys @ (bp, bs, at) # zs))) s t"
    "zero_attr at \<longrightarrow> zero_attr attr \<longrightarrow> zeroed t r n" by blast+
qed

lemma pin_stats_simps [simp]:
  "mem (pin_stats z n s) = mem s" "page_zones (pin_stats z n s) = page_zones s"
  by (simp_all add: pin_stats_def)

text \<open>Writes outside a zone's free memory and its list head do not matter to it.\<close>

lemma pin_take_got:
  assumes wf: "pwf s X" and z: "z < MZONE_REAL_COUNT" and b: "(bp, bs, at) \<in> set (X z)"
    and r: "bp \<le> r" "r + n \<le> bp + bs" and al: "4096 dvd r" "4096 dvd n" "0 < n"
    and u: "u = pin_stats z n (pin_split bp r n attr s)"
    and t: "t = (if \<not> zero_attr at \<and> zero_attr attr then memsetl r 0 (n div 4) u else u)"
  shows "page_got s X attr z r n t"
proof -
  obtain ys zs where X: "X z = ys @ (bp, bs, at) # zs" using b by (meson split_list)
  have host: "VM_HOST_BASE \<le> page_zones s" and ok: "zone_ok s z (ys @ (bp, bs, at) # zs)"
    using wf z X by (auto simp: pwf_def)
  let ?xs = "ys @ cut (bp, bs, at) r n @ zs"
  note c = zone_cut [OF ok z host r al refl, of attr] and mid = zone_mid [OF ok z host]
  have n4: "4 * (n div 4) = n" using al(2) dvd_mult_div_cancel dvd_trans [of 4 4096 n] by fastforce
  have su: "same_outside {} (pin_split bp r n attr s) u" by (simp add: u same_outside_def)
  have st: "same_outside {r ..< r + n} u t" using n4 by (simp add: t same_outside_def)
  have s1: "same_outside {r ..< r + n} (pin_split bp r n attr s) t"
    by (rule same_outside_trans [OF su st]) simp
  have ss: "same_outside (insert (z_root_at s z) (free_bytes (X z))) s t"
    by (rule same_outside_trans [OF c(2) s1]) (use X r in auto)
  have fb: "free_bytes ?xs = free_bytes (X z) - {r ..< r + n}"
  proof -
    have "x \<notin> {bp ..< bp + bs}" if "x \<in> free_bytes ys \<union> free_bytes zs" for x
      using mid(14) that by fastforce
    then show ?thesis using r unfolding X by (fastforce simp: cut_free_bytes [OF r])
  qed
  have ok': "zone_ok t z ?xs"
  proof (rule zone_ok_frame [OF c(1) s1])
    have "z_root_at (pin_split bp r n attr s) z = z_root_at s z" by (rule z_root_at_same [OF c(2)])
    moreover have "z_root_at s z \<notin> {r ..< r + n}" using mid(14) [of "z_root_at s z"] r by auto
    ultimately show "{r ..< r + n} \<inter> insert (z_root_at (pin_split bp r n attr s) z) (free_bytes ?xs) = {}"
      using fb by auto
  qed
  have "pwf t (X(z := ?xs))" by (rule pwf_update [OF wf z ok' ss zone_free_bytes [OF wf z]])
  moreover have "zero_attr attr \<longrightarrow> zeroed t r n"
    using c(3) n4 by (auto simp: t u zeroed_def)
  moreover have "{r ..< r + n} \<subseteq> free_bytes (X z)" using r X by auto
  ultimately show ?thesis unfolding page_got_def using fb al ss by blast
qed

lemma page_malloc_in_attempt:
  assumes wf: "pwf s X" and z: "z < MZONE_REAL_COUNT" and b: "mn \<le> mx" "mx + n < U32" "0 < n"
    and al: "4096 dvd mx" "4096 dvd n"
  shows "page_malloc_in_zone s mn mx n attr z = Some (PAGE_ERROR, s) \<and> (\<forall>r\<in>set (X z). \<not> pin_fits mn mx n r) \<or>
    (\<exists>r t. page_malloc_in_zone s mn mx n attr z = Some (r, t) \<and> r \<noteq> PAGE_ERROR \<and>
       mn \<le> r \<and> r \<le> mx \<and> page_got s X attr z r n t \<and> (\<exists>b\<in>set (X z). pin_fits mn mx n b))"
proof -
  have ok: "zone_ok s z (X z)" using wf z by (simp add: pwf_def)
  then have pl: "plist s (z_root_at s z) (X z)" and f: "franges (MZONE_MIN z) (MZONE_MAX z + 1) (X z)"
    by (simp_all add: zone_ok_def)
  have hi: "MZONE_MAX z + 1 \<le> VM_HOST_BASE" using zone_max_below_host [OF z] by simp
  from pin_search_correct [OF pl f hi b, of PAGE_ERROR PAGE_ERROR] obtain bp bs where
    se: "pin_search s mn mx n (z_root s z) PAGE_ERROR PAGE_ERROR = Some (bp, bs)"
    and d: "(bp, bs) = (PAGE_ERROR, PAGE_ERROR) \<and> (\<forall>r\<in>set (X z). \<not> pin_fits mn mx n r) \<or>
     (\<exists>sz at. (bp, sz, at) \<in> set (X z) \<and> pin_fits mn mx n (bp, sz, at))" by (auto simp: z_root_def)
  from d show ?thesis
  proof (elim disjE exE conjE)
    assume "(bp, bs) = (PAGE_ERROR, PAGE_ERROR)" "\<forall>r\<in>set (X z). \<not> pin_fits mn mx n r"
    then show ?thesis using se by (simp add: page_malloc_in_zone_def)
  next
    fix sz at assume m: "(bp, sz, at) \<in> set (X z)" and fit: "pin_fits mn mx n (bp, sz, at)"
    note rb = range_below_host [OF wf z m]
    obtain ys zs where X: "X z = ys @ (bp, sz, at) # zs" using m by (meson split_list)
    have host: "VM_HOST_BASE \<le> page_zones s" using wf by (simp add: pwf_def)
    note c = zone_mid_cells [OF ok [unfolded X] z host refl]
    have ps: "p_size s bp = sz" "p_attr s bp = at" using c(2,3) by (simp_all add: p_size_def p_attr_def)
    define top where "top = bp + (sz - n)"
    define r where "r = (if mx < top then mx else top)"
    define u where "u = pin_stats z n (pin_split bp r n attr s)"
    have ne: "bp \<noteq> PAGE_ERROR" using rb by auto
    have bounds: "mn \<le> r" "r \<le> mx" "bp \<le> r" "r + n \<le> bp + sz"
      using fit b by (auto simp: pin_fits_def r_def top_def)
    have ar: "4096 dvd r" using rb al fit unfolding r_def top_def by (auto simp: pin_fits_def intro: dvd_diff_nat)
    have "page_malloc_in_zone s mn mx n attr z =
        Some (r, if \<not> zero_attr at \<and> zero_attr attr then memsetl r 0 (n div 4) u else u)"
      using se ne unfolding page_malloc_in_zone_def by (simp add: Let_def ps top_def [symmetric] r_def [symmetric] u_def)
    moreover have "r \<noteq> PAGE_ERROR" using bounds(4) rb(1) by auto
    ultimately show ?thesis
      using pin_take_got [OF wf z m bounds(3,4) ar al(2) b(3) u_def refl] bounds(1,2) m fit by blast
  qed
qed


lemma page_malloc_in_loop_cases:
  assumes wf: "pwf s X" and z: "z < MZONE_REAL_COUNT" and b: "mn \<le> mx" "mx + n < U32" "0 < n"
    and al: "4096 dvd mx" "4096 dvd n"
  shows "page_malloc_in_loop s mn mx n attr z zm = Some (PAGE_ERROR, s) \<and>
      (\<forall>y. zm \<le> y \<longrightarrow> y \<le> z \<longrightarrow> (\<forall>r\<in>set (X y). \<not> pin_fits mn mx n r)) \<or>
    (\<exists>r t y. page_malloc_in_loop s mn mx n attr z zm = Some (r, t) \<and> r \<noteq> PAGE_ERROR \<and>
       zm \<le> y \<and> y \<le> z \<and> mn \<le> r \<and> r \<le> mx \<and> page_got s X attr y r n t \<and> (\<exists>b\<in>set (X y). pin_fits mn mx n b))"
  using z
proof (induction z)
  case 0
  from page_malloc_in_attempt [OF wf 0 b al, of attr] show ?case
    by (cases "zm = 0") (auto simp: page_malloc_in_loop.simps [of s mn mx n attr 0])
next
  case (Suc z)
  show ?case
  proof (cases "Suc z < zm")
    case True
    then show ?thesis by (subst (1 2) page_malloc_in_loop.simps) auto
  next
    case False
    from page_malloc_in_attempt [OF wf Suc.prems b al, of attr] show ?thesis
    proof (elim disjE exE conjE)
      assume f: "page_malloc_in_zone s mn mx n attr (Suc z) = Some (PAGE_ERROR, s)"
        "\<forall>r\<in>set (X (Suc z)). \<not> pin_fits mn mx n r"
      then have e: "page_malloc_in_loop s mn mx n attr (Suc z) zm = page_malloc_in_loop s mn mx n attr z zm"
        using False by (subst page_malloc_in_loop.simps) simp
      show ?thesis unfolding e using Suc f(2) by (fastforce simp: le_Suc_eq)
    next
      fix r t assume f: "page_malloc_in_zone s mn mx n attr (Suc z) = Some (r, t)" "r \<noteq> PAGE_ERROR"
        "mn \<le> r" "r \<le> mx" "page_got s X attr (Suc z) r n t" "\<exists>b\<in>set (X (Suc z)). pin_fits mn mx n b"
      then have "page_malloc_in_loop s mn mx n attr (Suc z) zm = Some (r, t)"
        using False by (subst page_malloc_in_loop.simps) simp
      then show ?thesis using f False by (meson le_refl not_le)
    qed
  qed
qed

lemma pin_fits_zones:
  assumes wf: "pwf s X" and y: "y < MZONE_REAL_COUNT" and r: "r \<in> set (X y)" and fit: "pin_fits mn mx n r" and n: "0 < n"
  shows "mzone_of mn \<le> y" "y \<le> mzone_of mx"
proof -
  obtain p where p: "mn \<le> p" "p \<le> mx" "fst r \<le> p" "p + n \<le> fst r + fst (snd r)"
    using fit by (auto simp: pin_fits_def)
  have "MZONE_MIN y \<le> fst r" "fst r + fst (snd r) \<le> MZONE_MAX y + 1"
    using franges_member [of "MZONE_MIN y" "MZONE_MAX y + 1" "X y" "fst r" "fst (snd r)" "snd (snd r)"] wf y r
    by (auto simp: pwf_def zone_ok_def)
  then show "mzone_of mn \<le> y" "y \<le> mzone_of mx"
    using p n y by (auto simp: mzone_of_eq MZONE_REAL_COUNT_def less_2_cases_iff)
qed

lemma page_malloc_in_cases:
  assumes wf: "pwf s X" and n: "n \<noteq> 0" "n \<le> U32 - PAGESIZE" and b: "mn \<le> mx" "mx + CEIL_ALIGN n PAGESIZE < U32"
    and al: "4096 dvd mx"
  shows "page_malloc_in s mn mx n attr = Some (PAGE_ERROR, s) \<and>
      (\<forall>y<MZONE_REAL_COUNT. \<forall>r\<in>set (X y). \<not> pin_fits mn mx (CEIL_ALIGN n PAGESIZE) r) \<or>
    (\<exists>r t y. page_malloc_in s mn mx n attr = Some (r, t) \<and> r \<noteq> PAGE_ERROR \<and> y < MZONE_REAL_COUNT \<and>
       mn \<le> r \<and> r \<le> mx \<and> page_got s X attr y r (CEIL_ALIGN n PAGESIZE) t \<and>
       (\<exists>b\<in>set (X y). pin_fits mn mx (CEIL_ALIGN n PAGESIZE) b))"
proof -
  have m: "0 < CEIL_ALIGN n PAGESIZE" using CEIL_ALIGN_page_ge [OF n(2)] n(1) by simp
  note zb = mzone_of_bounds(1) [of mx]
  show ?thesis
    using page_malloc_in_loop_cases [OF wf zb b m al CEIL_ALIGN_page_dvd, of attr "mzone_of mn"] zb
      pin_fits_zones [OF wf _ _ _ m]
    unfolding page_malloc_in_def by (meson le_less_trans)
qed

text \<open>
  C5: \<open>page_malloc_in\<close> returns; it succeeds exactly when some free range has room for a block that
  starts between \<open>min\<close> and \<open>max\<close>, and then the block it returns starts there, was free, and is
  taken as \<open>page_malloc\<close> takes one. On failure nothing changes.
\<close>

theorem page_malloc_in_correct:
  assumes "pwf s X" and "n_bytes \<noteq> 0" and "n_bytes \<le> U32 - PAGESIZE" and "mn \<le> mx"
    and "mx + CEIL_ALIGN n_bytes PAGESIZE < U32" and "4096 dvd mx"
  shows "\<exists>p t. page_malloc_in s mn mx n_bytes attr = Some (p, t) \<and>
    (if \<exists>y<MZONE_REAL_COUNT. \<exists>r\<in>set (X y). pin_fits mn mx (CEIL_ALIGN n_bytes PAGESIZE) r
     then p \<noteq> PAGE_ERROR \<and> mn \<le> p \<and> p \<le> mx \<and>
       (\<exists>y<MZONE_REAL_COUNT. page_got s X attr y p (CEIL_ALIGN n_bytes PAGESIZE) t)
     else p = PAGE_ERROR \<and> t = s)"
  using page_malloc_in_cases [OF assms, of attr] by fastforce

theorem page_malloc_in_correct_witness:
  "\<exists>p t. page_malloc_in page_demo 0x1FF000 0x201000 4096 PAGEATTR_ZERO = Some (p, t) \<and>
     0x1FF000 \<le> p \<and> p \<le> 0x201000 \<and>
     (\<exists>y<MZONE_REAL_COUNT. page_got page_demo demo_ranges PAGEATTR_ZERO y p 4096 t)"
proof -
  have c: "CEIL_ALIGN 4096 PAGESIZE = 4096" by (simp add: CEIL_ALIGN_page add32_def)
  have "\<exists>y<MZONE_REAL_COUNT. \<exists>r\<in>set (demo_ranges y). pin_fits 0x1FF000 0x201000 4096 r"
    by (rule exI [of _ 1]) (auto simp: MZONE_REAL_COUNT_def demo_ranges_def pin_fits_def intro: exI [of _ "0x200000"])
  then show ?thesis
    using page_malloc_in_correct [OF page_demo_wf, of 4096 "0x1FF000" "0x201000" PAGEATTR_ZERO] c by auto
qed

lemma pin_demo:
  "pin_search page_demo 0x202000 0x200000 4096 (z_root page_demo 1) PAGE_ERROR PAGE_ERROR = Some (0x200000, 0x4000)"
  by (simp add: pin_search.simps page_demo_def z_root_def z_root_at_def PAGE_END_def p_size_def p_next_def
      add32_def sub32_def u32_def Let_def)

text \<open>
  The documentation of \<open>page_malloc_in\<close> says that it always fails when \<open>max < min\<close>. It does
  not: the unsigned difference \<open>iter_end - min\<close> wraps around, and a call with \<open>min\<close> above \<open>max\<close> can
  return a block below \<open>min\<close>.
\<close>

theorem page_malloc_in_inverted_range:
  "\<exists>t. page_malloc_in page_demo 0x202000 0x200000 4096 0 = Some (0x200000, t)"
proof -
  have "CEIL_ALIGN 4096 PAGESIZE = 4096" by (simp add: CEIL_ALIGN_page add32_def)
  moreover have "p_size page_demo 0x200000 = 0x4000" by (simp add: page_demo_def p_size_def)
  ultimately show ?thesis
    using pin_demo unfolding page_malloc_in_def
    by (simp add: mzone_of_eq page_malloc_in_loop.simps [of _ _ _ _ _ "Suc 0"] page_malloc_in_zone_def Let_def)
qed

lemma page_malloc_in_source:
  assumes "n \<noteq> 0" and "n \<le> U32 - PAGESIZE" and "mn \<le> mx" and "mx + CEIL_ALIGN n PAGESIZE < U32" and "4096 dvd mx"
  shows "page_source (\<lambda>s. page_malloc_in s mn mx n attr) (CEIL_ALIGN n PAGESIZE) attr"
proof unfold_locales
  fix s A assume "pages s A"
  then obtain X where X: "pwf s X" "all_free X = A" by (auto simp: pages_def)
  from page_malloc_in_cases [OF X(1) assms, of attr]
  show "page_malloc_in s mn mx n attr = Some (PAGE_ERROR, s) \<or>
    (\<exists>p t. page_malloc_in s mn mx n attr = Some (p, t) \<and> p \<noteq> PAGE_ERROR \<and>
       page_take A attr (CEIL_ALIGN n PAGESIZE) s p t)"
    using page_got_take [OF X(1)] X(2) by metis
qed (simp_all add: CEIL_ALIGN_page_less)

end
