(* ===== verification/Page_Realloc.thy ===== *)
theory Page_Realloc
  imports Page_Alloc_In
begin

text \<open>
  \<open>page_memalign\<close>, \<open>page_realloc_inplace\<close>, \<open>page_realloc\<close> and the page movers of
  \<open>src/src/kernel/memory/memory.c\<close>, clients of the allocators. They are proved from what a source of
  memory promises (\<open>page_take\<close>) and what \<open>page_ffree\<close> does, without looking at the lists.
\<close>

subsection \<open>The code\<close>

definition page_memalign :: "pstate \<Rightarrow> nat \<Rightarrow> nat \<Rightarrow> nat \<Rightarrow> nat \<Rightarrow> (nat \<times> pstate) option" where
  "page_memalign s alignment n_bytes attr zone_id =
     (if alignment \<le> PAGESIZE then page_malloc s n_bytes attr zone_id
      else let al = CEIL_ALIGN alignment PAGESIZE;
               n = CEIL_ALIGN n_bytes PAGESIZE
           in if U32 \<le> al + n then Some (PAGE_ERROR, s)
              else do {
                (result, s1) \<leftarrow> page_malloc s (al + n) attr zone_id;
                if result = PAGE_ERROR then Some (PAGE_ERROR, s1)
                else let aligned_result = CEIL_ALIGN result al;
                         result_end = aligned_result + n
                     in do {
                       s2 \<leftarrow> page_ffree s1 result (aligned_result - result) attr;
                       s3 \<leftarrow> page_ffree s2 result_end (result + (al + n) - result_end) attr;
                       Some (aligned_result, s3)
                     }
              })"

text \<open>Whole pages are copied one at a time, from the lowest or from the highest.\<close>

fun mov_pages_lo_loop :: "nat \<Rightarrow> nat \<Rightarrow> nat \<Rightarrow> pstate \<Rightarrow> pstate" where
  "mov_pages_lo_loop dst src 0 s = s"
| "mov_pages_lo_loop dst src (Suc k) s =
     mov_pages_lo_loop (dst + PAGESIZE) (src + PAGESIZE) k (memcpyl dst src (PAGESIZE div 4) s)"

definition mov_pages_lo :: "nat \<Rightarrow> nat \<Rightarrow> nat \<Rightarrow> pstate \<Rightarrow> pstate" where
  "mov_pages_lo dst src n_bytes s = mov_pages_lo_loop dst src (CEIL_ALIGN n_bytes PAGESIZE div PAGESIZE) s"

fun mov_pages_hi_loop :: "nat \<Rightarrow> nat \<Rightarrow> nat \<Rightarrow> pstate \<Rightarrow> pstate" where
  "mov_pages_hi_loop dst src 0 s = s"
| "mov_pages_hi_loop dst src (Suc k) s =
     mov_pages_hi_loop dst src k (memcpyl (dst + k * PAGESIZE) (src + k * PAGESIZE) (PAGESIZE div 4) s)"

definition mov_pages_hi :: "nat \<Rightarrow> nat \<Rightarrow> nat \<Rightarrow> pstate \<Rightarrow> pstate" where
  "mov_pages_hi dst src n_bytes s = mov_pages_hi_loop dst src (CEIL_ALIGN n_bytes PAGESIZE div PAGESIZE) s"

definition page_realloc_inplace :: "pstate \<Rightarrow> nat \<Rightarrow> nat \<Rightarrow> nat \<Rightarrow> nat \<Rightarrow> (nat \<times> pstate) option" where
  "page_realloc_inplace s start old_bytes new_bytes attr =
     (if old_bytes = 0 then Some (PAGE_ERROR, s)
      else let old = CEIL_ALIGN old_bytes PAGESIZE;
               new = CEIL_ALIGN new_bytes PAGESIZE
           in if new < old then do {
                s1 \<leftarrow> page_ffree s (start + new) (old - new) 0;
                Some (start, s1)
              }
              else if old < new then do {
                (r, s1) \<leftarrow> page_malloc_at s (add32 start old) (new - old) attr;
                Some (if r = PAGE_ERROR then PAGE_ERROR else start, s1)
              }
              else Some (start, s))"

definition page_realloc :: "pstate \<Rightarrow> nat \<Rightarrow> nat \<Rightarrow> nat \<Rightarrow> nat \<Rightarrow> nat \<Rightarrow> (nat \<times> pstate) option" where
  "page_realloc s start old_bytes new_bytes attr zone =
     (if old_bytes = 0 then page_malloc s new_bytes attr zone
      else let old = CEIL_ALIGN old_bytes PAGESIZE;
               new = CEIL_ALIGN new_bytes PAGESIZE;
               noz = (if zero_attr attr then attr - PAGEATTR_ZERO else attr);
               diff = new - old
           in if new < old then do {
                s1 \<leftarrow> page_ffree s (start + new) (old - new) 0;
                Some (start, s1)
              }
              else if old < new then do {
                (above, s1) \<leftarrow> page_malloc_at s (add32 start old) diff attr;
                if above \<noteq> PAGE_ERROR then Some (start, s1)
                else do {
                  (below, s2) \<leftarrow> page_malloc_at s1 (sub32 start diff) diff noz;
                  if below \<noteq> PAGE_ERROR
                  then (let s3 = mov_pages_lo below start old s2
                        in Some (below, if zero_attr attr then memsetl (below + old) 0 (diff div 4) s3 else s3))
                  else do {
                    (result, s3) \<leftarrow>
                      page_malloc s2 new (if zero_attr attr \<and> diff < old then noz else attr) zone;
                    if result = PAGE_ERROR then Some (PAGE_ERROR, s3)
                    else let s4 = (if zero_attr attr \<and> diff < old
                                   then memsetl (result + old) 0 (diff div 4) s3 else s3);
                             s5 = memcpyl result start (old div 4) s4
                         in do {
                           s6 \<leftarrow> page_ffree s5 start old 0;
                           Some (result, s6)
                         }
                  }
                }
              }
              else Some (start, s))"

subsection \<open>Aligned allocation\<close>

lemma page_takeD:
  assumes "page_take A attr m s p t"
  shows "4096 dvd p" "{p ..< p + m} \<subseteq> A" "pages t (A - {p ..< p + m})" "same_outside (list_heads s \<union> A) s t"
    "zero_attr attr \<longrightarrow> zeroed t p m"
  using assms by (simp_all add: page_take_def)

lemma page_take_below:
  assumes "page_take A attr m s p t" and "pages s A" and "0 < m"
  shows "p + m \<le> VM_HOST_BASE"
proof -
  have "p + m - 1 \<in> A" using page_takeD(2) [OF assms(1)] assms(3) by auto
  then show ?thesis using pages_below_host(1) [OF assms(2)] assms(3) by auto
qed

lemma zeroed_keep:
  "zeroed s p n \<Longrightarrow> (\<And>a. p \<le> a \<Longrightarrow> a < p + n \<Longrightarrow> mem t a = mem s a) \<Longrightarrow> zeroed t p n"
  by (simp add: zeroed_def)

lemma zeroed_part: "zeroed s p n \<Longrightarrow> p \<le> q \<Longrightarrow> q + m \<le> p + n \<Longrightarrow> zeroed s q m"
  by (simp add: zeroed_def)

lemma pages_keep:
  assumes "pages s A" and "same_outside (list_heads s \<union> B) s t" and "a \<notin> B" and "a < VM_HOST_BASE"
  shows "mem t a = mem s a"
proof -
  have "a \<notin> list_heads s" using pages_below_host(2) [OF assms(1)] assms(4) by auto
  then show ?thesis using assms(2,3) by (simp add: same_outside_def)
qed

text \<open>Giving back both ends of a block that was just taken leaves the middle taken.\<close>

lemma page_trim:
  assumes s: "pages s A" and tk: "page_take A attr (lo + n + hi) s p t"
    and al: "4096 dvd lo" "4096 dvd n" "4096 dvd hi" and pos: "0 < lo + n + hi"
  shows "\<exists>u v. page_ffree t p lo attr = Some u \<and> page_ffree u (p + lo + n) hi attr = Some v \<and>
    page_take A attr n s (p + lo) v"
proof -
  let ?m = "lo + n + hi"
  note d = page_takeD [OF tk]
  have top: "p + ?m \<le> VM_HOST_BASE" by (rule page_take_below [OF tk s pos])
  have c: "CEIL_ALIGN lo PAGESIZE = lo" "CEIL_ALIGN hi PAGESIZE = hi" using al top by simp_all
  let ?A1 = "(A - {p ..< p + ?m}) \<union> {p ..< p + lo}"
  obtain u where u: "page_ffree t p lo attr = Some u" "pages u ?A1" "same_outside (list_heads t \<union> ?A1) t u"
  proof (rule pages_free [OF d(3,1), of lo attr, unfolded c])
    show "zero_attr attr \<longrightarrow> zeroed t p lo" using d(5) zeroed_part by fastforce
  qed (use top in \<open>auto simp: Un_assoc\<close>)
  have lh: "list_heads t = list_heads s" "list_heads u = list_heads s"
    using list_heads_same [OF d(4)] list_heads_same [OF u(3)] by simp_all
  have ku: "mem u a = mem t a" if "p + lo \<le> a" "a < p + ?m" for a
    by (rule pages_keep [OF d(3) u(3)]) (use that top in auto)
  let ?A2 = "?A1 \<union> {p + lo + n ..< p + lo + n + hi}"
  obtain v where v: "page_ffree u (p + lo + n) hi attr = Some v" "pages v ?A2" "same_outside (list_heads u \<union> ?A2) u v"
  proof (rule pages_free [OF u(2), of "p + lo + n" hi attr, unfolded c])
    have "zero_attr attr \<longrightarrow> zeroed t (p + lo + n) hi" using d(5) zeroed_part by fastforce
    then show "zero_attr attr \<longrightarrow> zeroed u (p + lo + n) hi" using zeroed_keep ku by fastforce
  qed (use top al d(1) in \<open>auto simp: Un_assoc\<close>)
  have kv: "mem v a = mem u a" if "p + lo \<le> a" "a < p + lo + n" for a
    by (rule pages_keep [OF u(2) v(3)]) (use that top in auto)
  have A2: "?A2 = A - {p + lo ..< p + lo + n}"
    using d(2) by (auto simp: subset_iff)
  have sub: "?A1 \<subseteq> A" "?A2 \<subseteq> A" using d(2) A2 by auto
  have "same_outside (list_heads s \<union> A) s u"
    by (rule same_outside_trans [OF d(4) u(3)]) (use sub lh in auto)
  then have "same_outside (list_heads s \<union> A) s v"
    by (rule same_outside_trans [OF _ v(3)]) (use sub lh in auto)
  moreover have "zero_attr attr \<longrightarrow> zeroed v (p + lo) n"
  proof
    assume "zero_attr attr"
    then have "zeroed t (p + lo) n" using d(5) zeroed_part by fastforce
    then show "zeroed v (p + lo) n" by (rule zeroed_keep) (simp add: kv ku)
  qed
  moreover have "{p + lo ..< p + lo + n} \<subseteq> A" using d(2) by auto
  ultimately have "page_take A attr n s (p + lo) v"
    using v(2) d(1) al(1) unfolding A2 by (simp add: page_take_def)
  then show ?thesis using u(1) v(1) by blast
qed

lemma CEIL_ALIGN_pow2_props:
  assumes "k \<le> 32" and "x + 2 ^ k \<le> U32"
  shows "2 ^ k dvd CEIL_ALIGN x (2 ^ k)" "x \<le> CEIL_ALIGN x (2 ^ k)" "CEIL_ALIGN x (2 ^ k) < x + 2 ^ k"
proof -
  let ?m = "(2::nat) ^ k"
  have m: "0 < ?m" by simp
  have "x + (?m - 1) < U32" using assms(2) m by linarith
  then have e: "CEIL_ALIGN x ?m = (x + (?m - 1)) div ?m * ?m"
    unfolding CEIL_ALIGN_pow2 [OF assms(1)] by (simp add: add32_id)
  show "?m dvd CEIL_ALIGN x ?m" unfolding e by simp
  have "(x + (?m - 1)) div ?m * ?m + (x + (?m - 1)) mod ?m = x + (?m - 1)" by (rule div_mult_mod_eq)
  moreover have "(x + (?m - 1)) mod ?m \<le> ?m - 1" using mod_less_divisor [OF m, of "x + (?m - 1)"] by linarith
  ultimately show "x \<le> CEIL_ALIGN x ?m" "CEIL_ALIGN x ?m < x + ?m" unfolding e using m by linarith+
qed


lemma page_memalign_take:
  assumes s: "pages s A" and z: "z < MZONE_REAL_COUNT" and k: "k < 32" and n: "n \<le> U32 - PAGESIZE"
  shows "page_memalign s (2 ^ k) n attr z = Some (PAGE_ERROR, s) \<or>
    (\<exists>p t. page_memalign s (2 ^ k) n attr z = Some (p, t) \<and> p \<noteq> PAGE_ERROR \<and> 2 ^ k dvd p \<and>
       page_take A attr (CEIL_ALIGN n PAGESIZE) s p t)"
proof (cases "(2::nat) ^ k \<le> PAGESIZE")
  case True
  then have "(2::nat) ^ k \<le> 2 ^ 12" by simp
  then have "k \<le> 12" by (rule power_le_imp_le_exp [rotated]) simp
  then have "(2::nat) ^ k dvd 2 ^ 12" by (rule le_imp_power_dvd)
  then have d: "2 ^ k dvd p" if "page_take A attr m s p t" for m p t
    using page_takeD(1) [OF that] dvd_trans [of "2 ^ k" 4096 p] by simp
  have e: "page_memalign s (2 ^ k) n attr z = page_malloc s n attr z"
    using True by (simp add: page_memalign_def)
  from page_source.alloc [OF page_malloc_source [OF z] s, of n attr] show ?thesis
    unfolding e by (elim disjE exE conjE) (simp_all add: d)
next
  case False
  let ?m = "CEIL_ALIGN n PAGESIZE" and ?al = "(2::nat) ^ k"
  have "(2::nat) ^ 12 < 2 ^ k" using False by simp
  then have k12: "12 \<le> k" using power_less_imp_less_exp [of "2::nat" 12 k] by simp
  then have d: "4096 dvd ?al" using le_imp_power_dvd [of 12 k "2::nat"] by simp
  have al: "?al < U32" using power_strict_increasing [OF k, of "2::nat"] by simp
  then have cal: "CEIL_ALIGN ?al PAGESIZE = ?al" using d by simp
  show ?thesis
  proof (cases "U32 \<le> ?al + ?m")
    case True
    then show ?thesis using False by (simp add: page_memalign_def cal)
  next
    case nov: False
    have ct: "CEIL_ALIGN (?al + ?m) PAGESIZE = ?al + ?m" using nov d by simp
    note src = page_source.alloc [OF page_malloc_source [OF z] s, of "?al + ?m" attr, unfolded ct]
    from src show ?thesis
    proof (elim disjE exE conjE)
      assume "page_malloc s (?al + ?m) attr z = Some (PAGE_ERROR, s)"
      then show ?thesis using False nov by (simp add: page_memalign_def cal)
    next
      fix p t assume p: "page_malloc s (?al + ?m) attr z = Some (p, t)" "p \<noteq> PAGE_ERROR"
        and tk: "page_take A attr (?al + ?m) s p t"
      have top: "p + (?al + ?m) \<le> VM_HOST_BASE" by (rule page_take_below [OF tk s]) simp
      define q where "q = CEIL_ALIGN p ?al"
      have q: "?al dvd q" "p \<le> q" "q < p + ?al"
        using CEIL_ALIGN_pow2_props [of k p] k top by (simp_all add: q_def)
      let ?lo = "q - p" and ?hi = "?al - (q - p)"
      have dq: "4096 dvd q" using q(1) d by (rule dvd_trans [rotated])
      have e: "?lo + ?m + ?hi = ?al + ?m" "p + ?lo = q" "p + (?al + ?m) - (q + ?m) = ?hi" using q by simp_all
      have lo: "4096 dvd ?lo" "4096 dvd ?hi" using dq page_takeD(1) [OF tk] d by (simp_all add: dvd_diff_nat)
      obtain u v where "page_ffree t p ?lo attr = Some u" "page_ffree u (q + ?m) ?hi attr = Some v"
        "page_take A attr ?m s q v"
        using page_trim [OF s, of attr ?lo ?m ?hi p t] tk lo q unfolding e by auto
      then have "page_memalign s ?al n attr z = Some (q, v)" "page_take A attr ?m s q v"
        using False nov p e by (simp_all add: page_memalign_def cal q_def [symmetric] Let_def)
      moreover have "q \<noteq> PAGE_ERROR" using q top by linarith
      ultimately show ?thesis using q(1) by blast
    qed
  qed
qed


subsection \<open>Moving pages\<close>

lemma mov_pages_lo_loop_mem:
  "dst + 4096 \<le> src \<Longrightarrow>
     mem (mov_pages_lo_loop dst src k s) a =
       (if dst \<le> a \<and> a < dst + 4096 * k then mem s (src + (a - dst)) else mem s a) \<and>
     page_zones (mov_pages_lo_loop dst src k s) = page_zones s"
proof (induction k arbitrary: dst src s)
  case (Suc k)
  note IH = Suc.IH [of "dst + 4096" "src + 4096" "memcpyl dst src 1024 s"]
  show ?case
  proof (cases "dst \<le> a \<and> a < dst + 4096")
    case True
    then show ?thesis using IH Suc.prems by simp
  next
    case False
    then show ?thesis using IH Suc.prems by (auto simp: not_le not_less)
  qed
qed simp

lemma mov_pages_hi_loop_mem:
  "src + 4096 \<le> dst \<Longrightarrow>
     mem (mov_pages_hi_loop dst src k s) a =
       (if dst \<le> a \<and> a < dst + 4096 * k then mem s (src + (a - dst)) else mem s a) \<and>
     page_zones (mov_pages_hi_loop dst src k s) = page_zones s"
proof (induction k arbitrary: s)
  case (Suc k)
  note IH = Suc.IH [of "memcpyl (dst + k * 4096) (src + k * 4096) 1024 s"]
  show ?case
  proof (cases "dst \<le> a \<and> a < dst + 4096 * k")
    case True
    then have "\<not> dst + k * 4096 \<le> src + (a - dst)" using Suc.prems by linarith
    then show ?thesis using IH Suc.prems True by simp
  next
    case False
    then show ?thesis using IH Suc.prems by auto
  qed
qed simp

subsection \<open>Growing and shrinking\<close>

lemma pages_frame:
  assumes "pages s A" and "same_outside B s t" and "B \<inter> (A \<union> list_heads s) = {}"
  shows "pages t A"
proof -
  obtain X where X: "pwf s X" "all_free X = A" using assms(1) by (auto simp: pages_def)
  have "zone_ok t z (X z)" if z: "z < MZONE_REAL_COUNT" for z
    by (rule zone_ok_frame [OF _ assms(2)])
      (use X z assms(3) in \<open>auto simp: pwf_def all_free_def list_heads_def\<close>)
  moreover have "page_zones t = page_zones s" using assms(2) by (simp add: same_outside_def)
  ultimately have "pwf t X" using X(1) by (simp add: pwf_def)
  then show ?thesis using X(2) by (auto simp: pages_def)
qed

lemma pin_search_above:
  assumes "plist s l xs" and "franges lo hi xs" and "hi \<le> mn" and "hi \<le> VM_HOST_BASE"
  shows "\<exists>bs'. pin_search s mn mx n (mem s l) PAGE_ERROR bs = Some (PAGE_ERROR, bs')"
  using assms
proof (induction xs arbitrary: l lo)
  case Nil
  then show ?case by (simp add: pin_search.simps)
next
  case (Cons r xs)
  obtain p sz at where r: "r = (p, sz, at)" by (cases r)
  have p: "mem s l = p" "plist s p xs" "p_next s p = mem s p" "PAGE_END s p = p + sz"
    and f: "franges (p + sz + 1) hi xs" "p + sz \<le> mn"
    using Cons.prems r by (auto simp: p_next_def PAGE_END_def)
  show ?case
  proof (cases "p = PAGE_ERROR \<or> mx < p")
    case True
    then show ?thesis using p by (simp add: pin_search.simps)
  next
    case False
    then have "pin_search s mn mx n (mem s l) PAGE_ERROR bs = pin_search s mn mx n (mem s p) PAGE_ERROR bs"
      using p f by (subst pin_search.simps) simp
    then show ?thesis using Cons.IH [OF p(2) f(1) Cons.prems(3,4)] by simp
  qed
qed

lemma page_malloc_at_host:
  assumes "pages s A" and "VM_HOST_BASE \<le> p"
  shows "page_malloc_at s p n attr = Some (PAGE_ERROR, s)"
proof -
  obtain X where X: "pwf s X" using assms(1) by (auto simp: pages_def)
  have z: "mzone_of p = 1" using assms(2) by (simp add: mzone_of_eq)
  have "1 < MZONE_REAL_COUNT" by (simp add: MZONE_REAL_COUNT_def)
  then have "plist s (z_root_at s 1) (X 1)" "franges (MZONE_MIN 1) (MZONE_MAX 1 + 1) (X 1)"
    using X unfolding pwf_def zone_ok_def by blast+
  then have "\<exists>bs. pin_search s p p m (z_root s 1) PAGE_ERROR PAGE_ERROR = Some (PAGE_ERROR, bs)" for m
    using pin_search_above [of s "z_root_at s 1" "X 1" _ "MZONE_MAX 1 + 1" p p m] assms(2) by (simp add: z_root_def)
  then have "\<forall>m. \<exists>bs. pin_search s p p m (z_root s 1) PAGE_ERROR PAGE_ERROR = Some (PAGE_ERROR, bs)" by blast
  then have "page_malloc_in_zone s p p m attr 1 = Some (PAGE_ERROR, s)" for m
    unfolding page_malloc_in_zone_def by (elim allE [of _ m] exE) simp
  then show ?thesis
    unfolding page_malloc_at_def page_malloc_in_def z
    by (subst page_malloc_in_loop.simps) (simp add: page_malloc_in_loop.simps [of _ _ _ _ _ 0])
qed

lemma page_malloc_at_take:
  assumes s: "pages s A" and n: "4096 dvd n" "0 < n" and p: "4096 dvd p" "p + n < U32"
  shows "page_malloc_at s p n attr = Some (PAGE_ERROR, s) \<or>
    (\<exists>t. page_malloc_at s p n attr = Some (p, t) \<and> p \<noteq> PAGE_ERROR \<and> page_take A attr n s p t)"
proof -
  have c: "CEIL_ALIGN n PAGESIZE = n" using n p by simp
  have "n \<le> U32 - PAGESIZE" using n(1) p(2) by (auto elim!: dvdE)
  moreover obtain X where X: "pwf s X" "all_free X = A" using s by (auto simp: pages_def)
  ultimately show ?thesis
    using page_malloc_in_cases [OF X(1), of n p p attr] n p page_got_take [OF X(1)] X(2)
    unfolding page_malloc_at_def c by fastforce
qed


definition page_moved ::
  "nat set \<Rightarrow> nat \<Rightarrow> pstate \<Rightarrow> nat \<Rightarrow> nat \<Rightarrow> nat \<Rightarrow> nat \<Rightarrow> pstate \<Rightarrow> bool" where
  "page_moved A attr s start old r new t \<longleftrightarrow> 4096 dvd r \<and>
     {r ..< r + new} \<subseteq> A \<union> {start ..< start + old} \<and>
     pages t ((A \<union> {start ..< start + old}) - {r ..< r + new}) \<and>
     (\<forall>i<min old new. mem t (r + i) = mem s (start + i)) \<and>
     (zero_attr attr \<longrightarrow> zeroed t (r + old) (new - old)) \<and>
     same_outside (list_heads s \<union> A \<union> {start ..< start + old}) s t"

lemma moved_shrink:
  assumes s: "pages s A" and al: "4096 dvd start" "4096 dvd old" "4096 dvd new"
    and hi: "start + old \<le> VM_HOST_BASE" and used: "{start ..< start + old} \<inter> A = {}" and lt: "new < old"
  shows "\<exists>t. page_ffree s (start + new) (old - new) 0 = Some t \<and> page_moved A attr s start old start new t"
proof -
  have un: "x \<notin> A" if "start \<le> x" "x < start + old" for x using used that by auto
  have d: "4096 dvd old - new" using al by (simp add: dvd_diff_nat)
  then have c: "CEIL_ALIGN (old - new) PAGESIZE = old - new" using hi by simp
  obtain t where t: "page_ffree s (start + new) (old - new) 0 = Some t"
    "pages t (A \<union> {start + new ..< start + new + (old - new)})"
    "same_outside (list_heads s \<union> A \<union> {start + new ..< start + new + (old - new)}) s t"
    by (rule pages_free [OF s, of "start + new" "old - new" 0, unfolded c])
      (use al hi lt un in \<open>auto simp: zero_attr_odd\<close>)
  have e: "A \<union> {start + new ..< start + new + (old - new)} = (A \<union> {start ..< start + old}) - {start ..< start + new}"
    using lt un by auto
  have keep: "mem t (start + i) = mem s (start + i)" if "i < new" for i
  proof (rule pages_keep [OF s, of "A \<union> {start + new ..< start + new + (old - new)}"])
    show "same_outside (list_heads s \<union> (A \<union> {start + new ..< start + new + (old - new)})) s t"
      using t(3) by (simp add: Un_assoc)
  qed (use that lt hi un in auto)
  have "same_outside (list_heads s \<union> A \<union> {start ..< start + old}) s t"
    using t(3) by (rule same_outside_mono) (use lt in auto)
  then have "page_moved A attr s start old start new t"
    using t(2) keep al lt unfolding e page_moved_def by (auto simp: zeroed_def)
  then show ?thesis using t(1) by blast
qed

lemma moved_above:
  assumes s: "pages s A" and al: "4096 dvd start" "4096 dvd old" and hi: "start + old \<le> VM_HOST_BASE"
    and used: "{start ..< start + old} \<inter> A = {}" and lt: "old < new"
    and tk: "page_take A attr (new - old) s (start + old) t"
  shows "page_moved A attr s start old start new t"
proof -
  have un: "x \<notin> A" if "start \<le> x" "x < start + old" for x using used that by auto
  note d = page_takeD [OF tk]
  have keep: "mem t (start + i) = mem s (start + i)" if "i < old" for i
    by (rule pages_keep [OF s d(4)]) (use that hi un in auto)
  have e: "start + old + (new - old) = start + new" using lt by simp
  have "A - {start + old ..< start + new} = (A \<union> {start ..< start + old}) - {start ..< start + new}"
    using un lt by auto
  moreover have "{start ..< start + new} \<subseteq> A \<union> {start ..< start + old}" using d(2) e by auto
  moreover have "same_outside (list_heads s \<union> A \<union> {start ..< start + old}) s t"
    using d(4) by (rule same_outside_mono) auto
  ultimately show ?thesis using d keep al lt unfolding e page_moved_def by auto
qed


lemma page_take_write:
  assumes s: "pages s A" and tk: "page_take A attr m s p t" and m: "0 < m"
    and w: "same_outside B t u" and B: "B \<subseteq> {p ..< p + m} \<union> U" and U: "U \<inter> A = {}" "U \<subseteq> {..< VM_HOST_BASE}"
  shows "pages u (A - {p ..< p + m})" "same_outside (list_heads s \<union> A \<union> U) s u"
proof -
  note d = page_takeD [OF tk]
  have top: "p + m \<le> VM_HOST_BASE" by (rule page_take_below [OF tk s m])
  have "B \<inter> list_heads t = {}"
    using pages_below_host(2) [OF s] list_heads_same [OF d(4)] B U(2) top by fastforce
  then show "pages u (A - {p ..< p + m})" by (intro pages_frame [OF d(3) w]) (use B U(1) in auto)
  show "same_outside (list_heads s \<union> A \<union> U) s u"
    by (rule same_outside_trans [OF d(4) w]) (use B d(2) in auto)
qed

lemma moved_below:
  assumes s: "pages s A" and al: "4096 dvd start" "4096 dvd old" "4096 dvd new"
    and hi: "start + old \<le> VM_HOST_BASE" and used: "{start ..< start + old} \<inter> A = {}" and lt: "old < new" and r: "r + (new - old) = start"
    and tk: "page_take A noz (new - old) s r t"
    and u: "u = (let v = mov_pages_lo r start old t
      in if zero_attr attr then memsetl (r + old) 0 ((new - old) div 4) v else v)"
  shows "page_moved A attr s start old r new u"
proof -
  let ?df = "new - old"
  have un: "x \<notin> A" if "start \<le> x" "x < start + old" for x using used that by auto
  note d = page_takeD [OF tk]
  have df: "4096 dvd ?df" "0 < ?df" using al lt by (simp_all add: dvd_diff_nat)
  then have df4: "4 * (?df div 4) = ?df" using dvd_mult_div_cancel [of 4 ?df] dvd_trans [of 4 4096 ?df] by simp
  have rs: "r + 4096 \<le> start" using df r by (auto dest: dvd_imp_le)
  have c: "CEIL_ALIGN old PAGESIZE = old" using al hi by simp
  have k: "4096 * (old div 4096) = old" using al(2) by simp
  define v where "v = mov_pages_lo r start old t"
  note mv = mov_pages_lo_loop_mem [OF rs, of "old div 4096" t, unfolded k]
  have vm: "mem v a = (if r \<le> a \<and> a < r + old then mem t (start + (a - r)) else mem t a)"
    and vz: "page_zones v = page_zones t" for a
    using mv by (simp_all add: v_def mov_pages_lo_def c)
  have u': "u = (if zero_attr attr then memsetl (r + old) 0 (?df div 4) v else v)"
    unfolding u v_def Let_def ..
  have e: "r + old + ?df = r + new" using lt by simp
  have um: "mem u a = (if zero_attr attr \<and> r + old \<le> a \<and> a < r + new then 0 else mem v a)"
    and uz: "page_zones u = page_zones t" for a
    using vz unfolding u' by (simp_all add: df4 e)
  have w: "same_outside {r ..< r + new} t u"
    using lt by (auto simp: same_outside_def um vm uz)
  have sub: "{r ..< r + new} \<subseteq> {r ..< r + ?df} \<union> {start ..< start + old}" using lt r by auto
  have hb: "{start ..< start + old} \<subseteq> {..< VM_HOST_BASE}" using hi by auto
  note pw = page_take_write [OF s tk df(2) w sub used hb]
  have st: "mem t (start + i) = mem s (start + i)" if "i < old" for i
    by (rule pages_keep [OF s d(4)]) (use that hi un in auto)
  have "\<forall>i<min old new. mem u (r + i) = mem s (start + i)"
    using st by (simp add: um vm)
  moreover have "zero_attr attr \<longrightarrow> zeroed u (r + old) (new - old)" using lt by (simp add: zeroed_def um)
  moreover have "A - {r ..< r + ?df} = (A \<union> {start ..< start + old}) - {r ..< r + new}"
    using un lt r by auto
  moreover have "{r ..< r + new} \<subseteq> A \<union> {start ..< start + old}" using sub d(2) by blast
  ultimately show ?thesis using pw d(1) unfolding page_moved_def by simp
qed

lemma moved_fresh:
  assumes s: "pages s A" and al: "4096 dvd start" "4096 dvd old" "4096 dvd new"
    and hi: "start + old \<le> VM_HOST_BASE" and used: "{start ..< start + old} \<inter> A = {}" and lt: "old < new"
    and tk: "page_take A at' new s r t" and at': "zero_attr attr \<longrightarrow> cl \<or> zero_attr at'"
    and u: "u = (if zero_attr attr \<and> cl then memsetl (r + old) 0 ((new - old) div 4) t else t)"
    and v: "v = memcpyl r start (old div 4) u"
  shows "\<exists>w. page_ffree v start old 0 = Some w \<and> page_moved A attr s start old r new w"
proof -
  have un: "x \<notin> A" if "start \<le> x" "x < start + old" for x using used that by auto
  note d = page_takeD [OF tk]
  have top: "r + new \<le> VM_HOST_BASE" by (rule page_take_below [OF tk s]) (use lt in simp)
  have four: "4 * (x div 4) = x" if "4096 dvd x" for x :: nat
    using that dvd_mult_div_cancel [of 4 x] dvd_trans [of 4 4096 x] by simp
  have e: "4 * ((new - old) div 4) = new - old" "4 * (old div 4) = old" "r + old + (new - old) = r + new"
    using four al lt by (simp_all add: dvd_diff_nat)
  have um: "mem u a = (if zero_attr attr \<and> cl \<and> r + old \<le> a \<and> a < r + new then 0 else mem t a)"
    and uz: "page_zones u = page_zones t" for a unfolding u by (simp_all add: e)
  have vm: "mem v a = (if r \<le> a \<and> a < r + old then mem u (start + (a - r)) else mem u a)"
    and vz: "page_zones v = page_zones t" for a unfolding v by (simp_all add: e uz)
  have apart: "\<not> (r \<le> start + i \<and> start + i < r + new)" if "i < old" for i
    using d(2) un [of "start + i"] that by auto
  have st: "mem u (start + i) = mem s (start + i)" if "i < old" for i
  proof -
    have "mem t (start + i) = mem s (start + i)" by (rule pages_keep [OF s d(4)]) (use that hi un in auto)
    then show ?thesis using apart [OF that] by (auto simp: um)
  qed
  have w: "same_outside {r ..< r + new} t v" using lt by (auto simp: same_outside_def vm um vz)
  note pw = page_take_write [OF s tk _ w, of "{}", simplified, OF order_le_less_trans [OF le0 lt]]
  have c: "CEIL_ALIGN old PAGESIZE = old" using al hi by simp
  let ?A1 = "(A - {r ..< r + new}) \<union> {start ..< start + old}"
  obtain x where x: "page_ffree v start old 0 = Some x" "pages x ?A1"
    "same_outside (list_heads v \<union> (A - {r ..< r + new}) \<union> {start ..< start + old}) v x"
    by (rule pages_free [OF pw(1) al(1), of old 0, unfolded c]) (use hi un in \<open>auto simp: zero_attr_odd\<close>)
  have x3: "same_outside (list_heads v \<union> ?A1) v x" using x(3) by (simp add: Un_assoc)
  have rA: "r + i \<in> A" "\<not> (start \<le> r + i \<and> r + i < start + old)" if "i < new" for i
  proof -
    show "r + i \<in> A" using d(2) that by auto
    then show "\<not> (start \<le> r + i \<and> r + i < start + old)" using un by blast
  qed
  have kx: "mem x (r + i) = mem v (r + i)" if "i < new" for i
    by (rule pages_keep [OF pw(1) x3]) (use that top rA(2) [OF that] in auto)
  have "\<forall>i<min old new. mem x (r + i) = mem s (start + i)"
    using kx st lt by (simp add: vm)
  moreover have "zero_attr attr \<longrightarrow> zeroed x (r + old) (new - old)"
    unfolding zeroed_def
  proof (intro impI allI)
    fix a assume a: "zero_attr attr" "4 dvd a" "r + old \<le> a" "a < r + old + (new - old)"
    then have "mem x a = mem v a" using kx [of "a - r"] lt by simp
    also have "\<dots> = (if cl then 0 else mem t a)" using a lt by (auto simp: vm um)
    also have "\<dots> = 0"
    proof (cases cl)
      case False
      then have "zero_attr at'" using at' a(1) by simp
      then show ?thesis using False zeroedD [OF d(5), of a] a lt by simp
    qed simp
    finally show "mem x a = 0" .
  qed
  moreover have A1: "?A1 = (A \<union> {start ..< start + old}) - {r ..< r + new}"
    using used d(2) by blast
  moreover have "{r ..< r + new} \<subseteq> A \<union> {start ..< start + old}" using d(2) by blast
  moreover have "same_outside (list_heads s \<union> A \<union> {start ..< start + old}) s x"
    by (rule same_outside_trans [OF pw(2) x3]) (use list_heads_same [OF pw(2)] in auto)
  ultimately show ?thesis using x(1,2) d(1) unfolding page_moved_def by simp
qed

lemma page_realloc_moved:
  assumes s: "pages s A" and z: "zone < MZONE_REAL_COUNT" and al: "4096 dvd start"
    and old: "0 < ob" "old = CEIL_ALIGN ob PAGESIZE" "start + old \<le> VM_HOST_BASE"
    and used: "{start ..< start + old} \<inter> A = {}"
    and new: "new = CEIL_ALIGN nb PAGESIZE" "start + new < U32" "new \<le> 0x40000000"
  shows "page_realloc s start ob nb attr zone = Some (PAGE_ERROR, s) \<or>
    (\<exists>r t. page_realloc s start ob nb attr zone = Some (r, t) \<and> r \<noteq> PAGE_ERROR \<and>
       page_moved A attr s start old r new t)"
proof -
  have d: "4096 dvd old" "4096 dvd new" using old new by simp_all
  have st: "start \<noteq> PAGE_ERROR" using old(3) by auto
  define noz where "noz = (if zero_attr attr then attr - PAGEATTR_ZERO else attr)"
  note def = page_realloc_def [of s start ob nb attr zone, folded old(2) new(1) noz_def]
  consider (shrink) "new < old" | (same) "new = old" | (grow) "old < new" by linarith
  then show ?thesis
  proof cases
    case shrink
    from moved_shrink [OF s al d old(3) used shrink, of attr] show ?thesis
      using shrink old(1) st unfolding def by (auto simp: Let_def)
  next
    case same
    have "page_moved A attr s start old start new s"
    proof -
      have "(A \<union> {start ..< start + old}) - {start ..< start + old} = A" using used by blast
      then show ?thesis using s al same by (simp add: page_moved_def zeroed_def)
    qed
    then show ?thesis using same old(1) st unfolding def by (auto simp: Let_def)
  next
    case grow
    let ?df = "new - old"
    have df: "4096 dvd ?df" "0 < ?df" using d grow by (simp_all add: dvd_diff_nat)
    have ad: "add32 start old = start + old" "start + old + ?df < U32" using new grow by (simp_all add: add32_id)
    have "page_malloc_at s (start + old) ?df attr = Some (PAGE_ERROR, s) \<or>
      (\<exists>t. page_malloc_at s (start + old) ?df attr = Some (start + old, t) \<and> start + old \<noteq> PAGE_ERROR \<and>
        page_take A attr ?df s (start + old) t)"
      by (rule page_malloc_at_take [OF s df]) (use al d ad in auto)
    then show ?thesis
    proof (elim disjE exE conjE)
      fix t assume "page_malloc_at s (start + old) ?df attr = Some (start + old, t)" "start + old \<noteq> PAGE_ERROR"
        "page_take A attr ?df s (start + old) t"
      then show ?thesis
        using moved_above [OF s al d(1) old(3) used grow, of attr t] grow old(1) st ad(1) unfolding def
        by (auto simp: Let_def)
    next
      assume above: "page_malloc_at s (start + old) ?df attr = Some (PAGE_ERROR, s)"
      have "page_malloc_at s (sub32 start ?df) ?df noz = Some (PAGE_ERROR, s) \<or>
        (\<exists>r t. r + ?df = start \<and> page_malloc_at s (sub32 start ?df) ?df noz = Some (r, t) \<and> r \<noteq> PAGE_ERROR \<and>
          page_take A noz ?df s r t)"
      proof (cases "?df \<le> start")
        case True
        then obtain r where r: "r + ?df = start" using le_add_diff_inverse2 by blast
        then have "sub32 start ?df = r" using old(3) by (auto simp: sub32_id)
        moreover have "4096 dvd r" using r al df(1) dvd_add_left_iff by blast
        moreover have "r + ?df < U32" using r old(3) by linarith
        ultimately show ?thesis using page_malloc_at_take [OF s df, of r noz] r by blast
      next
        case False
        then have "VM_HOST_BASE \<le> sub32 start ?df" using new(3) old(3) by (simp add: sub32_wrap)
        then show ?thesis using page_malloc_at_host [OF s] by blast
      qed
      then show ?thesis
      proof (elim disjE exE conjE)
        fix r t assume r: "r + ?df = start" "page_malloc_at s (sub32 start ?df) ?df noz = Some (r, t)" "r \<noteq> PAGE_ERROR"
          "page_take A noz ?df s r t"
        then show ?thesis
          using moved_below [OF s al d old(3) used grow r(1,4) refl, of attr] above grow old(1) ad(1)
          unfolding def by (auto simp: Let_def)
      next
        assume below: "page_malloc_at s (sub32 start ?df) ?df noz = Some (PAGE_ERROR, s)"
        define at' where "at' = (if zero_attr attr \<and> ?df < old then noz else attr)"
        have c: "CEIL_ALIGN new PAGESIZE = new" using d new by simp
        from page_source.alloc [OF page_malloc_source [OF z] s, of new at', unfolded c]
        show ?thesis
        proof (elim disjE exE conjE)
          assume "page_malloc s new at' zone = Some (PAGE_ERROR, s)"
          then show ?thesis using above below grow old(1) ad(1) unfolding def by (simp add: Let_def at'_def)
        next
          fix r t assume r: "page_malloc s new at' zone = Some (r, t)" "r \<noteq> PAGE_ERROR" "page_take A at' new s r t"
          have z': "zero_attr attr \<longrightarrow> ?df < old \<or> zero_attr at'" by (simp add: at'_def)
          from moved_fresh [OF s al d old(3) used grow r(3) z' refl refl] r(1,2) above below grow old(1) ad(1)
          show ?thesis unfolding def by (auto simp: Let_def at'_def)
        qed
      qed
    qed
  qed
qed






subsection \<open>Properties\<close>





text \<open>
  \<open>page_realloc_inplace\<close> never moves the block: it returns \<open>start\<close>, with the effect of
  \<open>page_realloc\<close>, or fails and changes nothing.
\<close>

theorem page_realloc_inplace_correct:
  assumes "pages s A" and "4096 dvd start" and "start + CEIL_ALIGN old_bytes PAGESIZE \<le> VM_HOST_BASE"
    and "{start ..< start + CEIL_ALIGN old_bytes PAGESIZE} \<inter> A = {}"
    and "start + CEIL_ALIGN new_bytes PAGESIZE < U32"
  shows "page_realloc_inplace s start old_bytes new_bytes attr = Some (PAGE_ERROR, s) \<or>
    (\<exists>t. page_realloc_inplace s start old_bytes new_bytes attr = Some (start, t) \<and>
       page_moved A attr s start (CEIL_ALIGN old_bytes PAGESIZE) start (CEIL_ALIGN new_bytes PAGESIZE) t)"
proof -
  let ?old = "CEIL_ALIGN old_bytes PAGESIZE" and ?new = "CEIL_ALIGN new_bytes PAGESIZE"
  note s = assms(1) and d = CEIL_ALIGN_page_dvd [of old_bytes] CEIL_ALIGN_page_dvd [of new_bytes]
  note def = page_realloc_inplace_def [of s start old_bytes new_bytes attr]
  have st: "start \<noteq> PAGE_ERROR" using assms(3) by auto
  consider (none) "old_bytes = 0" | (shrink) "old_bytes \<noteq> 0" "?new < ?old" | (same) "old_bytes \<noteq> 0" "?new = ?old"
    | (grow) "old_bytes \<noteq> 0" "?old < ?new" by linarith
  then show ?thesis
  proof cases
    case none then show ?thesis unfolding def by simp
  next
    case shrink
    then show ?thesis using moved_shrink [OF s assms(2) d assms(3,4) shrink(2), of attr] unfolding def by (auto simp: Let_def)
  next
    case same
    have "(A \<union> {start ..< start + ?old}) - {start ..< start + ?old} = A" using assms(4) by blast
    then have "page_moved A attr s start ?old start ?new s" using s assms(2) same by (simp add: page_moved_def zeroed_def)
    then show ?thesis using same unfolding def by (simp add: Let_def)
  next
    case grow
    have ad: "add32 start ?old = start + ?old" using assms(5) grow by (simp add: add32_id)
    have "4096 dvd ?new - ?old" "0 < ?new - ?old" using grow by (simp_all add: dvd_diff_nat)
    from page_malloc_at_take [OF s this, of "start + ?old" attr] show ?thesis
      using assms(2,5) grow st moved_above [OF s assms(2) d(1) assms(3,4) grow(2), of attr] unfolding def
      by (auto simp: Let_def ad)
  qed
qed

theorem page_realloc_inplace_correct_witness:
  "page_realloc_inplace page_demo 0x1FF000 4096 8192 0 = Some (PAGE_ERROR, page_demo) \<or>
    (\<exists>t. page_realloc_inplace page_demo 0x1FF000 4096 8192 0 = Some (0x1FF000, t) \<and>
       page_moved {0x200000 ..< 0x204000} 0 page_demo 0x1FF000 4096 0x1FF000 8192 t)"
proof -
  have c: "CEIL_ALIGN 4096 PAGESIZE = 4096" "CEIL_ALIGN 8192 PAGESIZE = 8192" by simp_all
  show ?thesis
    using page_realloc_inplace_correct [OF page_demo_pages, of "0x1FF000" 4096 8192 0] by (simp add: c)
qed

text \<open>
  Both page movers copy the block as it was, also when source and target overlap: moving down
  starts at the lowest page, moving up at the highest.
\<close>

theorem mov_pages_overlap_safe:
  assumes "4096 dvd n_bytes" and "n_bytes < U32"
  shows "(dst + PAGESIZE \<le> src \<longrightarrow> (\<forall>i<n_bytes. mem (mov_pages_lo dst src n_bytes s) (dst + i) = mem s (src + i))) \<and>
    (src + PAGESIZE \<le> dst \<longrightarrow> (\<forall>i<n_bytes. mem (mov_pages_hi dst src n_bytes s) (dst + i) = mem s (src + i)))"
proof -
  have k: "CEIL_ALIGN n_bytes PAGESIZE = n_bytes" "4096 * (n_bytes div 4096) = n_bytes" using assms by simp_all
  show ?thesis
    using mov_pages_lo_loop_mem [of dst src "n_bytes div 4096" s] mov_pages_hi_loop_mem [of src dst "n_bytes div 4096" s]
    by (simp add: mov_pages_lo_def mov_pages_hi_def k)
qed

theorem mov_pages_overlap_safe_witness:
  "mem (mov_pages_lo 0x1FF000 0x200000 8192 page_demo) (0x1FF000 + 0x1004) = mem page_demo (0x200000 + 0x1004)"
proof -
  have "(4096::nat) dvd 8192" "(8192::nat) < U32" "0x1FF000 + PAGESIZE \<le> 0x200000" "(0x1004::nat) < 8192" by simp_all
  then show ?thesis using mov_pages_overlap_safe [of 8192 "0x1FF000" "0x200000" page_demo] by blast
qed

end
