(* ===== verification/Page_Query.thy ===== *)
theory Page_Query
  imports Page_Free
begin

text \<open>
  The queries of \<open>src/src/kernel/memory/memory.c\<close>: \<open>page_available\<close> counts free bytes of a range,
  \<open>page_query\<close> reports its attributes and \<open>page_stat\<close> fills the statistics. They read the free lists
  only, and each is related to the list \<open>X z\<close> of the free ranges of a zone.
\<close>

subsection \<open>Available bytes\<close>

partial_function (option) avail_loop :: "pstate \<Rightarrow> nat \<Rightarrow> nat \<Rightarrow> nat \<Rightarrow> nat \<Rightarrow> nat option" where
  "avail_loop s start check_end iter result =
     (if iter = PAGE_ERROR then Some result
      else if PAGE_END s iter \<le> start then avail_loop s start check_end (p_next s iter) result
      else if check_end \<le> iter then Some result
      else avail_loop s start check_end (p_next s iter)
             (add32 result (sub32 (min (PAGE_END s iter) check_end) (max iter start))))"

definition page_do_available :: "pstate \<Rightarrow> nat \<Rightarrow> nat \<Rightarrow> nat \<Rightarrow> nat option" where
  "page_do_available s zoneid start n_bytes =
     avail_loop s start (add32 start n_bytes) (z_root s zoneid) 0"

text \<open>The loop \<open>for (zone = 0; zone < MZONE_REAL_COUNT; ++zone)\<close>; its state is \<open>(start, n_bytes, result)\<close>.\<close>

fun page_available_loop :: "pstate \<Rightarrow> nat list \<Rightarrow> nat \<Rightarrow> nat \<Rightarrow> nat \<Rightarrow> nat option" where
  "page_available_loop s [] start n_bytes result = Some result"
| "page_available_loop s (zone # zs) start n_bytes result =
     (if MZONE_MIN zone \<le> start \<and> start \<le> MZONE_MAX zone
      then let zone_bytes = (if n_bytes < MZONE_MAX zone + 1 - start then n_bytes
                             else MZONE_MAX zone + 1 - start)
           in do {
             r \<leftarrow> page_do_available s zone start zone_bytes;
             if n_bytes - zone_bytes = 0 then Some (add32 result r)
             else page_available_loop s zs (add32 start zone_bytes) (n_bytes - zone_bytes) (add32 result r)
           }
      else page_available_loop s zs start n_bytes result)"

definition page_available :: "pstate \<Rightarrow> nat \<Rightarrow> nat \<Rightarrow> nat option" where
  "page_available s start n_bytes = page_available_loop s [0 ..< MZONE_REAL_COUNT] start n_bytes 0"

subsection \<open>Attributes\<close>

definition PAGEATTR_NONE :: nat where
  "PAGEATTR_NONE = 0"

definition PAGEATTR_ALLZERO :: nat where
  "PAGEATTR_ALLZERO = 0x10000"

definition PAGEATTR_ALLFREE :: nat where
  "PAGEATTR_ALLFREE = 0x1000000"

definition PAGEATTR_ALLSHIFT :: nat where
  "PAGEATTR_ALLSHIFT = 16"

partial_function (option) query_loop :: "pstate \<Rightarrow> nat \<Rightarrow> nat \<Rightarrow> nat \<Rightarrow> nat \<Rightarrow> nat \<Rightarrow> nat option" where
  "query_loop s start addr_end found iter result =
     (if iter = PAGE_ERROR then Some result
      else query_loop s start addr_end found (p_next s iter)
        (if iter \<le> addr_end \<and> start < PAGE_END s iter
         then let r1 = (result OR p_attr s iter);
                  r2 = (r1 AND u32 (push_bit PAGEATTR_ALLSHIFT (p_attr s iter)))
              in if found \<noteq> 0 \<and> start \<noteq> iter then r2 AND (U32 - 1 - PAGEATTR_ALLFREE) else r2
         else result))"

partial_function (option) query_zones :: "pstate \<Rightarrow> nat \<Rightarrow> nat \<Rightarrow> nat \<Rightarrow> nat \<Rightarrow> nat \<Rightarrow> nat \<Rightarrow> nat option" where
  "query_zones s start addr_end found z_iter z_end result =
     (if z_iter = z_end then Some result
      else do {
        r \<leftarrow> query_loop s start addr_end found (z_root s z_iter) result;
        query_zones s start addr_end found (z_iter + 1) z_end r
      })"

definition page_query :: "pstate \<Rightarrow> nat \<Rightarrow> nat \<Rightarrow> nat option" where
  "page_query s start n_bytes =
     (let found = 0;
          addr_end = add32 start n_bytes;
          z_iter = mzone_of start;
          z_end = mzone_of (sub32 addr_end 1) + 1
      in do {
        result \<leftarrow> (if n_bytes = 0 then Some (PAGEATTR_ALLZERO OR PAGEATTR_ALLFREE)
                   else query_zones s start addr_end found z_iter z_end (PAGEATTR_ALLZERO OR PAGEATTR_ALLFREE));
        Some (if found = 0 then PAGEATTR_NONE else result)
      })"

subsection \<open>Statistics\<close>

record mzstat =
  mz_avail :: nat
  mz_inuse :: nat
  mz_freemin :: nat
  mz_freemax :: nat
  mz_zeromin :: nat
  mz_zeromax :: nat
  mz_freeblk :: nat
  mz_zeroblk :: nat

record mstat =
  m_total :: mzstat
  m_zones :: "nat \<Rightarrow> mzstat"

definition stat_free :: "nat \<Rightarrow> mzstat \<Rightarrow> mzstat" where
  "stat_free sz zi = zi\<lparr>
     mz_freemin := (if sz < mz_freemin zi then sz else mz_freemin zi),
     mz_freemax := (if mz_freemax zi < sz then sz else mz_freemax zi),
     mz_freeblk := add32 (mz_freeblk zi) 1\<rparr>"

definition stat_zero :: "nat \<Rightarrow> mzstat \<Rightarrow> mzstat" where
  "stat_zero sz zi = zi\<lparr>
     mz_zeromin := (if sz < mz_zeromin zi then sz else mz_zeromin zi),
     mz_zeromax := (if mz_zeromax zi < sz then sz else mz_zeromax zi),
     mz_zeroblk := add32 (mz_zeroblk zi) 1\<rparr>"

partial_function (option) stat_loop :: "pstate \<Rightarrow> nat \<Rightarrow> mzstat \<Rightarrow> mzstat option" where
  "stat_loop s iter zi =
     (if iter = PAGE_ERROR then Some zi
      else let z1 = stat_free (p_size s iter) zi
           in stat_loop s (p_next s iter) (if zero_attr (p_attr s iter) then stat_zero (p_size s iter) z1 else z1))"

definition stat_total :: "mzstat \<Rightarrow> mzstat \<Rightarrow> mzstat" where
  "stat_total zi t = t\<lparr>
     mz_avail := add32 (mz_avail t) (mz_avail zi),
     mz_inuse := add32 (mz_inuse t) (mz_inuse zi),
     mz_freeblk := add32 (mz_freeblk t) (mz_freeblk zi),
     mz_zeroblk := add32 (mz_zeroblk t) (mz_zeroblk zi),
     mz_freemin := (if mz_freemin zi < mz_freemin t then mz_freemin zi else mz_freemin t),
     mz_zeromin := (if mz_zeromin zi < mz_zeromin t then mz_zeromin zi else mz_zeromin t),
     mz_freemax := (if mz_freemax t < mz_freemax zi then mz_freemax zi else mz_freemax t),
     mz_zeromax := (if mz_zeromax t < mz_zeromax zi then mz_zeromax zi else mz_zeromax t)\<rparr>"

definition stat_unset :: "mzstat \<Rightarrow> mzstat" where
  "stat_unset zi = zi\<lparr>
     mz_freemin := (if mz_freemin zi = PAGE_ERROR then 0 else mz_freemin zi),
     mz_zeromin := (if mz_zeromin zi = PAGE_ERROR then 0 else mz_zeromin zi)\<rparr>"

fun stat_zones :: "pstate \<Rightarrow> nat list \<Rightarrow> mstat \<Rightarrow> mstat option" where
  "stat_zones s [] info = Some info"
| "stat_zones s (z # zs) info = do {
     zi \<leftarrow> stat_loop s (z_root s z) ((m_zones info z)\<lparr>mz_avail := z_avail s z, mz_inuse := z_inuse s z\<rparr>);
     stat_zones s zs (info\<lparr>m_total := stat_total zi (m_total info), m_zones := (m_zones info)(z := stat_unset zi)\<rparr>)
   }"

definition page_stat :: "pstate \<Rightarrow> mstat \<Rightarrow> mstat option" where
  "page_stat s info = do {
     r \<leftarrow> stat_zones s [0 ..< MZONE_REAL_COUNT] (info\<lparr>m_total := (m_total info)\<lparr>
       mz_avail := 0, mz_inuse := 0, mz_freemin := PAGE_ERROR, mz_freemax := 0, mz_freeblk := 0,
       mz_zeromin := PAGE_ERROR, mz_zeromax := 0, mz_zeroblk := 0\<rparr>\<rparr>);
     Some (r\<lparr>m_total := stat_unset (m_total r)\<rparr>)
   }"

subsection \<open>Available bytes are counted exactly\<close>

lemma franges_finite: "finite (free_bytes xs)"
  by (auto simp: free_bytes_def rset_def)

lemma avail_loop_correct:
  assumes "plist s l xs" and "franges lo hi xs" and "hi \<le> VM_HOST_BASE" and "start \<le> ce" "ce \<le> VM_HOST_BASE"
    and "res + card (free_bytes xs \<inter> {start ..< ce}) < U32"
  shows "avail_loop s start ce (mem s l) res = Some (res + card (free_bytes xs \<inter> {start ..< ce}))"
  using assms(1,2,6)
proof (induction xs arbitrary: l lo res)
  case Nil
  then show ?case by (simp add: avail_loop.simps)
next
  case (Cons r xs)
  obtain p sz at where r: "r = (p, sz, at)" by (cases r)
  have p: "mem s l = p" "plist s p xs" "p_next s p = mem s p" "PAGE_END s p = p + sz"
    and f: "franges (p + sz + 1) hi xs" "p + sz \<le> VM_HOST_BASE" "0 < sz" and ne: "p \<noteq> PAGE_ERROR"
    using Cons.prems r assms(3) by (auto simp: p_next_def PAGE_END_def)
  have later: "p + sz < a" if "a \<in> free_bytes xs" for a using free_bytes_bounds [OF f(1)] that by auto
  have split: "free_bytes (r # xs) \<inter> {start ..< ce} =
      ({p ..< p + sz} \<inter> {start ..< ce}) \<union> (free_bytes xs \<inter> {start ..< ce})" using r by auto
  have disj: "({p ..< p + sz} \<inter> {start ..< ce}) \<inter> (free_bytes xs \<inter> {start ..< ce}) = {}"
    using later by fastforce
  have card: "card (free_bytes (r # xs) \<inter> {start ..< ce}) =
      card ({p ..< p + sz} \<inter> {start ..< ce}) + card (free_bytes xs \<inter> {start ..< ce})"
    unfolding split by (rule card_Un_disjoint) (use disj franges_finite in auto)
  consider (skip) "p + sz \<le> start" | (stop) "start < p + sz" "ce \<le> p" | (add) "start < p + sz" "p < ce" by linarith
  then show ?case
  proof cases
    case skip
    then have none: "{p ..< p + sz} \<inter> {start ..< ce} = {}" by auto
    have "avail_loop s start ce (mem s l) res = avail_loop s start ce (mem s p) res"
      using p ne skip by (subst avail_loop.simps) simp
    then show ?thesis using Cons.IH [OF p(2) f(1), of res] Cons.prems(3) unfolding card none by simp
  next
    case stop
    then have "free_bytes (r # xs) \<inter> {start ..< ce} = {}" unfolding split using later by fastforce
    moreover have "avail_loop s start ce (mem s l) res = Some res"
      using p ne stop by (subst avail_loop.simps) simp
    ultimately show ?thesis by simp
  next
    case add
    let ?k = "min (p + sz) ce - max p start"
    have "{p ..< p + sz} \<inter> {start ..< ce} = {max p start ..< min (p + sz) ce}" by auto
    then have k: "card ({p ..< p + sz} \<inter> {start ..< ce}) = ?k" by simp
    have "sub32 (min (p + sz) ce) (max p start) = ?k"
      using add f(2) assms(4,5) by (intro sub32_id) (auto simp: min_def max_def)
    moreover have "add32 res ?k = res + ?k" using Cons.prems(3) card k by (intro add32_id) simp
    ultimately have "avail_loop s start ce (mem s l) res = avail_loop s start ce (mem s p) (res + ?k)"
      using p ne add by (subst avail_loop.simps) simp
    then show ?thesis using Cons.IH [OF p(2) f(1), of "res + ?k"] Cons.prems(3) card k by simp
  qed
qed


lemma page_do_available_correct:
  assumes wf: "pwf s X" and z: "z < MZONE_REAL_COUNT" and e: "start + n \<le> MZONE_MAX z + 1"
  shows "page_do_available s z start n = Some (card (free_bytes (X z) \<inter> {start ..< start + n}))"
proof -
  have hi: "MZONE_MAX z + 1 \<le> VM_HOST_BASE" using zone_max_below_host [OF z] by simp
  have ok: "plist s (z_root_at s z) (X z)" "franges (MZONE_MIN z) (MZONE_MAX z + 1) (X z)"
    using wf z unfolding pwf_def zone_ok_def by blast+
  have "card (free_bytes (X z) \<inter> {start ..< start + n}) \<le> card {start ..< start + n}"
    by (rule card_mono) auto
  then show ?thesis
    using avail_loop_correct [OF ok hi, of start "start + n" 0] e hi
    by (simp add: page_do_available_def z_root_def add32_id)
qed

lemma all_free_split:
  assumes wf: "pwf s X"
  shows "start < 0x100000 \<Longrightarrow> all_free X \<inter> {start ..< ce} =
      (free_bytes (X 0) \<inter> {start ..< min ce 0x100000}) \<union> (free_bytes (X 1) \<inter> {0x100000 ..< ce})"
    "0x100000 \<le> start \<Longrightarrow> all_free X \<inter> {start ..< ce} = free_bytes (X 1) \<inter> {start ..< ce}"
proof -
  have "free_bytes (X 0) \<subseteq> {0 ..< 0x100000}" "free_bytes (X 1) \<subseteq> {0x100000 ..< VM_HOST_BASE}"
    using zone_free_bytes [OF wf, of 0] zone_free_bytes [OF wf, of 1] by (simp_all add: MZONE_REAL_COUNT_def)
  then show "start < 0x100000 \<Longrightarrow> all_free X \<inter> {start ..< ce} =
      (free_bytes (X 0) \<inter> {start ..< min ce 0x100000}) \<union> (free_bytes (X 1) \<inter> {0x100000 ..< ce})"
    "0x100000 \<le> start \<Longrightarrow> all_free X \<inter> {start ..< ce} = free_bytes (X 1) \<inter> {start ..< ce}"
    unfolding all_free_2 by force+
qed

text \<open>
  C22: \<open>page_available\<close> returns exactly the number of free bytes in the given range, also when the
  range crosses the zone boundary.
\<close>

theorem page_available_correct:
  assumes wf: "pwf s X" and n: "0 < n_bytes" and e: "start + n_bytes \<le> VM_HOST_BASE"
  shows "page_available s start n_bytes = Some (card (all_free X \<inter> {start ..< start + n_bytes}))"
proof -
  have z: "0 < MZONE_REAL_COUNT" "1 < MZONE_REAL_COUNT" by (simp_all add: MZONE_REAL_COUNT_def)
  have zs: "[0 ..< MZONE_REAL_COUNT] = [0, 1]" by (simp add: MZONE_REAL_COUNT_def upt_rec)
  have small: "card (B \<inter> {x ..< y}) \<le> y - x" for B and x y :: nat
    using card_mono [of "{x ..< y}" "B \<inter> {x ..< y}"] by simp
  consider (hi) "0x100000 \<le> start" | (lo) "start < 0x100000" "start + n_bytes \<le> 0x100000"
    | (both) "start < 0x100000" "0x100000 < start + n_bytes" by linarith
  then show ?thesis
  proof cases
    case hi
    have zb: "(if n_bytes < MZONE_MAX 1 + 1 - start then n_bytes else MZONE_MAX 1 + 1 - start) = n_bytes" using e by auto
    show ?thesis
      using page_do_available_correct [OF wf z(2), of start n_bytes] all_free_split(2) [OF wf hi] e n hi
        small [of "free_bytes (X 1)" start "start + n_bytes"]
      unfolding page_available_def zs page_available_loop.simps Let_def zb by (simp add: add32_id)
  next
    case lo
    have zb: "(if n_bytes < MZONE_MAX 0 + 1 - start then n_bytes else MZONE_MAX 0 + 1 - start) = n_bytes" using lo by auto
    have "all_free X \<inter> {start ..< start + n_bytes} = free_bytes (X 0) \<inter> {start ..< start + n_bytes}"
      using all_free_split(1) [OF wf lo(1), of "start + n_bytes"] lo by (simp add: min_def)
    then show ?thesis
      using page_do_available_correct [OF wf z(1), of start n_bytes] n lo e
        small [of "free_bytes (X 0)" start "start + n_bytes"]
      unfolding page_available_def zs page_available_loop.simps Let_def zb by (simp add: add32_id)
  next
    case both
    let ?k = "0x100000 - start"
    let ?B = "free_bytes (X 0) \<inter> {start ..< 0x100000}" and ?C = "free_bytes (X 1) \<inter> {0x100000 ..< start + n_bytes}"
    have s1: "page_do_available s 0 start ?k = Some (card ?B)"
      using page_do_available_correct [OF wf z(1), of start ?k] both by simp
    have k: "0x100000 + (n_bytes - ?k) = start + n_bytes" using both by simp
    have s2: "page_do_available s 1 0x100000 (n_bytes - ?k) = Some (card ?C)"
      using page_do_available_correct [OF wf z(2), of "0x100000" "n_bytes - ?k", unfolded k] e by simp
    have c: "card (all_free X \<inter> {start ..< start + n_bytes}) = card ?B + card ?C"
      using all_free_split(1) [OF wf both(1), of "start + n_bytes"] both
      by (simp add: min_def) (subst card_Un_disjoint, auto)
    have b: "card ?B + card ?C < U32" "card ?B < U32"
      using small [of "free_bytes (X 0)" start "0x100000"] small [of "free_bytes (X 1)" "0x100000" "start + n_bytes"] e both
      by linarith+
    have zb: "(if n_bytes < MZONE_MAX 0 + 1 - start then n_bytes else MZONE_MAX 0 + 1 - start) = ?k"
      "(if n_bytes - ?k < MZONE_MAX 1 + 1 - 0x100000 then n_bytes - ?k else MZONE_MAX 1 + 1 - 0x100000) = n_bytes - ?k"
      "add32 start ?k = 0x100000" using both e by (auto simp: add32_id)
    show ?thesis
      using s1 s2 c both b unfolding page_available_def zs page_available_loop.simps Let_def zb by (simp add: add32_id)
  qed
qed

theorem page_available_correct_witness:
  "page_available page_demo 0x1FF000 0x3000 = Some 0x2000"
proof -
  have "{0x200000 ..< 0x204000} \<inter> {0x1FF000 ..< 0x202000} = {0x200000 ..< 0x202000 :: nat}" by auto
  then show ?thesis
    using page_available_correct [OF page_demo_wf, of "0x3000" "0x1FF000"]
    by (simp add: all_free_2 demo_ranges_def)
qed


subsection \<open>Attributes\<close>

lemma query_loop_total: "plist s l xs \<Longrightarrow> franges lo hi xs \<Longrightarrow> hi \<le> VM_HOST_BASE \<Longrightarrow>
    \<exists>r. query_loop s start ae found (mem s l) res = Some r"
proof (induction xs arbitrary: l lo res)
  case Nil
  then show ?case by (simp add: query_loop.simps)
next
  case (Cons r xs)
  obtain p sz at where r: "r = (p, sz, at)" by (cases r)
  have p: "mem s l = p" "plist s p xs" "p_next s p = mem s p" and f: "franges (p + sz + 1) hi xs"
    and ne: "p \<noteq> PAGE_ERROR" using Cons.prems r by (auto simp: p_next_def)
  show ?case using Cons.IH [OF p(2) f Cons.prems(3)] p ne by (subst query_loop.simps) simp
qed

lemma query_zones_total:
  assumes wf: "pwf s X" and "z + k = ze" "ze \<le> MZONE_REAL_COUNT"
  shows "\<exists>r. query_zones s start ae found z ze res = Some r"
  using assms(2,3)
proof (induction k arbitrary: z res)
  case 0
  then show ?case by (simp add: query_zones.simps)
next
  case (Suc k)
  have z: "z < MZONE_REAL_COUNT" "z \<noteq> ze" using Suc.prems by auto
  have ok: "plist s (z_root_at s z) (X z)" "franges (MZONE_MIN z) (MZONE_MAX z + 1) (X z)"
    using wf z unfolding pwf_def zone_ok_def by blast+
  have hi: "MZONE_MAX z + 1 \<le> VM_HOST_BASE" using zone_max_below_host [OF z(1)] by simp
  obtain r where r: "query_loop s start ae found (z_root s z) res = Some r"
    using query_loop_total [OF ok hi] unfolding z_root_def by blast
  show ?case using Suc.IH [of "z + 1" r] Suc.prems r z by (subst query_zones.simps) simp
qed

text \<open>
  \<open>page_query\<close> returns \<open>PAGEATTR_NONE\<close> for every range, because \<open>found\<close> is never increased;
  it never reports a free page.
\<close>

theorem page_query_always_none:
  assumes wf: "pwf s X" and e: "start + n_bytes \<le> U32 - 1"
  shows "page_query s start n_bytes = Some PAGEATTR_NONE"
proof (cases "n_bytes = 0")
  case False
  have "mzone_of start \<le> mzone_of (start + n_bytes - 1)" using False by (auto simp: mzone_of_eq)
  then have "mzone_of start + (mzone_of (start + n_bytes - 1) + 1 - mzone_of start) = mzone_of (start + n_bytes - 1) + 1"
    by simp
  from query_zones_total [OF wf this] mzone_of_bounds(1) [of "start + n_bytes - 1"] obtain r where
    "query_zones s start (start + n_bytes) 0 (mzone_of start) (mzone_of (start + n_bytes - 1) + 1)
       (PAGEATTR_ALLZERO OR PAGEATTR_ALLFREE) = Some r" by (metis Suc_eq_plus1 Suc_leI)
  then show ?thesis using False e by (simp add: page_query_def add32_id sub32_id)
qed (simp add: page_query_def)

theorem page_query_always_none_witness: "page_query page_demo 0x200000 4096 = Some PAGEATTR_NONE"
  by (rule page_query_always_none [OF page_demo_wf]) simp

subsection \<open>Statistics\<close>

definition stat_range :: "frange \<Rightarrow> mzstat \<Rightarrow> mzstat" where
  "stat_range r zi = (case r of (p, sz, at) \<Rightarrow>
     if zero_attr at then stat_zero sz (stat_free sz zi) else stat_free sz zi)"

lemma stat_range_simp:
  "stat_range (p, sz, at) zi = (if zero_attr at then stat_zero sz (stat_free sz zi) else stat_free sz zi)"
  by (simp add: stat_range_def)

lemma stat_loop_fold: "plist s l xs \<Longrightarrow> franges lo hi xs \<Longrightarrow> hi \<le> VM_HOST_BASE \<Longrightarrow>
    stat_loop s (mem s l) zi = Some (fold stat_range xs zi)"
proof (induction xs arbitrary: l lo zi)
  case Nil
  then show ?case by (simp add: stat_loop.simps)
next
  case (Cons r xs)
  obtain p sz at where r: "r = (p, sz, at)" by (cases r)
  have p: "mem s l = p" "plist s p xs" "p_next s p = mem s p" "p_size s p = sz" "p_attr s p = at"
    and f: "franges (p + sz + 1) hi xs" and ne: "p \<noteq> PAGE_ERROR" using Cons.prems r by (auto simp: p_next_def)
  show ?case using Cons.IH [OF p(2) f Cons.prems(3)] p ne r
    by (subst stat_loop.simps) (simp add: stat_range_simp)
qed

lemma stat_total_sel:
  "mz_avail (stat_total zi t) = add32 (mz_avail t) (mz_avail zi)"
  "mz_inuse (stat_total zi t) = add32 (mz_inuse t) (mz_inuse zi)"
  by (simp_all add: stat_total_def)

lemma stat_unset_sel:
  "mz_avail (stat_unset zi) = mz_avail zi" "mz_inuse (stat_unset zi) = mz_inuse zi"
  "mz_freeblk (stat_unset zi) = mz_freeblk zi" "mz_freemax (stat_unset zi) = mz_freemax zi"
  "mz_freemin (stat_unset zi) = (if mz_freemin zi = PAGE_ERROR then 0 else mz_freemin zi)"
  by (simp_all add: stat_unset_def)

definition stat0 :: mzstat where
  "stat0 = \<lparr>mz_avail = 0, mz_inuse = 0, mz_freemin = 0, mz_freemax = 0, mz_zeromin = 0, mz_zeromax = 0,
     mz_freeblk = 0, mz_zeroblk = 0\<rparr>"

lemma stat_fold_fields:
  "mz_freeblk (fold stat_range xs zi) = (if xs = [] then mz_freeblk zi else u32 (mz_freeblk zi + length xs))"
  "mz_avail (fold stat_range xs zi) = mz_avail zi" "mz_inuse (fold stat_range xs zi) = mz_inuse zi"
  "mz_freemax (fold stat_range xs zi) = fold max (map (fst \<circ> snd) xs) (mz_freemax zi)"
  "mz_freemin (fold stat_range xs zi) = fold min (map (fst \<circ> snd) xs) (mz_freemin zi)"
proof (induction xs arbitrary: zi)
  case (Cons r xs)
  { case 1 show ?case using Cons.IH(1) [of "stat_range r zi"]
      by (auto simp: stat_range_def stat_free_def stat_zero_def add32_def u32_def mod_simps split: prod.splits) }
  { case 2 show ?case using Cons.IH(2) [of "stat_range r zi"]
      by (auto simp: stat_range_def stat_free_def stat_zero_def split: prod.splits) }
  { case 3 show ?case using Cons.IH(3) [of "stat_range r zi"]
      by (auto simp: stat_range_def stat_free_def stat_zero_def split: prod.splits) }
  { case 4 show ?case using Cons.IH(4) [of "stat_range r zi"]
      by (auto simp: stat_range_def stat_free_def stat_zero_def max_def split: prod.splits) }
  { case 5 show ?case using Cons.IH(5) [of "stat_range r zi"]
      by (auto simp: stat_range_def stat_free_def stat_zero_def min_def split: prod.splits) }
qed simp_all


text \<open>
  \<open>page_stat\<close> returns, and the totals of available and used bytes are the sums over the zones.
  The other members of a zone's entry are never initialised: the counters are added to, and the
  minima and maxima taken with, whatever the caller's structure held before.
\<close>

theorem page_stat_correct:
  assumes wf: "pwf s X" and z: "z < MZONE_REAL_COUNT"
  shows "\<exists>r. page_stat s info = Some r \<and>
    mz_avail (m_total r) = u32 (z_avail s 0 + z_avail s 1) \<and>
    mz_inuse (m_total r) = u32 (z_inuse s 0 + z_inuse s 1) \<and>
    mz_avail (m_zones r z) = z_avail s z \<and> mz_inuse (m_zones r z) = z_inuse s z \<and>
    (X z \<noteq> [] \<longrightarrow> mz_freeblk (m_zones r z) = u32 (mz_freeblk (m_zones info z) + length (X z))) \<and>
    mz_freemax (m_zones r z) = fold max (map (fst \<circ> snd) (X z)) (mz_freemax (m_zones info z)) \<and>
    (mz_freemin (m_zones info z) = 0 \<longrightarrow> mz_freemin (m_zones r z) = 0)"
proof -
  have zs: "[0 ..< MZONE_REAL_COUNT] = [0, 1]" by (simp add: MZONE_REAL_COUNT_def upt_rec)
  have "stat_loop s (z_root s y) zi = Some (fold stat_range (X y) zi)" if "y < MZONE_REAL_COUNT" for y zi
  proof -
    have "plist s (z_root_at s y) (X y)" "franges (MZONE_MIN y) (MZONE_MAX y + 1) (X y)"
      using wf that unfolding pwf_def zone_ok_def by blast+
    then show ?thesis unfolding z_root_def using zone_max_below_host [OF that] by (intro stat_loop_fold) auto
  qed
  then have l: "stat_loop s (z_root s 0) zi = Some (fold stat_range (X 0) zi)"
    "stat_loop s (z_root s 1) zi = Some (fold stat_range (X 1) zi)" for zi
    by (simp_all add: MZONE_REAL_COUNT_def)
  have z': "z = 0 \<or> z = 1" using z by (auto simp: MZONE_REAL_COUNT_def less_2_cases_iff)
  have min0: "fold min ys (0::nat) = 0" for ys by (induction ys) simp_all
  define f where "f y = fold stat_range (X y) ((m_zones info y)\<lparr>mz_avail := z_avail s y, mz_inuse := z_inuse s y\<rparr>)" for y
  have f: "mz_avail (f y) = z_avail s y" "mz_inuse (f y) = z_inuse s y"
    "X y \<noteq> [] \<longrightarrow> mz_freeblk (f y) = u32 (mz_freeblk (m_zones info y) + length (X y))"
    "mz_freemax (f y) = fold max (map (fst \<circ> snd) (X y)) (mz_freemax (m_zones info y))"
    "mz_freemin (m_zones info y) = 0 \<longrightarrow> mz_freemin (f y) = 0" for y
    by (simp_all add: f_def stat_fold_fields min0)
  obtain r where r: "page_stat s info = Some r"
    "mz_avail (m_total r) = u32 (z_avail s 0 + z_avail s 1)" "mz_inuse (m_total r) = u32 (z_inuse s 0 + z_inuse s 1)"
    "m_zones r 0 = stat_unset (f 0)" "m_zones r 1 = stat_unset (f 1)"
    unfolding page_stat_def zs
    by (simp add: l f_def [symmetric] stat_total_sel stat_unset_sel f add32_def u32_def mod_simps del: One_nat_def)
  then show ?thesis using z' by (elim disjE) (simp_all add: stat_unset_sel f del: One_nat_def)
qed

theorem page_stat_correct_witness:
  "\<exists>r. page_stat page_demo \<lparr>m_total = stat0, m_zones = \<lambda>_. stat0\<rparr> = Some r \<and>
     mz_freeblk (m_zones r 1) = u32 (length (demo_ranges 1)) \<and> mz_freemin (m_zones r 1) = 0"
  using page_stat_correct [OF page_demo_wf, of 1 "\<lparr>m_total = stat0, m_zones = \<lambda>_. stat0\<rparr>"]
  by (auto simp: MZONE_REAL_COUNT_def stat0_def demo_ranges_def)

end
