(* ===== verification/Libc_Mem.thy ===== *)
theory Libc_Mem
  imports Prelude
begin

text \<open>
  The memory functions of \<open>src/libs/libc/templates/memory.code\<close>, which the C library and the kernel
  instantiate for elements of \<open>S\<close> = 1, 2, 4 and 8 bytes (i386: no native 64-bit operations). Memory
  is a store of bytes, an element of \<open>S\<close> bytes is little endian, and a pointer is a natural number
  with \<open>NULL = 0\<close>. The string instructions (\<open>rep movs\<close>, \<open>rep stos\<close>, \<open>repe cmps\<close>) are written out
  with the direction flag clear, as the calling convention requires.
\<close>

type_synonym bmem = "nat \<Rightarrow> 8 word"

abbreviation (input) NULL :: nat where
  "NULL \<equiv> 0"

named_theorems le_simps "reading and writing little-endian elements"

subsection \<open>Elements\<close>

fun get_le :: "nat \<Rightarrow> bmem \<Rightarrow> nat \<Rightarrow> nat" where
  "get_le 0 m a = 0"
| "get_le (Suc k) m a = unat (m a) + 256 * get_le k m (a + 1)"

fun put_le :: "nat \<Rightarrow> nat \<Rightarrow> nat \<Rightarrow> bmem \<Rightarrow> bmem" where
  "put_le 0 a v m = m"
| "put_le (Suc k) a v m = put_le k (a + 1) (v div 256) (m(a := of_nat v))"

subsection \<open>Copying\<close>

text \<open>\<open>rep movs\<close> with count \<open>c\<close>; the result is the final \<open>edi\<close> and memory.\<close>

fun rep_movs :: "nat \<Rightarrow> nat \<Rightarrow> nat \<Rightarrow> nat \<Rightarrow> bmem \<Rightarrow> nat \<times> bmem" where
  "rep_movs S edi esi 0 m = (edi, m)"
| "rep_movs S edi esi (Suc c) m = rep_movs S (edi + S) (esi + S) c (put_le S edi (get_le S m esi) m)"

text \<open>\<open>while (n--) *(T *)_dst++ = *_src++;\<close>\<close>

fun copy_loop :: "nat \<Rightarrow> nat \<Rightarrow> nat \<Rightarrow> nat \<Rightarrow> bmem \<Rightarrow> nat \<times> bmem" where
  "copy_loop S d s 0 m = (d, m)"
| "copy_loop S d s (Suc n) m = copy_loop S (d + S) (s + S) n (put_le S d (get_le S m s) m)"

definition core_mempcpyl :: "nat \<Rightarrow> nat \<Rightarrow> nat \<Rightarrow> bmem \<Rightarrow> nat \<times> bmem" where
  "core_mempcpyl dst src n m = (if 0x100 \<le> n then rep_movs 4 dst src n m else copy_loop 4 dst src n m)"

definition core_mempcpyw :: "nat \<Rightarrow> nat \<Rightarrow> nat \<Rightarrow> bmem \<Rightarrow> nat \<times> bmem" where
  "core_mempcpyw dst src n m = (if 0x100 \<le> n then rep_movs 2 dst src n m else copy_loop 2 dst src n m)"

definition core_mempcpyb :: "nat \<Rightarrow> nat \<Rightarrow> nat \<Rightarrow> bmem \<Rightarrow> nat \<times> bmem" where
  "core_mempcpyb dst src n m =
     (if 0x100 \<le> n
      then (if 0x400 \<le> n \<and> (n AND 7) = 0 then core_mempcpyl dst src (drop_bit 2 n) m
            else if 0x400 \<le> n \<and> (n AND 7) = 2 then core_mempcpyw dst src (drop_bit 1 n) m
            else rep_movs 1 dst src n m)
      else copy_loop 1 dst src n m)"

text \<open>The instance for \<open>S\<close> bytes; \<open>core_mempcpyq\<close> copies twice as many 32-bit elements.\<close>

definition core_mempcpy :: "nat \<Rightarrow> nat \<Rightarrow> nat \<Rightarrow> nat \<Rightarrow> bmem \<Rightarrow> nat \<times> bmem" where
  "core_mempcpy S dst src n m =
     (if S = 8 then core_mempcpyl dst src (n * 2) m
      else if S = 4 then core_mempcpyl dst src n m
      else if S = 2 then core_mempcpyw dst src n m
      else core_mempcpyb dst src n m)"

definition libc_memcpy :: "nat \<Rightarrow> nat \<Rightarrow> nat \<Rightarrow> nat \<Rightarrow> bmem \<Rightarrow> nat \<times> bmem" where
  "libc_memcpy S dst src n m = (dst, snd (core_mempcpy S dst src n m))"

definition libc_mempcpy :: "nat \<Rightarrow> nat \<Rightarrow> nat \<Rightarrow> nat \<Rightarrow> bmem \<Rightarrow> nat \<times> bmem" where
  "libc_mempcpy S dst src n m = core_mempcpy S dst src n m"

text \<open>\<open>while (iter != end) *--iter = *--siter;\<close>, with \<open>n\<close> elements left.\<close>

fun move_down_loop :: "nat \<Rightarrow> nat \<Rightarrow> nat \<Rightarrow> nat \<Rightarrow> bmem \<Rightarrow> bmem" where
  "move_down_loop S d s 0 m = m"
| "move_down_loop S d s (Suc n) m =
     move_down_loop S d s n (put_le S (d + S * n) (get_le S m (s + S * n)) m)"

definition libc_memmove :: "nat \<Rightarrow> nat \<Rightarrow> nat \<Rightarrow> nat \<Rightarrow> bmem \<Rightarrow> nat \<times> bmem" where
  "libc_memmove S dst src n m =
     (dst, if dst < src then snd (copy_loop S dst src n m) else move_down_loop S dst src n m)"

subsection \<open>Filling\<close>

text \<open>\<open>rep stos\<close> and \<open>while (n--) *iter++ = (T)h;\<close>\<close>

fun rep_stos :: "nat \<Rightarrow> nat \<Rightarrow> nat \<Rightarrow> nat \<Rightarrow> bmem \<Rightarrow> bmem" where
  "rep_stos S edi v 0 m = m"
| "rep_stos S edi v (Suc c) m = rep_stos S (edi + S) v c (put_le S edi v m)"

fun fill_loop :: "nat \<Rightarrow> nat \<Rightarrow> nat \<Rightarrow> nat \<Rightarrow> bmem \<Rightarrow> bmem" where
  "fill_loop S i v 0 m = m"
| "fill_loop S i v (Suc n) m = fill_loop S (i + S) v n (put_le S i v m)"

text \<open>\<open>memsetw\<close>, \<open>memsetl\<close> and \<open>memsetq\<close>: the element is unsigned and of the width of the store.\<close>

definition libc_memset_wide :: "nat \<Rightarrow> nat \<Rightarrow> nat \<Rightarrow> nat \<Rightarrow> bmem \<Rightarrow> nat \<times> bmem" where
  "libc_memset_wide S dst v n m =
     (dst, if 0x100 \<le> n \<and> S < 8 then rep_stos S dst v n m else fill_loop S dst v n m)"

text \<open>
  The byte version takes an \<open>int\<close>. From 1024 bytes on it multiplies that \<open>int\<close> into all bytes of a
  wider element.
\<close>

definition libc_memset :: "nat \<Rightarrow> int \<Rightarrow> nat \<Rightarrow> bmem \<Rightarrow> nat \<times> bmem" where
  "libc_memset dst h n m =
     (if 0x100 \<le> n
      then (if 0x400 \<le> n \<and> (n AND 7) = 0
            then libc_memset_wide 4 dst (nat ((0x01010101 * h) mod 2 ^ 32)) (drop_bit 2 n) m
            else if 0x400 \<le> n \<and> (n AND 7) = 2
            then libc_memset_wide 2 dst (nat ((0x0101 * h) mod 2 ^ 16)) (drop_bit 1 n) m
            else (dst, rep_stos 1 dst (nat (h mod 256)) n m))
      else (dst, fill_loop 1 dst (nat (h mod 256)) n m))"

subsection \<open>Comparing\<close>

text \<open>
  \<open>repe cmps\<close> subtracts the element at \<open>edi\<close> from the element at \<open>esi\<close> and goes on while they are
  equal; the result is the last pair compared, \<open>(0, 0)\<close> (equal flags) when the count is zero.
  The statement passes \<open>a\<close> in \<open>edi\<close> and \<open>b\<close> in \<open>esi\<close>, sets the result to 1 when the comparison was
  \<open>above\<close> and to -1 when it was \<open>below\<close>.
\<close>

fun repe_cmps :: "nat \<Rightarrow> bmem \<Rightarrow> nat \<Rightarrow> nat \<Rightarrow> nat \<Rightarrow> nat \<times> nat" where
  "repe_cmps S m esi edi 0 = (0, 0)"
| "repe_cmps S m esi edi (Suc c) =
     (if c \<noteq> 0 \<and> get_le S m esi = get_le S m edi then repe_cmps S m (esi + S) (edi + S) c
      else (get_le S m esi, get_le S m edi))"

text \<open>\<open>while (aiter != end && ((av = *aiter++) == (bv = *biter++)));\<close> of the 64-bit instance.\<close>

fun cmp_loop :: "nat \<Rightarrow> bmem \<Rightarrow> nat \<Rightarrow> nat \<Rightarrow> nat \<Rightarrow> nat \<times> nat \<Rightarrow> nat \<times> nat" where
  "cmp_loop S m aiter biter 0 r = r"
| "cmp_loop S m aiter biter (Suc n) r =
     (let av = get_le S m aiter; bv = get_le S m biter
      in if av = bv then cmp_loop S m (aiter + S) (biter + S) n (av, bv) else (av, bv))"

definition libc_memcmp :: "nat \<Rightarrow> nat \<Rightarrow> nat \<Rightarrow> nat \<Rightarrow> bmem \<Rightarrow> int" where
  "libc_memcmp S a b n m =
     (if S < 8
      then (case repe_cmps S m b a n of (x, y) \<Rightarrow> if y < x then 1 else if x < y then - 1 else 0)
      else (case cmp_loop S m a b n (0, 0) of (av, bv) \<Rightarrow>
              signed_take_bit 31 (int av - int bv)))"

subsection \<open>Searching\<close>

text \<open>
  An element is compared with the needle cut to its width. The scans return the address reached.
\<close>

definition needle_eq :: "nat \<Rightarrow> bmem \<Rightarrow> nat \<Rightarrow> int \<Rightarrow> bool" where
  "needle_eq S m iter needle \<longleftrightarrow> int (get_le S m iter) = needle mod 2 ^ (8 * S)"

fun memchr_loop :: "nat \<Rightarrow> bmem \<Rightarrow> nat \<Rightarrow> int \<Rightarrow> nat \<Rightarrow> nat" where
  "memchr_loop S m iter needle 0 = NULL"
| "memchr_loop S m iter needle (Suc n) =
     (if needle_eq S m iter needle then iter else memchr_loop S m (iter + S) needle n)"

definition libc_memchr :: "nat \<Rightarrow> nat \<Rightarrow> int \<Rightarrow> nat \<Rightarrow> bmem \<Rightarrow> nat" where
  "libc_memchr S haystack needle n m = memchr_loop S m haystack needle n"

fun memrchr_loop :: "nat \<Rightarrow> bmem \<Rightarrow> nat \<Rightarrow> int \<Rightarrow> nat \<Rightarrow> nat" where
  "memrchr_loop S m haystack needle 0 = NULL"
| "memrchr_loop S m haystack needle (Suc n) =
     (if needle_eq S m (haystack + S * n) needle then haystack + S * n
      else memrchr_loop S m haystack needle n)"

definition libc_memrchr :: "nat \<Rightarrow> nat \<Rightarrow> int \<Rightarrow> nat \<Rightarrow> bmem \<Rightarrow> nat" where
  "libc_memrchr S haystack needle n m = memrchr_loop S m haystack needle n"

fun memend_loop :: "nat \<Rightarrow> bmem \<Rightarrow> nat \<Rightarrow> int \<Rightarrow> nat \<Rightarrow> nat" where
  "memend_loop S m iter needle 0 = iter"
| "memend_loop S m iter needle (Suc n) =
     (if needle_eq S m iter needle then iter else memend_loop S m (iter + S) needle n)"

definition libc_memend :: "nat \<Rightarrow> nat \<Rightarrow> int \<Rightarrow> nat \<Rightarrow> bmem \<Rightarrow> nat" where
  "libc_memend S haystack needle n m = memend_loop S m haystack needle n"

fun memrend_loop :: "nat \<Rightarrow> bmem \<Rightarrow> nat \<Rightarrow> int \<Rightarrow> nat \<Rightarrow> nat" where
  "memrend_loop S m haystack needle 0 = haystack"
| "memrend_loop S m haystack needle (Suc n) =
     (if needle_eq S m (haystack + S * n) needle then haystack + S * n
      else memrend_loop S m haystack needle n)"

definition libc_memrend :: "nat \<Rightarrow> nat \<Rightarrow> int \<Rightarrow> nat \<Rightarrow> bmem \<Rightarrow> nat" where
  "libc_memrend S haystack needle n m = memrend_loop S m haystack needle n"

definition libc_memlen :: "nat \<Rightarrow> nat \<Rightarrow> int \<Rightarrow> nat \<Rightarrow> bmem \<Rightarrow> nat" where
  "libc_memlen S haystack needle n m = (libc_memend S haystack needle n m - haystack) div S"

definition libc_memrlen :: "nat \<Rightarrow> nat \<Rightarrow> int \<Rightarrow> nat \<Rightarrow> bmem \<Rightarrow> nat" where
  "libc_memrlen S haystack needle n m = (libc_memrend S haystack needle n m - haystack) div S"

partial_function (option) rawmemchr_loop :: "nat \<Rightarrow> bmem \<Rightarrow> nat \<Rightarrow> int \<Rightarrow> nat option" where
  "rawmemchr_loop S m iter needle =
     (if needle_eq S m iter needle then Some iter else rawmemchr_loop S m (iter + S) needle)"

definition libc_rawmemchr :: "nat \<Rightarrow> nat \<Rightarrow> int \<Rightarrow> bmem \<Rightarrow> nat option" where
  "libc_rawmemchr S haystack needle m = rawmemchr_loop S m haystack needle"

text \<open>The backward scan starts at \<open>haystack\<close> and runs \<open>while (iter != haystack)\<close>.\<close>

partial_function (option) rawmemrchr_loop :: "nat \<Rightarrow> bmem \<Rightarrow> nat \<Rightarrow> nat \<Rightarrow> int \<Rightarrow> nat option" where
  "rawmemrchr_loop S m haystack iter needle =
     (if iter = haystack then Some iter
      else if needle_eq S m (iter - S) needle then Some (iter - S)
      else rawmemrchr_loop S m haystack (iter - S) needle)"

definition libc_rawmemrchr :: "nat \<Rightarrow> nat \<Rightarrow> int \<Rightarrow> bmem \<Rightarrow> nat option" where
  "libc_rawmemrchr S haystack needle m = rawmemrchr_loop S m haystack haystack needle"

definition libc_rawmemlen :: "nat \<Rightarrow> nat \<Rightarrow> int \<Rightarrow> bmem \<Rightarrow> nat option" where
  "libc_rawmemlen S haystack needle m =
     map_option (\<lambda>e. (e - haystack) div S) (libc_rawmemchr S haystack needle m)"

definition libc_rawmemrlen :: "nat \<Rightarrow> nat \<Rightarrow> int \<Rightarrow> bmem \<Rightarrow> nat option" where
  "libc_rawmemrlen S haystack needle m =
     map_option (\<lambda>e. (e - haystack) div S) (libc_rawmemrchr S haystack needle m)"

subsection \<open>Patterns\<close>

text \<open>
  \<open>((u8 *)&pattern)[k]\<close> is byte \<open>k\<close> of the pattern. The head loop writes bytes up to the next
  aligned address, the tail loop those left over. For 2-byte elements both are single \<open>if\<close>s.
\<close>

definition pat_byte :: "nat \<Rightarrow> nat \<Rightarrow> 8 word" where
  "pat_byte pattern k = of_nat (pattern div 256 ^ k)"

fun mempat_head :: "nat \<Rightarrow> nat \<Rightarrow> nat \<Rightarrow> nat \<Rightarrow> bmem \<Rightarrow> nat \<times> nat \<times> bmem" where
  "mempat_head S pattern iter 0 m = (iter, 0, m)"
| "mempat_head S pattern iter (Suc n) m =
     (if iter mod S = 0 then (iter, Suc n, m)
      else mempat_head S pattern (iter + 1) n (m(iter := pat_byte pattern (iter mod S))))"

fun mempat_tail :: "nat \<Rightarrow> nat \<Rightarrow> nat \<Rightarrow> nat \<Rightarrow> bmem \<Rightarrow> bmem" where
  "mempat_tail S pattern iter 0 m = m"
| "mempat_tail S pattern iter (Suc n) m =
     mempat_tail S pattern (iter + 1) n (m(iter := pat_byte pattern (iter mod S)))"

definition libc_mempat :: "nat \<Rightarrow> nat \<Rightarrow> nat \<Rightarrow> nat \<Rightarrow> bmem \<Rightarrow> nat \<times> bmem" where
  "libc_mempat S dst pattern n_bytes m =
     (let (iter, n, m1) =
            (if S = 2
             then (if n_bytes \<noteq> 0 \<and> dst mod 2 \<noteq> 0 then (dst + 1, n_bytes - 1, m(dst := pat_byte pattern 1))
                   else (dst, n_bytes, m))
             else mempat_head S pattern dst n_bytes m);
          m2 = snd (libc_memset_wide S iter pattern (n div S) m1);
          iter = iter + n;
          n = n mod S
      in (dst, if S = 2 then (if n \<noteq> 0 then m2(iter := pat_byte pattern 0) else m2)
               else mempat_tail S pattern iter n m2))"


subsection \<open>The block functions of \<open>src/libs/libc/string.c\<close>\<close>

text \<open>The loop of \<open>memmem\<close>, with \<open>end - iter\<close> as counter.\<close>

fun memmem_loop :: "nat \<Rightarrow> nat \<Rightarrow> nat \<Rightarrow> nat \<Rightarrow> bmem \<Rightarrow> nat" where
  "memmem_loop iter 0 needle needlelen m =
     (if libc_memcmp 1 iter needle needlelen m = 0 then iter else NULL)"
| "memmem_loop iter (Suc k) needle needlelen m =
     (if libc_memcmp 1 iter needle needlelen m = 0 then iter else memmem_loop (iter + 1) k needle needlelen m)"

definition libc_memmem :: "nat \<Rightarrow> nat \<Rightarrow> nat \<Rightarrow> nat \<Rightarrow> bmem \<Rightarrow> nat" where
  "libc_memmem haystack haystacklen needle needlelen m =
     (if haystacklen < needlelen then NULL
      else memmem_loop haystack (haystacklen - needlelen) needle needlelen m)"

fun memccpy_loop :: "nat \<Rightarrow> nat \<Rightarrow> int \<Rightarrow> nat \<Rightarrow> bmem \<Rightarrow> nat \<times> bmem" where
  "memccpy_loop d s c 0 m = (NULL, m)"
| "memccpy_loop d s c (Suc n) m =
     (let m' = m(d := m s)
      in if uint (m s) = c then (d + 1, m') else memccpy_loop (d + 1) (s + 1) c n m')"

definition libc_memccpy :: "nat \<Rightarrow> nat \<Rightarrow> int \<Rightarrow> nat \<Rightarrow> bmem \<Rightarrow> nat \<times> bmem" where
  "libc_memccpy dst src c n m = memccpy_loop dst src c n m"

definition libc_bcopy :: "nat \<Rightarrow> nat \<Rightarrow> nat \<Rightarrow> bmem \<Rightarrow> bmem" where
  "libc_bcopy src dst n m = snd (libc_memmove 1 dst src n m)"

definition libc_bzero :: "nat \<Rightarrow> nat \<Rightarrow> bmem \<Rightarrow> bmem" where
  "libc_bzero s n m = snd (libc_memset s 0 n m)"

subsection \<open>Elements: what a store writes\<close>

lemma put_le_bytes: "put_le S d v m a = (if d \<le> a \<and> a < d + S then of_nat (v div 256 ^ (a - d)) else m a)"
proof (induction S arbitrary: d v m a)
  case (Suc S)
  consider "a < d" | "a = d" | j where "a = d + Suc j"
    by (metis add_Suc_right less_imp_Suc_add linorder_neqE_nat)
  then show ?case by cases (simp_all add: Suc div_mult2_eq)
qed auto

lemma byte_256: "(256 :: 8 word) = 0"
  by simp

lemma get_le_div: "k < S \<Longrightarrow> of_nat (get_le S m a div 256 ^ k) = m (a + k)"
proof (induction S arbitrary: a k)
  case (Suc S)
  have u: "unat (m a) < 256" using unsigned_less [of "m a"] by simp
  show ?case
  proof (cases k)
    case 0
    then show ?thesis by (simp add: byte_256 del: word_of_nat_eq_0_iff)
  next
    case (Suc j)
    then have "of_nat (get_le S m (a + 1) div 256 ^ j) = m (a + 1 + j)" using Suc.IH [of j "a + 1"] Suc.prems by simp
    moreover have "(unat (m a) + 256 * get_le S m (a + 1)) div 256 = get_le S m (a + 1)" using u by simp
    ultimately show ?thesis using Suc by (simp add: div_mult2_eq)
  qed
qed simp

definition copied :: "nat \<Rightarrow> nat \<Rightarrow> nat \<Rightarrow> bmem \<Rightarrow> bmem" where
  "copied d s n m = (\<lambda>a. if d \<le> a \<and> a < d + n then m (s + (a - d)) else m a)"

lemma put_get_le: "put_le S d (get_le S m s) m = copied d s S m"
  by (auto simp: fun_eq_iff put_le_bytes copied_def get_le_div)

lemma get_le_cong: "(\<And>k. k < S \<Longrightarrow> m (a + k) = m' (a' + k)) \<Longrightarrow> get_le S m a = get_le S m' a'"
proof (induction S arbitrary: a a')
  case (Suc S)
  have "get_le S m (a + 1) = get_le S m' (a' + 1)" using Suc.prems [of "Suc _"] by (intro Suc.IH) simp
  then show ?case using Suc.prems [of 0] by simp
qed simp

lemma get_le_less: "get_le S m a < 256 ^ S"
proof (induction S arbitrary: a)
  case (Suc S)
  have "unat (m a) < 256" using unsigned_less [of "m a"] by simp
  moreover have "get_le S m (a + 1) + 1 \<le> 256 ^ S" using Suc [of "a + 1"] by simp
  then have "256 * get_le S m (a + 1) + 256 \<le> 256 ^ Suc S" by simp
  ultimately show ?case by simp
qed simp

subsection \<open>Copying is exact\<close>

lemma copied_id [simp]: "copied d s 0 m = m" "copied d d n m = m"
  by (auto simp: copied_def fun_eq_iff)

text \<open>Copying upwards is exact unless the target starts inside the source.\<close>

lemma copied_up:
  assumes "d \<le> s \<or> s + (k + n) \<le> d"
  shows "copied (d + k) (s + k) n (copied d s k m) = copied d s (k + n) m"
proof
  fix a
  have "copied d s k m (s + k + (a - (d + k))) = m (s + k + (a - (d + k)))" if "d + k \<le> a" "a < d + (k + n)"
  proof -
    have "\<not> (d \<le> s + k + (a - (d + k)) \<and> s + k + (a - (d + k)) < d + k)" using assms that by linarith
    then show ?thesis unfolding copied_def by (rule if_not_P)
  qed
  moreover have "s + k + (a - (d + k)) = s + (a - d)" if "d + k \<le> a" using that by simp
  ultimately show "copied (d + k) (s + k) n (copied d s k m) a = copied d s (k + n) m a"
    by (cases "d + k \<le> a \<and> a < d + (k + n)") (auto simp: copied_def)
qed

lemma copy_loop_correct:
  "d \<le> s \<or> s + S * n \<le> d \<Longrightarrow> copy_loop S d s n m = (d + S * n, copied d s (S * n) m)"
proof (induction n arbitrary: d s m)
  case (Suc n)
  then have o: "d + S \<le> s + S \<or> s + S + S * n \<le> d + S" and o': "d \<le> s \<or> s + (S + S * n) \<le> d" by auto
  show ?case using Suc.IH [OF o] copied_up [OF o', of m] by (simp add: put_get_le)
qed simp

lemma rep_movs_loop: "rep_movs S d s n m = copy_loop S d s n m"
  by (induction n arbitrary: d s m) simp_all

lemma copied_down:
  assumes "s \<le> d \<or> d + (n + k) \<le> s"
  shows "copied d s n (copied (d + n) (s + n) k m) = copied d s (n + k) m"
proof
  fix a
  have "copied (d + n) (s + n) k m (s + (a - d)) = m (s + (a - d))" if "d \<le> a" "a < d + n"
  proof -
    have "\<not> (d + n \<le> s + (a - d) \<and> s + (a - d) < d + n + k)" using assms that by linarith
    then show ?thesis unfolding copied_def by (rule if_not_P)
  qed
  then show "copied d s n (copied (d + n) (s + n) k m) a = copied d s (n + k) m a"
    by (cases "d \<le> a \<and> a < d + n") (auto simp: copied_def)
qed

lemma move_down_loop_correct:
  "s \<le> d \<or> d + S * n \<le> s \<Longrightarrow> move_down_loop S d s n m = copied d s (S * n) m"
proof (induction n arbitrary: m)
  case (Suc n)
  then have o: "s \<le> d \<or> d + S * n \<le> s" and o': "s \<le> d \<or> d + (S * n + S) \<le> s" by auto
  show ?case using Suc.IH [OF o] copied_down [OF o', of m] by (simp add: put_get_le add.commute [of S])
qed simp

lemma and7: "((n::nat) AND 7) = n mod 8"
proof -
  have "(n AND 7) = take_bit 3 n" by (simp add: take_bit_eq_mask mask_eq_exp_minus_1)
  then show ?thesis by (simp add: take_bit_eq_mod)
qed

lemma drop_bit_exact:
  "n mod 8 = 0 \<Longrightarrow> 4 * drop_bit 2 n = (n::nat)" "n mod 8 = 2 \<Longrightarrow> 2 * drop_bit (Suc 0) n = (n::nat)"
  by (simp_all add: drop_bit_eq_div) presburger+

lemma core_mempcpy_correct:
  assumes "S \<in> {1, 2, 4, 8}" and "dst \<le> src \<or> src + S * n \<le> dst"
  shows "core_mempcpy S dst src n m = (dst + S * n, copied dst src (S * n) m)"
proof -
  have wide: "core_mempcpyl dst src k m = (dst + 4 * k, copied dst src (4 * k) m)" if "4 * k = S * n" for k
    using copy_loop_correct [of dst src 4 k m] assms(2) that by (simp add: core_mempcpyl_def rep_movs_loop)
  have word: "core_mempcpyw dst src k m = (dst + 2 * k, copied dst src (2 * k) m)" if "2 * k = S * n" for k
    using copy_loop_correct [of dst src 2 k m] assms(2) that by (simp add: core_mempcpyw_def rep_movs_loop)
  have byte: "core_mempcpyb dst src n m = (dst + n, copied dst src n m)" if "S = 1"
    using copy_loop_correct [of dst src 1 n m] assms(2) that wide [of "drop_bit 2 n"] word [of "drop_bit 1 n"]
    by (simp add: core_mempcpyb_def rep_movs_loop and7 drop_bit_exact)
  show ?thesis using assms(1) wide [of "n * 2"] wide [of n] word [of n] byte
    by (elim insertE) (auto simp: core_mempcpy_def)
qed




subsection \<open>Filling\<close>

lemma fill_loop_correct:
  "0 < S \<Longrightarrow> fill_loop S i v n m a = (if i \<le> a \<and> a < i + S * n then of_nat (v div 256 ^ ((a - i) mod S)) else m a)"
proof (induction n arbitrary: i m a)
  case (Suc n)
  consider "a < i" | j where "a = i + j" "j < S" | j where "a = i + S + j"
    by (metis le_Suc_ex not_less nat_add_left_cancel_less)
  then show ?case by cases (simp_all add: Suc put_le_bytes)
qed auto

lemma rep_stos_loop: "rep_stos S i v n m = fill_loop S i v n m"
  by (induction n arbitrary: i m) simp_all

lemma libc_memset_wide_correct:
  assumes "0 < S"
  shows "libc_memset_wide S dst v n m =
    (dst, \<lambda>a. if dst \<le> a \<and> a < dst + S * n then of_nat (v div 256 ^ ((a - dst) mod S)) else m a)"
  using fill_loop_correct [OF assms] by (simp add: libc_memset_wide_def rep_stos_loop fun_eq_iff)

lemma byte_step:
  assumes "h < 256" and "v = h + w * 256"
  shows "v div 256 = w" and "of_nat v = (of_nat h :: 8 word)"
  using assms by (simp_all add: byte_256 del: word_of_nat_eq_0_iff)

lemma repeat_byte4:
  assumes "h < 256" and "k < 4"
  shows "of_nat (16843009 * h div 256 ^ k) = (of_nat h :: 8 word)"
proof -
  have v: "16843009 * h = h + 65793 * h * 256" "65793 * h = h + 257 * h * 256" "257 * h = h + h * 256" by simp_all
  note b = byte_step [OF assms(1) v(1)] byte_step [OF assms(1) v(2)] byte_step [OF assms(1) v(3)]
  have "16843009 * h div 256 ^ 0 = 16843009 * h" "16843009 * h div 256 ^ 1 = 65793 * h"
    "16843009 * h div 256 ^ 2 = 257 * h" "16843009 * h div 256 ^ 3 = h"
    by (simp_all only: power_0 div_by_1 power_one_right power2_eq_square power3_eq_cube div_mult2_eq b)
  moreover have "k = 0 \<or> k = 1 \<or> k = 2 \<or> k = 3" using assms(2) by linarith
  ultimately show ?thesis using b(2,4,6) by (elim disjE) (simp_all only:)
qed

lemma repeat_byte2:
  assumes "h < 256" and "k < 2"
  shows "of_nat (257 * h div 256 ^ k) = (of_nat h :: 8 word)"
proof -
  have v: "257 * h = h + h * 256" by simp
  have "k = 0 \<or> k = 1" using assms(2) by linarith
  then show ?thesis using byte_step [OF assms(1) v]
    by (elim disjE) (simp_all only: power_0 div_by_1 power_one_right)
qed

lemma memset_bytes:
  assumes "0 \<le> h" and "h < 256"
  shows "libc_memset dst h n m = (dst, \<lambda>a. if dst \<le> a \<and> a < dst + n then of_int h else m a)"
proof -
  define k where "k = nat h"
  have k: "h = int k" "k < 256" using assms by (simp_all add: k_def)
  have v: "nat (0x01010101 * h mod 2 ^ 32) = 0x01010101 * k" "nat (0x0101 * h mod 2 ^ 16) = 0x0101 * k" "nat (h mod 256) = k"
    using k by (simp_all add: nat_mult_distrib)
  let ?r = "\<lambda>a. if dst \<le> a \<and> a < dst + n then of_nat k else m a"
  have b: "fill_loop 1 dst k n m = ?r" by (simp add: fun_eq_iff fill_loop_correct)
  have l: "libc_memset_wide 4 dst (0x01010101 * k) (drop_bit 2 n) m = (dst, ?r)" if "n mod 8 = 0"
    using that repeat_byte4 [OF k(2)] by (simp add: libc_memset_wide_correct drop_bit_exact fun_eq_iff)
  have w: "libc_memset_wide 2 dst (0x0101 * k) (drop_bit 1 n) m = (dst, ?r)" if "n mod 8 = 2"
    using that repeat_byte2 [OF k(2)] by (simp add: libc_memset_wide_correct drop_bit_exact fun_eq_iff)
  have "libc_memset dst h n m = (dst, ?r)"
    unfolding libc_memset_def v and7 rep_stos_loop b using l w by simp
  moreover have "of_int h = (of_nat k :: 8 word)" using k(1) by simp
  ultimately show ?thesis by (simp add: fun_eq_iff)
qed

text \<open>
  \<open>memset\<close> with a fill value that is a byte writes that byte to exactly the given block, whichever
  instruction width it picks; the wide versions repeat the bytes of the element. For a negative fill
  value, which C converts to a byte, a long \<open>memset\<close> does not write that byte: with \<open>-1\<close> and 1024
  bytes three of every four bytes become \<open>0xFE\<close>, with 1023 bytes all are \<open>0xFF\<close>.
\<close>

theorem libc_memset_correct:
  assumes "0 \<le> h" and "h < 256" and "0 < S"
  shows "libc_memset dst h n m = (dst, \<lambda>a. if dst \<le> a \<and> a < dst + n then of_int h else m a) \<and>
    libc_memset_wide S dst v n m =
      (dst, \<lambda>a. if dst \<le> a \<and> a < dst + S * n then of_nat (v div 256 ^ ((a - dst) mod S)) else m a) \<and>
    snd (libc_memset dst (- 1) 1024 m) (dst + 1) = 0xFE \<and> snd (libc_memset dst (- 1) 1023 m) (dst + 1) = 0xFF"
  using memset_bytes [OF assms(1,2)] libc_memset_wide_correct [OF assms(3)]
  by (simp add: libc_memset_def [of dst "- 1"] libc_memset_wide_correct and7 rep_stos_loop fill_loop_correct)

theorem libc_memset_correct_witness: "snd (libc_memset 4096 0x20 2048 (\<lambda>_. 0)) 6143 = 0x20"
  using libc_memset_correct [of "0x20" 1 4096 2048 "\<lambda>_. 0"] by simp

subsection \<open>Comparing\<close>

fun lex_cmp :: "nat list \<Rightarrow> nat list \<Rightarrow> int" where
  "lex_cmp (x # xs) (y # ys) = (if x < y then - 1 else if y < x then 1 else lex_cmp xs ys)"
| "lex_cmp _ _ = 0"

definition elems :: "nat \<Rightarrow> bmem \<Rightarrow> nat \<Rightarrow> nat \<Rightarrow> nat list" where
  "elems S m a n = map (\<lambda>i. get_le S m (a + S * i)) [0 ..< n]"

lemma elems_simps [simp]:
  "elems S m a 0 = []" "elems S m a (Suc n) = get_le S m a # elems S m (a + S) n"
  by (simp_all add: elems_def upt_conv_Cons map_Suc_upt [symmetric] add.assoc del: upt_Suc)

lemma length_elems [simp]: "length (elems S m a n) = n"
  by (simp add: elems_def)

lemma lex_cmp_swap: "lex_cmp ys xs = - lex_cmp xs ys"
proof (induction xs arbitrary: ys)
  case Nil
  show ?case by (cases ys) simp_all
next
  case (Cons x xs)
  then show ?case by (cases ys) auto
qed

lemma lex_cmp_0: "length xs = length ys \<Longrightarrow> lex_cmp xs ys = 0 \<longleftrightarrow> xs = ys"
  by (induction xs ys rule: list_induct2) auto

lemma repe_cmps_correct:
  "(case repe_cmps S m b a n of (x, y) \<Rightarrow> if y < x then 1 else if x < y then - 1 else 0)
     = lex_cmp (elems S m b n) (elems S m a n)"
proof (induction n arbitrary: a b)
  case (Suc n)
  then show ?case by (cases n) auto
qed simp

lemma get_le_4:
  "get_le 4 m a = unat (m a) + 256 * (unat (m (a + 1)) + 256 * (unat (m (a + 2)) + 256 * unat (m (a + 3))))"
proof -
  have "(4::nat) = Suc (Suc (Suc (Suc 0)))" by simp
  then show ?thesis by (simp only: get_le.simps) (simp add: numeral_2_eq_2 numeral_3_eq_3)
qed

lemma get_le_add: "get_le (j + k) m a = get_le j m a + 256 ^ j * get_le k m (a + j)"
  by (induction j arbitrary: a) (simp_all add: algebra_simps)

lemma get_le_8: "get_le 8 m a = get_le 4 m a + 2 ^ 32 * get_le 4 m (a + 4)"
  using get_le_add [of 4 4 m a] by simp

lemma memcmpq_truncates:
  assumes "get_le 4 m a = get_le 4 m b"
  shows "libc_memcmp 8 a b 1 m = 0"
proof -
  let ?d = "int (get_le 8 m a) - int (get_le 8 m b)"
  have d: "?d = (int (get_le 4 m (a + 4)) - int (get_le 4 m (b + 4))) * 2 ^ 32"
    using assms by (simp add: get_le_8)
  have "take_bit (Suc 31) ?d = take_bit (Suc 31) 0" unfolding d by (simp add: take_bit_eq_mod)
  then have "signed_take_bit 31 ?d = 0"
    using signed_take_bit_eq_iff_take_bit_eq [of 31 ?d 0] by (metis signed_take_bit_of_0)
  then show ?thesis by (simp add: libc_memcmp_def Let_def)
qed

text \<open>
  C24: \<open>memcmp\<close> is zero exactly when the blocks agree, but its sign is that of the comparison with the
  operands exchanged: it is positive when the first difference has the greater element in the
  \<^emph>\<open>second\<close> block. The 64-bit instance is C code and converts the 64-bit difference to \<open>int\<close>, so it
  reports two elements as equal whenever they agree in their lower 32 bits.
\<close>

theorem libc_memcmp_sign:
  assumes "S < 8"
  shows "libc_memcmp S a b n m = - lex_cmp (elems S m a n) (elems S m b n) \<and>
    (get_le 4 m x = get_le 4 m y \<longrightarrow> libc_memcmp 8 x y 1 m = 0)"
  using assms memcmpq_truncates [of m x y]
  by (simp add: libc_memcmp_def [of S] repe_cmps_correct lex_cmp_swap [of "elems S m b n"])

theorem libc_memcmp_sign_witness:
  "libc_memcmp 1 100 200 1 (\<lambda>a. if a = 100 then 7 else 0) = - 1 \<and>
   libc_memcmp 8 0 8 1 (\<lambda>a. if a = 4 then 1 else 0) = 0 \<and>
   get_le 8 (\<lambda>a. if a = 4 then 1 else 0) 0 \<noteq> get_le 8 (\<lambda>a. if a = 4 then 1 else 0) 8"
  using libc_memcmp_sign [of 1 100 200 1 "\<lambda>a. if a = 100 then 7 else 0"]
    libc_memcmp_sign [of 1 0 0 0 "\<lambda>a. if a = 4 then 1 else 0" 0 8] by (simp add: get_le_8 get_le_4)

subsection \<open>Searching\<close>

text \<open>\<open>first_at P h S n i\<close>: element \<open>i\<close> is the first of \<open>n\<close> elements from \<open>h\<close> on that satisfies \<open>P\<close>.\<close>

definition first_at :: "(nat \<Rightarrow> bool) \<Rightarrow> nat \<Rightarrow> nat \<Rightarrow> nat \<Rightarrow> nat \<Rightarrow> bool" where
  "first_at P h S n i \<longleftrightarrow> i < n \<and> P (h + S * i) \<and> (\<forall>j<i. \<not> P (h + S * j))"

definition last_at :: "(nat \<Rightarrow> bool) \<Rightarrow> nat \<Rightarrow> nat \<Rightarrow> nat \<Rightarrow> nat \<Rightarrow> bool" where
  "last_at P h S n i \<longleftrightarrow> i < n \<and> P (h + S * i) \<and> (\<forall>j. i < j \<longrightarrow> j < n \<longrightarrow> \<not> P (h + S * j))"

lemma first_at_cases:
  obtains i where "first_at P h S n i" | "\<forall>i<n. \<not> P (h + S * i)"
proof (cases "\<exists>i<n. P (h + S * i)")
  case True
  then have l: "(LEAST i. P (h + S * i)) < n" "P (h + S * (LEAST i. P (h + S * i)))"
    by (auto intro: LeastI Least_le le_less_trans)
  then have "first_at P h S n (LEAST i. P (h + S * i))" unfolding first_at_def using not_less_Least by blast
  then show ?thesis by (rule that(1))
qed (use that(2) in blast)

lemma first_at_Suc:
  "\<not> P h \<Longrightarrow> first_at P h S (Suc n) (Suc i) \<longleftrightarrow> first_at P (h + S) S n i"
  by (auto simp: first_at_def less_Suc_eq_0_disj add.assoc)

lemma first_at_unique: "first_at P h S n i \<Longrightarrow> first_at P h S n j \<Longrightarrow> i = j"
  unfolding first_at_def by (metis linorder_neqE_nat)

lemma memchr_memend_first:
  "first_at (\<lambda>a. needle_eq S m a x) h S n i \<Longrightarrow> memchr_loop S m h x n = h + S * i \<and> memend_loop S m h x n = h + S * i"
proof (induction n arbitrary: h i)
  case (Suc n)
  show ?case
  proof (cases i)
    case 0
    then show ?thesis using Suc.prems by (simp add: first_at_def)
  next
    case i: (Suc j)
    then have "\<not> needle_eq S m h x" using Suc.prems by (force simp: first_at_def)
    then show ?thesis using Suc.IH [of "h + S" j] Suc.prems i first_at_Suc [of "\<lambda>a. needle_eq S m a x"] by simp
  qed
qed (simp add: first_at_def)

lemma memchr_memend_none:
  "\<forall>i<n. \<not> needle_eq S m (h + S * i) x \<Longrightarrow> memchr_loop S m h x n = NULL \<and> memend_loop S m h x n = h + S * n"
proof (induction n arbitrary: h)
  case (Suc n)
  have "\<forall>i<n. \<not> needle_eq S m (h + S + S * i) x" using Suc.prems [rule_format, of "Suc _"] by (simp add: add.assoc)
  then show ?case using Suc.IH [of "h + S"] Suc.prems by (auto simp: add.assoc)
qed simp

lemma memrchr_memrend_last:
  "last_at (\<lambda>a. needle_eq S m a x) h S n i \<Longrightarrow> memrchr_loop S m h x n = h + S * i \<and> memrend_loop S m h x n = h + S * i"
proof (induction n)
  case (Suc n)
  then show ?case
  proof (cases "needle_eq S m (h + S * n) x")
    case True
    then have "i = n" using Suc.prems by (auto simp: last_at_def less_Suc_eq)
    then show ?thesis using True by simp
  next
    case False
    then have "last_at (\<lambda>a. needle_eq S m a x) h S n i" using Suc.prems by (auto simp: last_at_def less_Suc_eq)
    then show ?thesis using Suc.IH False by simp
  qed
qed (simp add: last_at_def)

lemma memrchr_memrend_none:
  "\<forall>i<n. \<not> needle_eq S m (h + S * i) x \<Longrightarrow> memrchr_loop S m h x n = NULL \<and> memrend_loop S m h x n = h"
  by (induction n) simp_all

text \<open>
  The bounded searches: \<open>memchr\<close> finds the first and \<open>memrchr\<close> the last of \<open>n\<close> elements that
  equals the needle cut to the element width, \<open>memlen\<close> and \<open>memrlen\<close> give their index, and without
  a match the results are \<open>NULL\<close>, \<open>NULL\<close>, \<open>n\<close> and \<open>0\<close>. The unbounded \<open>rawmemrchr\<close> begins at
  \<open>haystack\<close> and stops as soon as it is there, so it never looks at memory and returns its argument.
\<close>

theorem memory_search_correct:
  assumes "0 < S"
  shows "(first_at (\<lambda>a. needle_eq S m a x) h S n i \<longrightarrow> libc_memchr S h x n m = h + S * i \<and> libc_memlen S h x n m = i) \<and>
    (last_at (\<lambda>a. needle_eq S m a x) h S n i \<longrightarrow> libc_memrchr S h x n m = h + S * i \<and> libc_memrlen S h x n m = i) \<and>
    ((\<forall>j<n. \<not> needle_eq S m (h + S * j) x) \<longrightarrow>
       libc_memchr S h x n m = NULL \<and> libc_memlen S h x n m = n \<and> libc_memrchr S h x n m = NULL \<and> libc_memrlen S h x n m = 0) \<and>
    libc_rawmemrchr S h x m = Some h"
  using assms memchr_memend_first [of S m x h n i] memrchr_memrend_last [of S m x h n i]
    memchr_memend_none [of n S m h x] memrchr_memrend_none [of n S m h x]
  by (auto simp: libc_memchr_def libc_memrchr_def libc_memlen_def libc_memrlen_def libc_memend_def libc_memrend_def
      libc_rawmemrchr_def rawmemrchr_loop.simps)

theorem memory_search_correct_witness:
  "libc_memchr 1 100 7 3 (\<lambda>a. of_nat (a - 95)) = 102 \<and> libc_memrlen 1 100 7 3 (\<lambda>a. of_nat (a - 95)) = 2"
proof -
  have "first_at (\<lambda>a. needle_eq 1 (\<lambda>a. of_nat (a - 95)) a 7) 100 1 3 2"
    "last_at (\<lambda>a. needle_eq 1 (\<lambda>a. of_nat (a - 95)) a 7) 100 1 3 2"
    by (auto simp: first_at_def last_at_def needle_eq_def less_2_cases_iff)
  then show ?thesis using memory_search_correct [of 1 "\<lambda>a. of_nat (a - 95)" 7 100 3 2] by simp
qed

lemma rawmemchr_first:
  "first_at (\<lambda>a. needle_eq S m a x) h S n i \<Longrightarrow> rawmemchr_loop S m h x = Some (h + S * i)"
proof (induction i arbitrary: h n)
  case 0
  then show ?case by (simp add: first_at_def rawmemchr_loop.simps)
next
  case (Suc i)
  then obtain k where k: "n = Suc k" by (cases n) (auto simp: first_at_def)
  have "\<not> needle_eq S m h x" using Suc.prems by (force simp: first_at_def)
  then show ?case
    using Suc.IH [of "h + S" k] Suc.prems k first_at_Suc [of "\<lambda>a. needle_eq S m a x"] by (simp add: rawmemchr_loop.simps)
qed


lemma memcmp_eq_0: "libc_memcmp (Suc 0) a b n m = 0 \<longleftrightarrow> (\<forall>i<n. m (a + i) = m (b + i))"
proof -
  have "libc_memcmp (Suc 0) a b n m = 0 \<longleftrightarrow> elems (Suc 0) m b n = elems (Suc 0) m a n"
    by (simp add: libc_memcmp_def repe_cmps_correct lex_cmp_0)
  also have "\<dots> \<longleftrightarrow> (\<forall>i<n. m (a + i) = m (b + i))"
    by (auto simp: elems_def list_eq_iff_nth_eq word_unat_eq_iff)
  finally show ?thesis .
qed

text \<open>The needle of \<open>k\<close> bytes occurs at \<open>a\<close>.\<close>

definition occurs_at :: "bmem \<Rightarrow> nat \<Rightarrow> nat \<Rightarrow> nat \<Rightarrow> bool" where
  "occurs_at m needle k a \<longleftrightarrow> (\<forall>i<k. m (a + i) = m (needle + i))"

lemma memmem_loop_simps:
  "memmem_loop h 0 needle k m = (if occurs_at m needle k h then h else NULL)"
  "memmem_loop h (Suc n) needle k m = (if occurs_at m needle k h then h else memmem_loop (h + 1) n needle k m)"
  by (simp_all add: memcmp_eq_0 occurs_at_def)

declare memmem_loop.simps [simp del]

lemma memmem_loop_first:
  "first_at (occurs_at m needle k) h 1 (Suc n) i \<Longrightarrow> memmem_loop h n needle k m = h + i"
proof (induction n arbitrary: h i)
  case 0
  then show ?case by (auto simp: memmem_loop_simps first_at_def)
next
  case (Suc n)
  show ?case
  proof (cases i)
    case 0
    then show ?thesis using Suc.prems by (simp add: memmem_loop_simps first_at_def)
  next
    case i: (Suc j)
    then have h: "\<not> occurs_at m needle k h" using Suc.prems by (force simp: first_at_def)
    then show ?thesis
      using Suc.IH [of "h + 1" j] Suc.prems i first_at_Suc [of "occurs_at m needle k" h 1 "Suc n" j] h by (simp add: memmem_loop_simps)
  qed
qed

lemma memmem_loop_none:
  "\<forall>i\<le>n. \<not> occurs_at m needle k (h + i) \<Longrightarrow> memmem_loop h n needle k m = NULL"
proof (induction n arbitrary: h)
  case (Suc n)
  have "\<not> occurs_at m needle k h" "\<forall>i\<le>n. \<not> occurs_at m needle k (h + 1 + i)"
    using Suc.prems [rule_format, of 0] Suc.prems [rule_format, of "Suc _"] by simp_all
  then show ?case using Suc.IH [of "h + 1"] by (simp add: memmem_loop_simps)
qed (simp add: memmem_loop_simps)

text \<open>
  \<open>memmem\<close> returns the first address at which the needle occurs inside the haystack, and \<open>NULL\<close>
  when it does not occur there; an empty needle is found at the start.
\<close>

theorem libc_memmem_correct:
  assumes "k \<le> n"
  shows "(first_at (occurs_at m needle k) h 1 (Suc (n - k)) i \<longrightarrow> libc_memmem h n needle k m = h + i) \<and>
    ((\<forall>i\<le>n - k. \<not> occurs_at m needle k (h + i)) \<longrightarrow> libc_memmem h n needle k m = NULL)"
  using assms memmem_loop_first [of m needle k h "n - k" i] memmem_loop_none [of "n - k" m needle k h]
  by (simp add: libc_memmem_def)

theorem libc_memmem_correct_witness: "libc_memmem 100 5 200 2 (\<lambda>a. if a \<in> {102, 103, 200, 201} then 1 else 0) = 102"
proof -
  have "first_at (occurs_at (\<lambda>a. if a \<in> {102, 103, 200, 201} then 1 else 0) 200 2) 100 1 (Suc (5 - 2)) 2"
    by (auto simp: first_at_def occurs_at_def less_2_cases_iff)
  then show ?thesis
    using libc_memmem_correct [of 2 5 "\<lambda>a. if a \<in> {102, 103, 200, 201} then 1 else 0" 200 100 2] by simp
qed


subsection \<open>Patterns\<close>

lemma mempat_tail_bytes:
  "mempat_tail S pat i n m a = (if i \<le> a \<and> a < i + n then pat_byte pat (a mod S) else m a)"
proof (induction n arbitrary: i m)
  case (Suc n)
  then show ?case by (cases "a = i") auto
qed auto

lemma mempat_head_aligned: "S dvd iter \<Longrightarrow> mempat_head S pat iter n m = (iter, n, m)"
  by (cases n) simp_all

text \<open>
  What \<open>mempat\<close> writes from an aligned address on: the whole elements are filled, but the pointer
  is then advanced by all of \<open>n\<close>, so the \<open>n mod S\<close> left-over bytes are stored \<^emph>\<open>behind\<close> the block of
  \<open>n\<close> bytes and the last \<open>n mod S\<close> bytes of the block keep their old contents.
\<close>

theorem libc_mempat_overruns:
  assumes S: "S \<in> {2, 4, 8}" and a: "S dvd dst"
  shows "snd (libc_mempat S dst pat n m) = (\<lambda>a.
    if dst \<le> a \<and> a < dst + (n - n mod S) then pat_byte pat ((a - dst) mod S)
    else if dst + n \<le> a \<and> a < dst + n + n mod S then pat_byte pat (if S = 2 then 0 else a mod S)
    else m a)"
proof -
  let ?m2 = "\<lambda>a. if dst \<le> a \<and> a < dst + (n - n mod S) then pat_byte pat ((a - dst) mod S) else m a"
  have S0: "0 < S" using S by auto
  have n: "S * (n div S) = n - n mod S" by (simp add: minus_mod_eq_mult_div)
  have m2: "snd (libc_memset_wide S dst pat (n div S) m) = ?m2"
    unfolding libc_memset_wide_correct [OF S0] n pat_byte_def by simp
  have le: "n - n mod S \<le> n" by simp
  show ?thesis
  proof (cases "S = 2")
    case True
    then have "snd (libc_mempat S dst pat n m) = (if n mod S \<noteq> 0 then ?m2(dst + n := pat_byte pat 0) else ?m2)"
      using a m2 by (simp add: libc_mempat_def Let_def dvd_eq_mod_eq_0)
    moreover have "n mod S = 0 \<or> n mod S = 1" using True by auto
    ultimately show ?thesis using True le by (elim disjE) (auto simp: fun_eq_iff)
  next
    case False
    then have "snd (libc_mempat S dst pat n m) = mempat_tail S pat (dst + n) (n mod S) ?m2"
      using m2 a by (simp add: libc_mempat_def Let_def mempat_head_aligned)
    then show ?thesis using False le by (auto simp: mempat_tail_bytes fun_eq_iff)
  qed
qed

theorem libc_mempat_overruns_witness:
  "snd (libc_mempat 4 4096 0x44332211 6 (\<lambda>_. 0)) 4100 = 0 \<and> snd (libc_mempat 4 4096 0x44332211 6 (\<lambda>_. 0)) 4102 = 0x33"
  using libc_mempat_overruns [of 4 4096 "0x44332211" 6 "\<lambda>_. 0"] by (simp add: pat_byte_def)

subsection \<open>\<open>memccpy\<close>\<close>

lemma memccpy_loop_found:
  assumes "d \<le> s \<or> s + k < d"
  shows "(\<forall>i<k. uint (m (s + i)) \<noteq> c) \<Longrightarrow> k < n \<Longrightarrow> uint (m (s + k)) = c \<Longrightarrow>
    memccpy_loop d s c n m = (d + k + 1, copied d s (k + 1) m)"
  using assms
proof (induction k arbitrary: d s n m)
  case 0
  then obtain n' where "n = Suc n'" by (cases n) auto
  then show ?case using 0 by (auto simp: copied_def fun_eq_iff)
next
  case (Suc k)
  then obtain n' where n: "n = Suc n'" by (cases n) auto
  have c: "m(d := m s) = copied d s 1 m" by (auto simp: copied_def fun_eq_iff)
  have k: "copied d s 1 m (s + 1 + i) = m (s + 1 + i)" if "i \<le> k" for i
    using Suc.prems(4) that by (auto simp: copied_def)
  have "memccpy_loop (d + 1) (s + 1) c n' (copied d s 1 m) = (d + 1 + k + 1, copied (d + 1) (s + 1) (k + 1) (copied d s 1 m))"
  proof (rule Suc.IH)
    show "\<forall>i<k. uint (copied d s 1 m (s + 1 + i)) \<noteq> c" using Suc.prems(1) [rule_format, of "Suc _"] k by simp
    show "k < n'" using Suc.prems(2) n by simp
    show "uint (copied d s 1 m (s + 1 + k)) = c" using Suc.prems(3) k [of k] by simp
    show "d + 1 \<le> s + 1 \<or> s + 1 + k < d + 1" using Suc.prems(4) by auto
  qed
  moreover have "copied (d + 1) (s + 1) (k + 1) (copied d s 1 m) = copied d s (1 + (k + 1)) m"
    using Suc.prems(4) by (intro copied_up) auto
  ultimately show ?case using Suc.prems(1) [rule_format, of 0] n c by simp
qed


subsection \<open>What the string functions rely on\<close>

text \<open>
  A block copier: it copies exactly, unless the target starts inside the source. The string functions
  are clients of this contract only.
\<close>

locale block_copy =
  fixes cp :: "nat \<Rightarrow> nat \<Rightarrow> nat \<Rightarrow> bmem \<Rightarrow> nat \<times> bmem"
  assumes cp: "\<not> (s < d \<and> d < s + n) \<Longrightarrow> snd (cp d s n m) = copied d s n m"

interpretation memcpy1: block_copy "libc_memcpy 1"
  by unfold_locales (simp add: libc_memcpy_def core_mempcpy_correct not_less)

interpretation mempcpy1: block_copy "libc_mempcpy 1"
  by unfold_locales (simp add: libc_mempcpy_def core_mempcpy_correct not_less)

interpretation memmove1: block_copy "libc_memmove 1"
  by unfold_locales (simp add: libc_memmove_def copy_loop_correct move_down_loop_correct)

end
