(* ===== verification/Libc_Ctype.thy ===== *)
theory Libc_Ctype
  imports Prelude
begin

text \<open>
  Character classification: the attribute table and the functions of \<open>src/libs/libc/ctype.c\<close>, the
  masks and the \<open>ASCII_*\<close> predicates of \<open>src/libs/libc/ctype.h\<close>. Characters are \<open>int\<close> values.
\<close>

named_theorems ctype_defs "the classification functions"

subsection \<open>Masks and predicates\<close>

text \<open>On a little-endian machine \<open>F_SLOT\<close> exchanges the two bytes of an attribute.\<close>

definition F_SLOT :: "nat \<Rightarrow> nat" where
  "F_SLOT x = (push_bit 8 x OR drop_bit 8 x) mod 65536"

definition F_UPPER :: nat where "F_UPPER = 0x0001"
definition F_LOWER :: nat where "F_LOWER = 0x0002"
definition F_ALPHA :: nat where "F_ALPHA = 0x0004"
definition F_DIGIT :: nat where "F_DIGIT = 0x0008"
definition F_XDIGIT :: nat where "F_XDIGIT = 0x0010"
definition F_SPACE :: nat where "F_SPACE = 0x0020"
definition F_PRINT :: nat where "F_PRINT = 0x0040"
definition F_GRAPH :: nat where "F_GRAPH = 0x0080"
definition F_BLANK :: nat where "F_BLANK = 0x0100"
definition F_CNTRL :: nat where "F_CNTRL = 0x0200"
definition F_PUNCT :: nat where "F_PUNCT = 0x0400"
definition F_ALNUM :: nat where "F_ALNUM = 0x0800"

lemmas F_defs = F_UPPER_def F_LOWER_def F_ALPHA_def F_DIGIT_def F_XDIGIT_def F_SPACE_def
  F_PRINT_def F_GRAPH_def F_BLANK_def F_CNTRL_def F_PUNCT_def F_ALNUM_def

definition ASCII_ISCNTRL :: "int \<Rightarrow> bool" where
  "ASCII_ISCNTRL ch \<longleftrightarrow> ch \<le> 0x1f \<or> ch = 0x7f"

definition ASCII_ISBLANK :: "int \<Rightarrow> bool" where
  "ASCII_ISBLANK ch \<longleftrightarrow> ch = 0x09 \<or> ch = 0x20"

definition ASCII_ISSPACE :: "int \<Rightarrow> bool" where
  "ASCII_ISSPACE ch \<longleftrightarrow> (ch \<ge> 0x09 \<and> ch \<le> 0x0d) \<or> ch = 0x20"

definition ASCII_ISUPPER :: "int \<Rightarrow> bool" where
  "ASCII_ISUPPER ch \<longleftrightarrow> ch \<ge> 0x41 \<and> ch \<le> 0x5a"

definition ASCII_ISLOWER :: "int \<Rightarrow> bool" where
  "ASCII_ISLOWER ch \<longleftrightarrow> ch \<ge> 0x61 \<and> ch \<le> 0x7a"

definition ASCII_ISALPHA :: "int \<Rightarrow> bool" where
  "ASCII_ISALPHA ch \<longleftrightarrow> ASCII_ISUPPER ch \<or> ASCII_ISLOWER ch"

definition ASCII_ISDIGIT :: "int \<Rightarrow> bool" where
  "ASCII_ISDIGIT ch \<longleftrightarrow> ch \<ge> 0x30 \<and> ch \<le> 0x39"

definition ASCII_ISXDIGIT :: "int \<Rightarrow> bool" where
  "ASCII_ISXDIGIT ch \<longleftrightarrow> ASCII_ISDIGIT ch \<or> (ch \<ge> 0x41 \<and> ch \<le> 0x46) \<or> (ch \<ge> 0x61 \<and> ch \<le> 0x66)"

definition ASCII_ISALNUM :: "int \<Rightarrow> bool" where
  "ASCII_ISALNUM ch \<longleftrightarrow> ASCII_ISUPPER ch \<or> ASCII_ISLOWER ch \<or> ASCII_ISDIGIT ch"

definition ASCII_ISPUNCT :: "int \<Rightarrow> bool" where
  "ASCII_ISPUNCT ch \<longleftrightarrow> (ch \<ge> 0x21 \<and> ch \<le> 0x2f) \<or> (ch \<ge> 0x3a \<and> ch \<le> 0x40) \<or>
     (ch \<ge> 0x5b \<and> ch \<le> 0x60) \<or> (ch \<ge> 0x7b \<and> ch \<le> 0x7e)"

definition ASCII_ISGRAPH :: "int \<Rightarrow> bool" where
  "ASCII_ISGRAPH ch \<longleftrightarrow> ch \<ge> 0x21 \<and> ch \<le> 0x7e"

definition ASCII_ISPRINT :: "int \<Rightarrow> bool" where
  "ASCII_ISPRINT ch \<longleftrightarrow> ch \<ge> 0x20 \<and> ch \<le> 0x7e"

definition ASCII_TOLOWER :: "int \<Rightarrow> int" where
  "ASCII_TOLOWER ch = (if ASCII_ISUPPER ch then ch + 0x20 else ch)"

definition ASCII_TOUPPER :: "int \<Rightarrow> int" where
  "ASCII_TOUPPER ch = (if ASCII_ISLOWER ch then ch - 0x20 else ch)"

lemmas ASCII_defs = ASCII_ISCNTRL_def ASCII_ISBLANK_def ASCII_ISSPACE_def ASCII_ISUPPER_def ASCII_ISLOWER_def
  ASCII_ISALPHA_def ASCII_ISDIGIT_def ASCII_ISXDIGIT_def ASCII_ISALNUM_def ASCII_ISPUNCT_def
  ASCII_ISGRAPH_def ASCII_ISPRINT_def

subsection \<open>The table\<close>

text \<open>
  The arguments of \<open>F_SLOT\<close> in the sixteen rows of the table, written as runs of equal entries.
\<close>

definition chattr_runs :: "(nat \<times> nat) list" where
  "chattr_runs =
     [(9, 0x0200), (1, 0x0320), (4, 0x0220), (2, 0x0200),
      (16, 0x0200),
      (1, 0x0160), (15, 0x04c0),
      (10, 0x08d8), (6, 0x04c0),
      (1, 0x04c0), (6, 0x08d5), (9, 0x08c5),
      (11, 0x08c5), (5, 0x04c0),
      (1, 0x04c0), (6, 0x08d6), (9, 0x08c6),
      (11, 0x08c6), (4, 0x04c0), (1, 0x0200),
      (128, 0x0000)]"

definition chattr_slots :: "nat list" where
  "chattr_slots = concat (map (\<lambda>(k, v). replicate k v) chattr_runs)"

definition libc___chattr :: "nat list" where
  "libc___chattr = map F_SLOT chattr_slots"

subsection \<open>The functions\<close>

text \<open>\<open>(__UINT8_TYPE__)(c)\<close> is the index, the result is the attribute cut to the mask.\<close>

definition libc___isctype :: "int \<Rightarrow> nat \<Rightarrow> int" where
  "libc___isctype c type = int ((libc___chattr ! nat (c mod 256)) AND type)"

definition libc_isctype :: "int \<Rightarrow> int \<Rightarrow> int" where
  "libc_isctype ch msk = libc___isctype ch (nat (msk mod 65536))"

definition libc_isalpha :: "int \<Rightarrow> int" where [ctype_defs]: "libc_isalpha ch = libc___isctype ch (F_SLOT F_ALPHA)"
definition libc_isupper :: "int \<Rightarrow> int" where [ctype_defs]: "libc_isupper ch = libc___isctype ch (F_SLOT F_UPPER)"
definition libc_islower :: "int \<Rightarrow> int" where [ctype_defs]: "libc_islower ch = libc___isctype ch (F_SLOT F_LOWER)"
definition libc_isdigit :: "int \<Rightarrow> int" where [ctype_defs]: "libc_isdigit ch = libc___isctype ch (F_SLOT F_DIGIT)"
definition libc_isxdigit :: "int \<Rightarrow> int" where [ctype_defs]: "libc_isxdigit ch = libc___isctype ch (F_SLOT F_XDIGIT)"
definition libc_isspace :: "int \<Rightarrow> int" where [ctype_defs]: "libc_isspace ch = libc___isctype ch (F_SLOT F_SPACE)"
definition libc_ispunct :: "int \<Rightarrow> int" where [ctype_defs]: "libc_ispunct ch = libc___isctype ch (F_SLOT F_PUNCT)"
definition libc_isalnum :: "int \<Rightarrow> int" where [ctype_defs]: "libc_isalnum ch = libc___isctype ch (F_SLOT F_ALNUM)"
definition libc_isprint :: "int \<Rightarrow> int" where [ctype_defs]: "libc_isprint ch = libc___isctype ch (F_SLOT F_PRINT)"
definition libc_isgraph :: "int \<Rightarrow> int" where [ctype_defs]: "libc_isgraph ch = libc___isctype ch (F_SLOT F_GRAPH)"
definition libc_iscntrl :: "int \<Rightarrow> int" where [ctype_defs]: "libc_iscntrl ch = libc___isctype ch (F_SLOT F_CNTRL)"
definition libc_isblank :: "int \<Rightarrow> int" where [ctype_defs]: "libc_isblank ch = libc___isctype ch (F_SLOT F_BLANK)"

definition libc_isascii :: "int \<Rightarrow> bool" where
  "libc_isascii c \<longleftrightarrow> c mod 2 ^ 32 \<le> 0x7f"

definition libc_toupper :: "int \<Rightarrow> int" where
  "libc_toupper ch = ASCII_TOUPPER ch"

definition libc_tolower :: "int \<Rightarrow> int" where
  "libc_tolower ch = ASCII_TOLOWER ch"

text \<open>
  The wide functions \<open>iswalpha\<close> and so on are aliases of the ones above (\<open>wint_t\<close> has the size of
  \<open>int\<close>); \<open>iswctype\<close> is the only one that looks at the upper bits.
\<close>

definition libc_iswctype :: "int \<Rightarrow> nat \<Rightarrow> bool" where
  "libc_iswctype wc desc \<longleftrightarrow> wc < 256 \<and> (libc___chattr ! nat (wc mod 256) AND (desc mod 65536)) \<noteq> 0"

subsection \<open>The table agrees with the predicates\<close>

lemma F_SLOT_eq:
  "F_SLOT F_UPPER = 0x0100" "F_SLOT F_LOWER = 0x0200" "F_SLOT F_ALPHA = 0x0400" "F_SLOT F_DIGIT = 0x0800"
  "F_SLOT F_XDIGIT = 0x1000" "F_SLOT F_SPACE = 0x2000" "F_SLOT F_PRINT = 0x4000" "F_SLOT F_GRAPH = 0x8000"
  "F_SLOT F_BLANK = 0x0001" "F_SLOT F_CNTRL = 0x0002" "F_SLOT F_PUNCT = 0x0004" "F_SLOT F_ALNUM = 0x0008"
  by (simp_all add: F_SLOT_def F_defs)

lemma F_SLOT_rows:
  "F_SLOT 0 = 0" "F_SLOT 0x0200 = 0x0002" "F_SLOT 0x0320 = 0x2003" "F_SLOT 0x0220 = 0x2002" "F_SLOT 0x0160 = 0x6001"
  "F_SLOT 0x04c0 = 0xc004" "F_SLOT 0x08d8 = 0xd808" "F_SLOT 0x08d5 = 0xd508" "F_SLOT 0x08c5 = 0xc508"
  "F_SLOT 0x08d6 = 0xd608" "F_SLOT 0x08c6 = 0xc608"
  by (simp_all add: F_SLOT_def)

text \<open>The entry of a run list at index \<open>n\<close>, the runs starting at index \<open>b\<close>.\<close>

fun run_at :: "(nat \<times> nat) list \<Rightarrow> nat \<Rightarrow> nat \<Rightarrow> nat" where
  "run_at [] b n = 0"
| "run_at ((k, v) # rs) b n = (if n < b + k then v else run_at rs (b + k) n)"

lemma nth_runs:
  "n < length (concat (map (\<lambda>(k, v). replicate k v) rs)) \<Longrightarrow>
     concat (map (\<lambda>(k, v). replicate k v) rs) ! n = run_at rs b (b + n)"
proof (induction rs arbitrary: n b)
  case (Cons r rs)
  obtain k v where r: "r = (k, v)" by (cases r)
  show ?case
  proof (cases "n < k")
    case False
    then have "concat (map (\<lambda>(k, v). replicate k v) rs) ! (n - k) = run_at rs (b + k) (b + k + (n - k))"
      using Cons.prems r by (intro Cons.IH) auto
    then show ?thesis using False r by (simp add: nth_append)
  qed (simp add: r nth_append)
qed simp

lemma length_chattr: "length libc___chattr = 256"
  by (simp add: libc___chattr_def chattr_slots_def length_concat chattr_runs_def)

lemma chattr_nth:
  assumes "n < 256"
  shows "libc___chattr ! n =
    (if n < 9 then 0x0002 else if n < 10 then 0x2003 else if n < 14 then 0x2002 else if n < 32 then 0x0002
     else if n < 33 then 0x6001 else if n < 48 then 0xc004 else if n < 58 then 0xd808 else if n < 65 then 0xc004
     else if n < 71 then 0xd508 else if n < 91 then 0xc508 else if n < 97 then 0xc004 else if n < 103 then 0xd608
     else if n < 123 then 0xc608 else if n < 127 then 0xc004 else if n < 128 then 0x0002 else 0)"
proof -
  have "libc___chattr ! n = F_SLOT (run_at chattr_runs 0 n)"
    using assms length_chattr nth_runs [of n chattr_runs 0] by (simp add: libc___chattr_def chattr_slots_def)
  then show ?thesis unfolding chattr_runs_def using assms by (simp add: F_SLOT_rows if_distrib [of F_SLOT])
qed


lemma isctype_nonzero: "libc___isctype ch (F_SLOT f) \<noteq> 0 \<longleftrightarrow> ((libc___chattr ! nat (ch mod 256)) AND F_SLOT f) \<noteq> 0"
  by (simp add: libc___isctype_def)

lemma int_char: assumes "0 \<le> ch" and "ch < 256" obtains n where "ch = int n" and "n < 256" and "nat (ch mod 256) = n"
  using assms that [of "nat ch"] by simp

text \<open>
  C25: For every character 0 to 255 each of the twelve classification functions is nonzero exactly when
  the predicate of the header says so: the generated table is correct. The wide functions are aliases
  and look at the low eight bits only: a wide character is classified like the one 256 below it, where
  \<open>iswctype\<close> rejects it.
\<close>

theorem ctype_table_correct:
  assumes "0 \<le> ch" and "ch < 256"
  shows "(libc_isalpha ch \<noteq> 0) = ASCII_ISALPHA ch \<and> (libc_isupper ch \<noteq> 0) = ASCII_ISUPPER ch \<and>
    (libc_islower ch \<noteq> 0) = ASCII_ISLOWER ch \<and> (libc_isdigit ch \<noteq> 0) = ASCII_ISDIGIT ch \<and>
    (libc_isxdigit ch \<noteq> 0) = ASCII_ISXDIGIT ch \<and> (libc_isspace ch \<noteq> 0) = ASCII_ISSPACE ch \<and>
    (libc_ispunct ch \<noteq> 0) = ASCII_ISPUNCT ch \<and> (libc_isalnum ch \<noteq> 0) = ASCII_ISALNUM ch \<and>
    (libc_isprint ch \<noteq> 0) = ASCII_ISPRINT ch \<and> (libc_isgraph ch \<noteq> 0) = ASCII_ISGRAPH ch \<and>
    (libc_iscntrl ch \<noteq> 0) = ASCII_ISCNTRL ch \<and> (libc_isblank ch \<noteq> 0) = ASCII_ISBLANK ch \<and>
    libc_isalpha (ch + 256) = libc_isalpha ch \<and> \<not> libc_iswctype (ch + 256) (F_SLOT F_ALPHA)"
proof -
  obtain n where n: "ch = int n" "n < 256" "nat (ch mod 256) = n" using int_char [OF assms] .
  define v where "v = libc___chattr ! n"
  note v = chattr_nth [OF n(2), folded v_def]
  have w: "libc___isctype (ch + 256) (F_SLOT F_ALPHA) = libc___isctype ch (F_SLOT F_ALPHA)"
    "\<not> libc_iswctype (ch + 256) (F_SLOT F_ALPHA)"
    using assms by (simp_all add: libc___isctype_def libc_iswctype_def)
  have "((v AND 0x0400) \<noteq> 0) = ASCII_ISALPHA (int n) \<and> ((v AND 0x0100) \<noteq> 0) = ASCII_ISUPPER (int n) \<and>
    ((v AND 0x0200) \<noteq> 0) = ASCII_ISLOWER (int n) \<and> ((v AND 0x0800) \<noteq> 0) = ASCII_ISDIGIT (int n) \<and>
    ((v AND 0x1000) \<noteq> 0) = ASCII_ISXDIGIT (int n) \<and> ((v AND 0x2000) \<noteq> 0) = ASCII_ISSPACE (int n) \<and>
    ((v AND 0x0004) \<noteq> 0) = ASCII_ISPUNCT (int n) \<and> ((v AND 0x0008) \<noteq> 0) = ASCII_ISALNUM (int n) \<and>
    ((v AND 0x4000) \<noteq> 0) = ASCII_ISPRINT (int n) \<and> ((v AND 0x8000) \<noteq> 0) = ASCII_ISGRAPH (int n) \<and>
    ((v AND 0x0002) \<noteq> 0) = ASCII_ISCNTRL (int n) \<and> ((v AND 0x0001) \<noteq> 0) = ASCII_ISBLANK (int n)"
    by (intro conjI; use v in \<open>simp add: ASCII_defs split: if_splits\<close>)
  then show ?thesis using w
    unfolding ctype_defs isctype_nonzero unfolding n(3) v_def [symmetric] F_SLOT_eq unfolding n(1) by blast
qed

theorem ctype_table_correct_witness: "libc_isxdigit 0x66 \<noteq> 0 \<and> libc_isxdigit 0x67 = 0"
  using ctype_table_correct [of "0x66"] ctype_table_correct [of "0x67"] by (simp add: ASCII_defs)

lemma tolower_idem [simp]: "libc_tolower (libc_tolower c) = libc_tolower c"
  by (simp add: libc_tolower_def ASCII_TOLOWER_def ASCII_ISUPPER_def)

lemma tolower_0 [simp]: "libc_tolower 0 = 0"
  by (simp add: libc_tolower_def ASCII_TOLOWER_def ASCII_ISUPPER_def)

lemma tolower_eq_0 [simp]: "libc_tolower c = 0 \<longleftrightarrow> c = 0"
  by (auto simp: libc_tolower_def ASCII_TOLOWER_def ASCII_ISUPPER_def)

lemma tolower_range: "- 128 \<le> c \<Longrightarrow> c < 128 \<Longrightarrow> - 128 \<le> libc_tolower c \<and> libc_tolower c < 128"
  by (auto simp: libc_tolower_def ASCII_TOLOWER_def ASCII_ISUPPER_def)

lemma toupper_tolower: "libc_toupper (libc_tolower c) = libc_toupper c"
  by (auto simp: libc_tolower_def libc_toupper_def ASCII_TOLOWER_def ASCII_TOUPPER_def ASCII_ISUPPER_def ASCII_ISLOWER_def)

end
