(* ===== verification/Libc_String.thy ===== *)
theory Libc_String
  imports Libc_Mem Libc_Ctype "HOL-Library.Monad_Syntax" "HOL-Library.Sublist"
begin

text \<open>
  The string functions of \<open>src/libs/libc/templates/string.code\<close> in the instance for \<open>char\<close> (a signed
  byte). A loop that runs up to a terminator may not end, so it is a partial function whose value is
  \<open>None\<close> exactly then. Pointers are addresses with \<open>NULL = 0\<close>; a needle is the \<open>int\<close> the caller
  passes, converted to \<open>char\<close> by the code. The second half relates the functions to lists of
  characters through \<open>cstr\<close>.
\<close>

subsection \<open>Ends and lengths\<close>

partial_function (option) libc_strend :: "bmem \<Rightarrow> nat \<Rightarrow> nat option" where
  "libc_strend m str = (if m str = 0 then Some str else libc_strend m (str + 1))"

text \<open>The loops with an \<open>end\<close> pointer count the characters left before it.\<close>

fun libc_strnend :: "bmem \<Rightarrow> nat \<Rightarrow> nat \<Rightarrow> nat" where
  "libc_strnend m str 0 = str"
| "libc_strnend m str (Suc k) = (if m str = 0 then str else libc_strnend m (str + 1) k)"

definition libc_strlen :: "bmem \<Rightarrow> nat \<Rightarrow> nat option" where
  "libc_strlen m str = do { e \<leftarrow> libc_strend m str; Some (e - str) }"

definition libc_strnlen :: "bmem \<Rightarrow> nat \<Rightarrow> nat \<Rightarrow> nat" where
  "libc_strnlen m str maxlen = libc_strnend m str maxlen - str"

subsection \<open>Searching for a character\<close>

partial_function (option) strchrnul_loop :: "bmem \<Rightarrow> nat \<Rightarrow> 8 word \<Rightarrow> nat option" where
  "strchrnul_loop m iter c = (if m iter \<noteq> 0 \<and> m iter \<noteq> c then strchrnul_loop m (iter + 1) c else Some iter)"

definition libc_strchrnul :: "bmem \<Rightarrow> nat \<Rightarrow> int \<Rightarrow> nat option" where
  "libc_strchrnul m haystack needle = strchrnul_loop m haystack (word_of_int needle)"

partial_function (option) strchr_loop :: "bmem \<Rightarrow> nat \<Rightarrow> 8 word \<Rightarrow> nat option" where
  "strchr_loop m iter c =
     (if m iter \<noteq> c then (if m iter = 0 then Some NULL else strchr_loop m (iter + 1) c) else Some iter)"

definition libc_strchr :: "bmem \<Rightarrow> nat \<Rightarrow> int \<Rightarrow> nat option" where
  "libc_strchr m haystack needle = strchr_loop m haystack (word_of_int needle)"

partial_function (option) strrchr_loop :: "bmem \<Rightarrow> nat \<Rightarrow> 8 word \<Rightarrow> nat \<Rightarrow> nat option" where
  "strrchr_loop m iter c result =
     (let r = (if m iter = c then iter else result)
      in if m iter \<noteq> 0 then strrchr_loop m (iter + 1) c r else Some r)"

definition libc_strrchr :: "bmem \<Rightarrow> nat \<Rightarrow> int \<Rightarrow> nat option" where
  "libc_strrchr m haystack needle = strrchr_loop m haystack (word_of_int needle) NULL"

definition libc_strrchrnul :: "bmem \<Rightarrow> nat \<Rightarrow> int \<Rightarrow> nat option" where
  "libc_strrchrnul m haystack needle = strrchr_loop m haystack (word_of_int needle) (haystack - 1)"

fun strnchr_loop :: "bmem \<Rightarrow> nat \<Rightarrow> 8 word \<Rightarrow> nat \<Rightarrow> nat" where
  "strnchr_loop m iter c 0 = NULL"
| "strnchr_loop m iter c (Suc k) =
     (if m iter = 0 then NULL else if m iter = c then iter else strnchr_loop m (iter + 1) c k)"

definition libc_strnchr :: "bmem \<Rightarrow> nat \<Rightarrow> int \<Rightarrow> nat \<Rightarrow> nat" where
  "libc_strnchr m haystack needle maxlen = strnchr_loop m haystack (word_of_int needle) maxlen"

fun strnrchr_loop :: "bmem \<Rightarrow> nat \<Rightarrow> 8 word \<Rightarrow> nat \<Rightarrow> nat \<Rightarrow> nat" where
  "strnrchr_loop m iter c 0 result = result"
| "strnrchr_loop m iter c (Suc k) result =
     (if m iter = 0 then result else strnrchr_loop m (iter + 1) c k (if m iter = c then iter else result))"

definition libc_strnrchr :: "bmem \<Rightarrow> nat \<Rightarrow> int \<Rightarrow> nat \<Rightarrow> nat" where
  "libc_strnrchr m haystack needle maxlen = strnrchr_loop m haystack (word_of_int needle) maxlen NULL"

fun strnchrnul_loop :: "bmem \<Rightarrow> nat \<Rightarrow> 8 word \<Rightarrow> nat \<Rightarrow> nat" where
  "strnchrnul_loop m iter c 0 = iter"
| "strnchrnul_loop m iter c (Suc k) =
     (if m iter \<noteq> 0 \<and> m iter \<noteq> c then strnchrnul_loop m (iter + 1) c k else iter)"

definition libc_strnchrnul :: "bmem \<Rightarrow> nat \<Rightarrow> int \<Rightarrow> nat \<Rightarrow> nat" where
  "libc_strnchrnul m haystack needle maxlen = strnchrnul_loop m haystack (word_of_int needle) maxlen"

definition libc_strnrchrnul :: "bmem \<Rightarrow> nat \<Rightarrow> int \<Rightarrow> nat \<Rightarrow> nat" where
  "libc_strnrchrnul m haystack needle maxlen = strnrchr_loop m haystack (word_of_int needle) maxlen (haystack - 1)"

text \<open>Offsets are 32-bit differences: without a match the last two are \<open>(size_t)-1\<close>.\<close>

definition libc_stroff :: "bmem \<Rightarrow> nat \<Rightarrow> int \<Rightarrow> nat option" where
  "libc_stroff m haystack needle = do { e \<leftarrow> libc_strchrnul m haystack needle; Some (sub32 e haystack) }"

definition libc_strroff :: "bmem \<Rightarrow> nat \<Rightarrow> int \<Rightarrow> nat option" where
  "libc_strroff m haystack needle = do { e \<leftarrow> libc_strrchrnul m haystack needle; Some (sub32 e haystack) }"

definition libc_strnoff :: "bmem \<Rightarrow> nat \<Rightarrow> int \<Rightarrow> nat \<Rightarrow> nat" where
  "libc_strnoff m haystack needle maxlen = sub32 (libc_strnchrnul m haystack needle maxlen) haystack"

definition libc_strnroff :: "bmem \<Rightarrow> nat \<Rightarrow> int \<Rightarrow> nat \<Rightarrow> nat" where
  "libc_strnroff m haystack needle maxlen = sub32 (libc_strnrchrnul m haystack needle maxlen) haystack"

subsection \<open>Copying\<close>

definition libc_stpcpy :: "nat \<Rightarrow> nat \<Rightarrow> bmem \<Rightarrow> (nat \<times> bmem) option" where
  "libc_stpcpy dst src m = do {
     n \<leftarrow> libc_strlen m src;
     let (e, m') = libc_mempcpy 1 dst src (n + 1) m;
     Some (e - 1, m')
   }"

text \<open>The common body of \<open>stpncpy\<close> and \<open>strncpy\<close>: copy, then fill up with zeroes.\<close>

definition ncpy_body :: "nat \<Rightarrow> nat \<Rightarrow> nat \<Rightarrow> bmem \<Rightarrow> bmem" where
  "ncpy_body dst src n m =
     (let src_len = libc_strnlen m src n;
          m1 = snd (libc_memcpy 1 dst src src_len m)
      in snd (libc_memset (dst + src_len) 0 (n - src_len) m1))"

definition libc_stpncpy :: "nat \<Rightarrow> nat \<Rightarrow> nat \<Rightarrow> bmem \<Rightarrow> nat \<times> bmem" where
  "libc_stpncpy dst src n m = (dst + libc_strnlen m src n, ncpy_body dst src n m)"

definition libc_strncpy :: "nat \<Rightarrow> nat \<Rightarrow> nat \<Rightarrow> bmem \<Rightarrow> nat \<times> bmem" where
  "libc_strncpy dst src n m = (dst, ncpy_body dst src n m)"

definition libc_strcpy :: "nat \<Rightarrow> nat \<Rightarrow> bmem \<Rightarrow> (nat \<times> bmem) option" where
  "libc_strcpy dst src m = do { n \<leftarrow> libc_strlen m src; Some (libc_memcpy 1 dst src (n + 1) m) }"

definition libc_strcat :: "nat \<Rightarrow> nat \<Rightarrow> bmem \<Rightarrow> (nat \<times> bmem) option" where
  "libc_strcat dst src m = do {
     e \<leftarrow> libc_strend m dst;
     n \<leftarrow> libc_strlen m src;
     Some (dst, snd (libc_memcpy 1 e src (n + 1) m))
   }"

definition libc_strncat :: "nat \<Rightarrow> nat \<Rightarrow> nat \<Rightarrow> bmem \<Rightarrow> (nat \<times> bmem) option" where
  "libc_strncat dst src n m = do {
     let src_len = libc_strnlen m src n;
     target \<leftarrow> libc_strend m dst;
     let m1 = snd (libc_memcpy 1 target src src_len m);
     Some (dst, m1(target + src_len := 0))
   }"

subsection \<open>Comparing\<close>

text \<open>
  \<open>cmp_loop_with\<close> is the loop of \<open>strcmp\<close> (with the identity) and of \<open>strcasecmp\<close> (with \<open>TOLOWER\<close>):
  both characters pass through \<open>f\<close>, are cut to \<open>char\<close> again and subtracted as signed values.
\<close>

definition char_lower :: "8 word \<Rightarrow> 8 word" where
  "char_lower c = word_of_int (libc_tolower (sint c))"

definition char_upper :: "8 word \<Rightarrow> 8 word" where
  "char_upper c = word_of_int (libc_toupper (sint c))"

partial_function (option) strcmp_loop :: "(8 word \<Rightarrow> 8 word) \<Rightarrow> bmem \<Rightarrow> nat \<Rightarrow> nat \<Rightarrow> int option" where
  "strcmp_loop f m s1 s2 =
     (let a = f (m s1); b = f (m s2); result = sint a - sint b
      in if result = 0 \<and> a \<noteq> 0 then strcmp_loop f m (s1 + 1) (s2 + 1) else Some result)"

definition libc_strcmp :: "bmem \<Rightarrow> nat \<Rightarrow> nat \<Rightarrow> int option" where
  "libc_strcmp m s1 s2 = strcmp_loop (\<lambda>c. c) m s1 s2"

definition libc_strcasecmp :: "bmem \<Rightarrow> nat \<Rightarrow> nat \<Rightarrow> int option" where
  "libc_strcasecmp m s1 s2 = strcmp_loop char_lower m s1 s2"

text \<open>The bounded versions never assign \<open>result\<close> when \<open>n\<close> is zero: it keeps the value \<open>junk\<close>.\<close>

fun strncmp_loop :: "(8 word \<Rightarrow> 8 word) \<Rightarrow> bmem \<Rightarrow> nat \<Rightarrow> nat \<Rightarrow> nat \<Rightarrow> int \<Rightarrow> int" where
  "strncmp_loop f m s1 s2 0 result = result"
| "strncmp_loop f m s1 s2 (Suc k) result =
     (let a = f (m s1); b = f (m s2); r = sint a - sint b
      in if r = 0 \<and> a \<noteq> 0 then strncmp_loop f m (s1 + 1) (s2 + 1) k r else r)"

definition libc_strncmp :: "int \<Rightarrow> bmem \<Rightarrow> nat \<Rightarrow> nat \<Rightarrow> nat \<Rightarrow> int" where
  "libc_strncmp junk m s1 s2 n = strncmp_loop (\<lambda>c. c) m s1 s2 n junk"

definition libc_strncasecmp :: "int \<Rightarrow> bmem \<Rightarrow> nat \<Rightarrow> nat \<Rightarrow> nat \<Rightarrow> int" where
  "libc_strncasecmp junk m s1 s2 n = strncmp_loop char_lower m s1 s2 n junk"

text \<open>\<open>memcasecmp\<close> of \<open>src/libs/libc/string.c\<close> does not stop at a terminator.\<close>

fun memcasecmp_loop :: "bmem \<Rightarrow> nat \<Rightarrow> nat \<Rightarrow> nat \<Rightarrow> int" where
  "memcasecmp_loop m p1 p2 0 = 0"
| "memcasecmp_loop m p1 p2 (Suc k) =
     (let result = sint (char_lower (m p1)) - sint (char_lower (m p2))
      in if result = 0 \<and> k \<noteq> 0 then memcasecmp_loop m (p1 + 1) (p2 + 1) k else result)"

definition libc_memcasecmp :: "bmem \<Rightarrow> nat \<Rightarrow> nat \<Rightarrow> nat \<Rightarrow> int" where
  "libc_memcasecmp m s1 s2 n_bytes = memcasecmp_loop m s1 s2 n_bytes"

subsection \<open>Searching for a string\<close>

text \<open>The inner loop compares the rest of the needle; true means no \<open>goto miss\<close>.\<close>

partial_function (option) strstr_match :: "(8 word \<Rightarrow> 8 word) \<Rightarrow> bmem \<Rightarrow> nat \<Rightarrow> nat \<Rightarrow> bool option" where
  "strstr_match f m hay2 ned_iter =
     (if m ned_iter = 0 then Some True
      else if f (m hay2) \<noteq> f (m ned_iter) then Some False
      else strstr_match f m (hay2 + 1) (ned_iter + 1))"

partial_function (option) strstr_loop :: "(8 word \<Rightarrow> 8 word) \<Rightarrow> bmem \<Rightarrow> nat \<Rightarrow> nat \<Rightarrow> 8 word \<Rightarrow> nat option" where
  "strstr_loop f m hay_iter needle needle_start =
     (if m hay_iter = 0 then Some NULL
      else if m hay_iter = needle_start
      then do {
        hit \<leftarrow> strstr_match f m (hay_iter + 1) needle;
        if hit then Some hay_iter else strstr_loop f m (hay_iter + 1) needle needle_start
      }
      else strstr_loop f m (hay_iter + 1) needle needle_start)"

definition libc_strstr :: "bmem \<Rightarrow> nat \<Rightarrow> nat \<Rightarrow> nat option" where
  "libc_strstr m haystack needle = strstr_loop (\<lambda>c. c) m haystack (needle + 1) (m needle)"

definition libc_strcasestr :: "bmem \<Rightarrow> nat \<Rightarrow> nat \<Rightarrow> nat option" where
  "libc_strcasestr m haystack needle = strstr_loop char_lower m haystack (needle + 1) (m needle)"

subsection \<open>Spans and tokens\<close>

partial_function (option) strcspn_loop :: "bmem \<Rightarrow> nat \<Rightarrow> nat \<Rightarrow> nat option" where
  "strcspn_loop m iter reject =
     (if m iter = 0 then Some iter
      else do {
        p \<leftarrow> libc_strchr m reject (sint (m iter));
        if p = NULL then strcspn_loop m (iter + 1) reject else Some iter
      })"

definition libc_strcspn :: "bmem \<Rightarrow> nat \<Rightarrow> nat \<Rightarrow> nat option" where
  "libc_strcspn m s reject = do { e \<leftarrow> strcspn_loop m s reject; Some (e - s) }"

partial_function (option) strspn_loop :: "bmem \<Rightarrow> nat \<Rightarrow> nat \<Rightarrow> nat option" where
  "strspn_loop m iter accept =
     do {
       p \<leftarrow> libc_strchr m accept (sint (m iter));
       if p \<noteq> NULL then strspn_loop m (iter + 1) accept else Some iter
     }"

definition libc_strspn :: "bmem \<Rightarrow> nat \<Rightarrow> nat \<Rightarrow> nat option" where
  "libc_strspn m s accept = do { e \<leftarrow> strspn_loop m s accept; Some (e - s) }"

partial_function (option) strpbrk_in :: "bmem \<Rightarrow> 8 word \<Rightarrow> nat \<Rightarrow> bool option" where
  "strpbrk_in m haych ned_iter =
     (if m ned_iter = 0 then Some False
      else if haych = m ned_iter then Some True else strpbrk_in m haych (ned_iter + 1))"

partial_function (option) strpbrk_loop :: "bmem \<Rightarrow> nat \<Rightarrow> nat \<Rightarrow> nat option" where
  "strpbrk_loop m hay_iter accept =
     (if m hay_iter = 0 then Some NULL
      else do {
        hit \<leftarrow> strpbrk_in m (m hay_iter) accept;
        if hit then Some hay_iter else strpbrk_loop m (hay_iter + 1) accept
      })"

definition libc_strpbrk :: "bmem \<Rightarrow> nat \<Rightarrow> nat \<Rightarrow> nat option" where
  "libc_strpbrk m s accept = strpbrk_loop m s accept"

text \<open>
  \<open>strtok_r\<close> gets the saved pointer and returns the token, the new saved pointer and the memory.
\<close>

definition libc_strtok_r :: "nat \<Rightarrow> nat \<Rightarrow> nat \<Rightarrow> bmem \<Rightarrow> (nat \<times> nat \<times> bmem) option" where
  "libc_strtok_r s0 delim save_ptr m =
     (let s = (if s0 = NULL then save_ptr else s0)
      in if m s = 0 then Some (NULL, s, m)
         else do {
           k \<leftarrow> libc_strspn m s delim;
           let s = s + k;
           if m s = 0 then Some (NULL, s, m)
           else do {
             n \<leftarrow> libc_strcspn m s delim;
             let e = s + n;
             if m e = 0 then Some (s, e, m) else Some (s, e + 1, m(e := 0))
           }
         })"

subsection \<open>Changing a string in place\<close>

partial_function (option) strmap_loop :: "(8 word \<Rightarrow> 8 word) \<Rightarrow> nat \<Rightarrow> bmem \<Rightarrow> bmem option" where
  "strmap_loop f str m = (if m str = 0 then Some m else strmap_loop f (str + 1) (m(str := f (m str))))"

definition libc_strlwr :: "nat \<Rightarrow> bmem \<Rightarrow> (nat \<times> bmem) option" where
  "libc_strlwr str m = do { m' \<leftarrow> strmap_loop char_lower str m; Some (str, m') }"

definition libc_strupr :: "nat \<Rightarrow> bmem \<Rightarrow> (nat \<times> bmem) option" where
  "libc_strupr str m = do { m' \<leftarrow> strmap_loop char_upper str m; Some (str, m') }"

definition libc_strset :: "nat \<Rightarrow> int \<Rightarrow> bmem \<Rightarrow> (nat \<times> bmem) option" where
  "libc_strset str chr m = do { m' \<leftarrow> strmap_loop (\<lambda>_. word_of_int chr) str m; Some (str, m') }"

fun strnset_loop :: "nat \<Rightarrow> 8 word \<Rightarrow> nat \<Rightarrow> bmem \<Rightarrow> bmem" where
  "strnset_loop str c 0 m = m"
| "strnset_loop str c (Suc k) m = (if m str = 0 then m else strnset_loop (str + 1) c k (m(str := c)))"

definition libc_strnset :: "nat \<Rightarrow> int \<Rightarrow> nat \<Rightarrow> bmem \<Rightarrow> nat \<times> bmem" where
  "libc_strnset str chr maxlen m = (str, strnset_loop str (word_of_int chr) maxlen m)"

subsection \<open>The size-checked functions\<close>

datatype errno_s = EOK | ERANGE

definition libc_strcat_s :: "nat \<Rightarrow> nat \<Rightarrow> nat \<Rightarrow> bmem \<Rightarrow> (errno_s \<times> bmem) option" where
  "libc_strcat_s dst dstsize src m = do {
     let dstend = libc_strnend m dst dstsize;
     srclen \<leftarrow> libc_strlen m src;
     let room = dstsize - (dstend - dst);
     Some (if room < srclen + 1 then (ERANGE, m) else (EOK, snd (libc_memcpy 1 dstend src (srclen + 1) m)))
   }"

definition libc_strcpy_s :: "nat \<Rightarrow> nat \<Rightarrow> nat \<Rightarrow> bmem \<Rightarrow> (errno_s \<times> bmem) option" where
  "libc_strcpy_s dst dstsize src m = do {
     srclen \<leftarrow> libc_strlen m src;
     Some (if dstsize < srclen + 1 then (ERANGE, m) else (EOK, snd (libc_memcpy 1 dst src (srclen + 1) m)))
   }"

definition libc_strncat_s :: "nat \<Rightarrow> nat \<Rightarrow> nat \<Rightarrow> nat \<Rightarrow> bmem \<Rightarrow> errno_s \<times> bmem" where
  "libc_strncat_s dst dstsize src maxlen m =
     (let dstend = libc_strnend m dst dstsize;
          srclen = libc_strnlen m src maxlen;
          room = dstsize - (dstend - dst)
      in if room < srclen + 1 then (ERANGE, m)
         else (EOK, (snd (libc_memcpy 1 dstend src srclen m))(dstend + srclen := 0)))"

definition libc_strncpy_s :: "nat \<Rightarrow> nat \<Rightarrow> nat \<Rightarrow> nat \<Rightarrow> bmem \<Rightarrow> errno_s \<times> bmem" where
  "libc_strncpy_s dst dstsize src maxlen m =
     (let srclen = libc_strnlen m src maxlen
      in if dstsize < srclen + 1 then (ERANGE, m)
         else (EOK, (snd (libc_memcpy 1 dst src srclen m))(dst + srclen := 0)))"

definition libc_strlwr_s :: "nat \<Rightarrow> nat \<Rightarrow> bmem \<Rightarrow> (errno_s \<times> bmem) option" where
  "libc_strlwr_s str buflen m =
     (if libc_strnlen m str buflen = buflen then Some (ERANGE, m)
      else do { (_, m') \<leftarrow> libc_strlwr str m; Some (EOK, m') })"

definition libc_strupr_s :: "nat \<Rightarrow> nat \<Rightarrow> bmem \<Rightarrow> (errno_s \<times> bmem) option" where
  "libc_strupr_s str buflen m =
     (if libc_strnlen m str buflen = buflen then Some (ERANGE, m)
      else do { (_, m') \<leftarrow> libc_strupr str m; Some (EOK, m') })"

definition libc_strset_s :: "nat \<Rightarrow> nat \<Rightarrow> 8 word \<Rightarrow> bmem \<Rightarrow> (errno_s \<times> bmem) option" where
  "libc_strset_s str buflen val m =
     (if libc_strnlen m str buflen = buflen then Some (ERANGE, m)
      else do { (_, m') \<leftarrow> libc_strset str (sint val) m; Some (EOK, m') })"

definition libc_strnset_s :: "nat \<Rightarrow> nat \<Rightarrow> 8 word \<Rightarrow> nat \<Rightarrow> bmem \<Rightarrow> errno_s \<times> bmem" where
  "libc_strnset_s str buflen val maxlen m =
     (EOK, snd (libc_memset str (sint val) (libc_strnlen m str (min buflen maxlen)) m))"

subsection \<open>C strings as lists of characters\<close>

fun cstr :: "bmem \<Rightarrow> nat \<Rightarrow> 8 word list \<Rightarrow> bool" where
  "cstr m p [] \<longleftrightarrow> m p = 0"
| "cstr m p (x # xs) \<longleftrightarrow> m p = x \<and> x \<noteq> 0 \<and> cstr m (p + 1) xs"

lemma cstr_cong: "(\<And>a. p \<le> a \<Longrightarrow> a \<le> p + length xs \<Longrightarrow> m' a = m a) \<Longrightarrow> cstr m' p xs = cstr m p xs"
  by (induction xs arbitrary: p) auto

lemma cstr_append: "cstr m p (xs @ ys) \<longleftrightarrow> (\<forall>i<length xs. m (p + i) = xs ! i) \<and> 0 \<notin> set xs \<and> cstr m (p + length xs) ys"
proof (induction xs arbitrary: p)
  case (Cons x xs)
  have "(\<forall>i<Suc (length xs). m (p + i) = (x # xs) ! i) \<longleftrightarrow> m p = x \<and> (\<forall>i<length xs. m (p + 1 + i) = xs ! i)"
    by (auto simp: less_Suc_eq_0_disj)
  then show ?case using Cons [of "p + 1"] by auto
qed simp

lemma cstr_nth: "cstr m p xs \<longleftrightarrow> (\<forall>i<length xs. m (p + i) = xs ! i) \<and> 0 \<notin> set xs \<and> m (p + length xs) = 0"
  using cstr_append [of m p xs "[]"] by simp

lemma cstr_drop: "cstr m p xs \<Longrightarrow> i \<le> length xs \<Longrightarrow> cstr m (p + i) (drop i xs)"
  using cstr_append [of m p "take i xs" "drop i xs"] by simp

lemma cstr_char: "cstr m p xs \<Longrightarrow> i < length xs \<Longrightarrow> m (p + i) = xs ! i \<and> m (p + i) \<noteq> 0"
  by (metis cstr_nth nth_mem)

lemma cstr_unique: "cstr m p xs \<Longrightarrow> cstr m p ys \<Longrightarrow> xs = ys"
proof (induction xs arbitrary: p ys)
  case Nil
  then show ?case by (cases ys) auto
next
  case (Cons x xs)
  then show ?case by (cases ys) auto
qed

lemma strend_cstr: "cstr m p xs \<Longrightarrow> libc_strend m p = Some (p + length xs)"
proof (induction xs arbitrary: p)
  case Nil
  then show ?case by (simp add: libc_strend.simps)
next
  case (Cons x xs)
  then show ?case by (subst libc_strend.simps) simp
qed

lemma strlen_cstr [simp]: "cstr m p xs \<Longrightarrow> libc_strlen m p = Some (length xs)"
  by (simp add: libc_strlen_def strend_cstr)

lemma strnend_cstr: "cstr m p xs \<Longrightarrow> libc_strnend m p n = p + min n (length xs)"
proof (induction n arbitrary: p xs)
  case (Suc n)
  then show ?case by (cases xs) auto
qed simp

lemma strnlen_cstr [simp]: "cstr m p xs \<Longrightarrow> libc_strnlen m p n = min n (length xs)"
  by (simp add: libc_strnlen_def strnend_cstr)

text \<open>The other direction: \<open>strlen\<close> returns only at a terminator.\<close>

definition unterminated_to :: "bmem \<Rightarrow> nat \<Rightarrow> nat \<Rightarrow> bool" where
  "unterminated_to m p e \<longleftrightarrow> p \<le> e \<and> (\<forall>a. p \<le> a \<longrightarrow> a < e \<longrightarrow> m a \<noteq> 0)"

lemma strend_returns:
  assumes "libc_strend m p = Some e"
  shows "unterminated_to m p e \<and> m e = 0"
proof (rule libc_strend.raw_induct [where P = "\<lambda>m p e. unterminated_to m p e \<and> m e = 0", OF _ assms])
  fix strend m p e
  assume IH: "\<And>m p e. strend m p = Some e \<Longrightarrow> unterminated_to m p e \<and> m e = 0"
    and eq: "(if m p = 0 then Some p else strend m (p + 1)) = Some e"
  show "unterminated_to m p e \<and> m e = 0"
  proof (cases "m p = 0")
    case True
    then show ?thesis using eq by (simp add: unterminated_to_def)
  next
    case False
    then have "unterminated_to m (p + 1) e \<and> m e = 0" using IH eq by simp
    moreover have "m a \<noteq> 0" if "p \<le> a" "a < e" "\<forall>a. p + 1 \<le> a \<longrightarrow> a < e \<longrightarrow> m a \<noteq> 0" for a
      using that False by (cases "a = p") auto
    ultimately show ?thesis by (auto simp: unterminated_to_def)
  qed
qed

lemma strlen_returns_cstr: "libc_strlen m p = Some n \<longleftrightarrow> (\<exists>xs. cstr m p xs \<and> length xs = n)"
proof
  assume "libc_strlen m p = Some n"
  then obtain e where e: "libc_strend m p = Some e" "n = e - p" by (auto simp: libc_strlen_def elim: bind_eq_SomeE)
  then have "unterminated_to m p e" "m e = 0" using strend_returns by blast+
  then have "cstr m p (map m [p ..< e])" by (auto simp: cstr_nth unterminated_to_def)
  then show "\<exists>xs. cstr m p xs \<and> length xs = n" using e(2) by (intro exI [of _ "map m [p ..< e]"]) simp
qed auto

subsection \<open>Searching for a character\<close>

definition idx :: "8 word \<Rightarrow> 8 word list \<Rightarrow> nat" where
  "idx c xs = length (takeWhile (\<lambda>x. x \<noteq> c) xs)"

lemma idx_simps [simp]: "idx c [] = 0" "idx c (x # xs) = (if x = c then 0 else Suc (idx c xs))"
  by (simp_all add: idx_def)

lemma idx_le: "idx c xs \<le> length xs"
  by (simp add: idx_def length_takeWhile_le)

lemma idx_less: "c \<in> set xs \<longleftrightarrow> idx c xs < length xs"
  by (induction xs) auto

lemma strchr_loop_cstr:
  "cstr m p xs \<Longrightarrow> strchr_loop m p c = Some (if c = 0 then p + length xs else if c \<in> set xs then p + idx c xs else NULL)"
proof (induction xs arbitrary: p)
  case Nil
  then show ?case by (simp add: strchr_loop.simps)
next
  case (Cons x xs)
  then show ?case by (subst strchr_loop.simps) auto
qed

lemma strchrnul_loop_cstr: "cstr m p xs \<Longrightarrow> strchrnul_loop m p c = Some (p + idx c xs)"
proof (induction xs arbitrary: p)
  case Nil
  then show ?case by (simp add: strchrnul_loop.simps)
next
  case (Cons x xs)
  then show ?case by (subst strchrnul_loop.simps) auto
qed

text \<open>Position of the last match, counting the terminator as a character.\<close>

lemma strrchr_loop_cstr:
  "cstr m p xs \<Longrightarrow> strrchr_loop m p c r =
     Some (if c \<in> set (xs @ [0]) then p + (length xs - idx c (rev (xs @ [0]))) else r)"
proof (induction xs arbitrary: p r)
  case Nil
  then show ?case by (simp add: strrchr_loop.simps Let_def)
next
  case (Cons x xs)
  have i: "idx c (ys @ [x]) = (if c \<in> set ys then idx c ys else if x = c then length ys else Suc (length ys))" for ys
    by (induction ys) auto
  have "strrchr_loop m p c r = strrchr_loop m (p + 1) c (if x = c then p else r)"
    using Cons.prems by (subst strrchr_loop.simps) (simp add: Let_def)
  also have "\<dots> = Some (if c \<in> set (xs @ [0]) then p + 1 + (length xs - idx c (rev (xs @ [0]))) else if x = c then p else r)"
    using Cons.IH [of "p + 1"] Cons.prems by simp
  finally show ?case using i [of "rev (xs @ [0])"] idx_less [of c "rev (xs @ [0])"] idx_le [of c "rev (xs @ [0])"]
    by (auto simp: Suc_diff_le)
qed




subsection \<open>Copying\<close>

text \<open>Two blocks do not overlap.\<close>

definition apart :: "nat \<Rightarrow> nat \<Rightarrow> nat \<Rightarrow> nat \<Rightarrow> bool" where
  "apart p n q k \<longleftrightarrow> p + n \<le> q \<or> q + k \<le> p"

lemma copied_read: "i < n \<Longrightarrow> copied d s n m (d + i) = m (s + i)"
  by (simp add: copied_def)

lemma copied_other: "\<not> (d \<le> a \<and> a < d + n) \<Longrightarrow> copied d s n m a = m a"
  by (auto simp: copied_def)

context block_copy
begin

text \<open>Copying the first \<open>n\<close> characters of a string, the terminator being character \<open>length xs\<close>.\<close>

lemma copy_string:
  assumes "cstr m s xs" and "apart d (length xs + 1) s (length xs + 1)"
  shows "cstr (snd (cp d s (length xs + 1) m)) d xs"
    and "\<not> (d \<le> a \<and> a < d + length xs + 1) \<Longrightarrow> snd (cp d s (length xs + 1) m) a = m a"
proof -
  have c: "snd (cp d s (length xs + 1) m) = copied d s (length xs + 1) m"
    using assms(2) by (intro cp) (auto simp: apart_def)
  show "cstr (snd (cp d s (length xs + 1) m)) d xs"
    using assms(1) unfolding c cstr_nth by (simp add: copied_read)
  show "\<not> (d \<le> a \<and> a < d + length xs + 1) \<Longrightarrow> snd (cp d s (length xs + 1) m) a = m a"
    unfolding c by (auto simp: copied_def)
qed

lemma copy_prefix:
  assumes "cstr m s xs" and "n \<le> length xs" and "apart d n s n"
  shows "\<forall>i<n. snd (cp d s n m) (d + i) = xs ! i"
    and "\<not> (d \<le> a \<and> a < d + n) \<Longrightarrow> snd (cp d s n m) a = m a"
proof -
  have c: "snd (cp d s n m) = copied d s n m" using assms(3) by (intro cp) (auto simp: apart_def)
  show "\<forall>i<n. snd (cp d s n m) (d + i) = xs ! i"
    using assms(1,2) unfolding c cstr_nth by (simp add: copied_read)
  show "\<not> (d \<le> a \<and> a < d + n) \<Longrightarrow> snd (cp d s n m) a = m a" unfolding c by (auto simp: copied_def)
qed

end

lemma prefix_terminated:
  assumes "\<forall>i<n. m (d + i) = xs ! i" and "n \<le> length xs" and "0 \<notin> set xs" and "m (d + n) = 0"
  shows "cstr m d (take n xs)"
  using assms by (auto simp: cstr_nth dest: in_set_takeD)

text \<open>
  C27: \<open>strcpy\<close> and \<open>strcat\<close> return for terminated strings that do not overlap; the target then holds
  the source, or the old target followed by the source, and no byte outside of it changed.
\<close>

theorem strcpy_strcat_correct:
  assumes s: "cstr m src xs" and d: "cstr m dst ds"
    and a: "apart dst (length ds + length xs + 1) src (length xs + 1)"
  shows "\<exists>m1 m2. libc_strcpy dst src m = Some (dst, m1) \<and> cstr m1 dst xs \<and>
      (\<forall>x. \<not> (dst \<le> x \<and> x \<le> dst + length xs) \<longrightarrow> m1 x = m x) \<and>
    libc_strcat dst src m = Some (dst, m2) \<and> cstr m2 dst (ds @ xs) \<and>
      (\<forall>x. \<not> (dst \<le> x \<and> x \<le> dst + length ds + length xs) \<longrightarrow> m2 x = m x)"
proof -
  let ?m1 = "snd (libc_memcpy 1 dst src (length xs + 1) m)"
  let ?m2 = "snd (libc_memcpy 1 (dst + length ds) src (length xs + 1) m)"
  have a1: "apart dst (length xs + 1) src (length xs + 1)" "apart (dst + length ds) (length xs + 1) src (length xs + 1)"
    using a by (auto simp: apart_def)
  note c1 = memcpy1.copy_string [OF s a1(1)] and c2 = memcpy1.copy_string [OF s a1(2)]
  have "cstr ?m2 dst (ds @ xs)"
    unfolding cstr_append using c2(1) c2(2) [of "dst + _"] d by (auto simp: cstr_nth)
  moreover have "libc_strcpy dst src m = Some (dst, ?m1)" using s by (simp add: libc_strcpy_def libc_memcpy_def)
  moreover have "libc_strcat dst src m = Some (dst, ?m2)" using s d by (simp add: libc_strcat_def strend_cstr)
  moreover have "?m1 x = m x" if "\<not> (dst \<le> x \<and> x \<le> dst + length xs)" for x using that c1(2) [of x] by auto
  moreover have "?m2 x = m x" if "\<not> (dst \<le> x \<and> x \<le> dst + length ds + length xs)" for x using that c2(2) [of x] by auto
  ultimately show ?thesis using c1(1) by blast
qed


text \<open>Two strings of two characters at 100 and 200, for concrete instances.\<close>

definition demo_strings :: bmem where
  "demo_strings = (\<lambda>a. if a \<in> {100, 101} then 0x61 else if a \<in> {200, 201} then 0x62 else 0)"

lemma demo_strings_cstr: "cstr demo_strings 100 [0x61, 0x61]" "cstr demo_strings 200 [0x62, 0x62]"
  by (simp_all add: demo_strings_def)

theorem strcpy_strcat_correct_witness:
  "\<exists>m2. libc_strcat 100 200 demo_strings = Some (100, m2) \<and> cstr m2 100 [0x61, 0x61, 0x62, 0x62]"
  using strcpy_strcat_correct [OF demo_strings_cstr(2) demo_strings_cstr(1)] by (auto simp: apart_def)

lemma memset_zero:
  "snd (libc_memset d 0 n m) = (\<lambda>a. if d \<le> a \<and> a < d + n then 0 else m a)"
  by (simp add: memset_bytes fun_eq_iff)

lemma ncpy_body_bytes:
  assumes "cstr m src xs" and "apart dst n src n"
  shows "ncpy_body dst src n m x =
    (if dst \<le> x \<and> x < dst + n then (if x - dst < length xs then xs ! (x - dst) else 0) else m x)"
proof -
  define k where "k = min n (length xs)"
  have a: "apart dst k src k" and k: "k \<le> length xs" "k \<le> n" "k = n \<or> k = length xs"
    using assms(2) by (auto simp: apart_def k_def)
  note c = memcpy1.copy_prefix [OF assms(1) k(1) a]
  have b: "ncpy_body dst src n m x = (if dst + k \<le> x \<and> x < dst + n then 0 else snd (libc_memcpy 1 dst src k m) x)"
    using assms(1) k(2) by (simp add: ncpy_body_def memset_zero Let_def k_def)
  consider "dst \<le> x" "x < dst + k" | "dst + k \<le> x" "x < dst + n" | "\<not> (dst \<le> x \<and> x < dst + n)" by linarith
  then show ?thesis
  proof cases
    case 1
    then have "x - dst < k" by linarith
    then show ?thesis using c(1) [rule_format, of "x - dst"] 1 k b by simp
  next
    case 2
    then have "\<not> x - dst < length xs" using k(3) by linarith
    then show ?thesis using 2 b by simp
  next
    case 3
    then have n: "\<not> (dst \<le> x \<and> x < dst + k)" "\<not> (dst + k \<le> x \<and> x < dst + n)" using k(2) by linarith+
    show ?thesis unfolding b if_not_P [OF n(2)] if_not_P [OF 3] by (rule c(2) [OF n(1)])
  qed
qed

lemma strncat_correct:
  assumes s: "cstr m src xs" and d: "cstr m dst ds" and a: "apart dst (length ds + n + 1) src n"
  shows "\<exists>m'. libc_strncat dst src n m = Some (dst, m') \<and> cstr m' dst (ds @ take n xs)"
proof -
  let ?k = "min n (length xs)" and ?t = "dst + length ds"
  let ?m1 = "snd (libc_memcpy 1 ?t src ?k m)"
  have k: "?k \<le> length xs" and a': "apart ?t ?k src ?k" using a by (auto simp: apart_def)
  note c = memcpy1.copy_prefix [OF s k a']
  have "libc_strncat dst src n m = Some (dst, ?m1(?t + ?k := 0))"
    using s d by (simp add: libc_strncat_def strend_cstr Let_def)
  moreover have "cstr (?m1(?t + ?k := 0)) ?t (take ?k xs)"
    using c(1) s by (intro prefix_terminated) (auto simp: cstr_nth)
  then have "cstr (?m1(?t + ?k := 0)) dst (ds @ take n xs)"
    unfolding cstr_append using c(2) [of "dst + _"] d by (auto simp: cstr_nth min_def)
  ultimately show ?thesis by blast
qed

text \<open>
  \<open>strncpy\<close> writes exactly \<open>n\<close> bytes, the string cut to \<open>n\<close> characters and padded with zeroes,
  and \<open>stpncpy\<close> does the same and returns the address behind the copied characters.
\<close>

theorem strncpy_correct:
  assumes "cstr m src xs" and "apart dst n src n"
  shows "\<exists>m'. libc_strncpy dst src n m = (dst, m') \<and> libc_stpncpy dst src n m = (dst + min n (length xs), m') \<and>
    (\<forall>i<n. m' (dst + i) = (if i < length xs then xs ! i else 0)) \<and>
    (\<forall>x. \<not> (dst \<le> x \<and> x < dst + n) \<longrightarrow> m' x = m x)"
  using assms ncpy_body_bytes [OF assms]
  by (auto simp: libc_strncpy_def libc_stpncpy_def)

theorem strncpy_correct_witness:
  "\<exists>m'. libc_strncpy 100 200 4 demo_strings = (100, m') \<and> m' 101 = 0x62 \<and> m' 103 = 0"
proof -
  obtain m' where m': "libc_strncpy 100 200 4 demo_strings = (100, m')"
    "\<forall>i<4. m' (100 + i) = (if i < length [0x62, 0x62] then [0x62, 0x62] ! i else 0)"
    using strncpy_correct [OF demo_strings_cstr(2), of 100 4] by (auto simp: apart_def)
  from m'(2) [rule_format, of 1] m'(2) [rule_format, of 3] m'(1) show ?thesis by simp
qed

subsection \<open>The size-checked functions\<close>

text \<open>
  C28: The size-checked copies never write outside the buffer of \<open>dstsize\<close> bytes they are given, report
  \<open>ERANGE\<close> exactly when the result with its terminator does not fit, and then change nothing.
\<close>

theorem checked_copy_safe:
  assumes s: "cstr m src xs" and a: "apart dst dstsize src (length xs + 1)"
  shows "\<exists>e m'. libc_strcpy_s dst dstsize src m = Some (e, m') \<and>
    (e = ERANGE \<longleftrightarrow> dstsize \<le> length xs) \<and> (e = ERANGE \<longrightarrow> m' = m) \<and> (e = EOK \<longrightarrow> cstr m' dst xs) \<and>
    (\<forall>x. \<not> (dst \<le> x \<and> x < dst + dstsize) \<longrightarrow> m' x = m x)"
proof (cases "dstsize \<le> length xs")
  case True
  then show ?thesis using s by (simp add: libc_strcpy_s_def)
next
  case False
  then have a': "apart dst (length xs + 1) src (length xs + 1)" using a by (auto simp: apart_def)
  have "snd (libc_memcpy 1 dst src (length xs + 1) m) x = m x" if "\<not> (dst \<le> x \<and> x < dst + dstsize)" for x
    using memcpy1.copy_string(2) [OF s a', of x] False that by auto
  then show ?thesis using s False memcpy1.copy_string(1) [OF s a'] by (simp add: libc_strcpy_s_def)
qed


theorem checked_copy_safe_witness:
  "libc_strcpy_s 100 2 200 demo_strings = Some (ERANGE, demo_strings)"
  using checked_copy_safe [OF demo_strings_cstr(2), of 100 2] by (auto simp: apart_def)

subsection \<open>Comparing\<close>

text \<open>
  The reference: the difference of the first characters that differ, terminators included. A string
  counts as followed by zeroes.
\<close>

fun diff_first :: "8 word list \<Rightarrow> 8 word list \<Rightarrow> int" where
  "diff_first [] [] = 0"
| "diff_first (x # xs) [] = sint x"
| "diff_first [] (y # ys) = - sint y"
| "diff_first (x # xs) (y # ys) = (if x = y then diff_first xs ys else sint x - sint y)"

lemma sint_eq: "sint a = sint b \<longleftrightarrow> a = (b :: 8 word)"
  using signed_word_eqI [of a b] by blast

lemma strcmp_loop_cstr:
  assumes f: "\<And>c. f c = 0 \<longleftrightarrow> c = 0"
  shows "cstr m p xs \<Longrightarrow> cstr m q ys \<Longrightarrow> strcmp_loop f m p q = Some (diff_first (map f xs) (map f ys))"
proof (induction xs arbitrary: p q ys)
  case Nil
  have "f 0 = 0" using f by simp
  then show ?case using Nil by (cases ys) (simp_all add: strcmp_loop.simps [of f m p q] Let_def)
next
  case (Cons x xs)
  have "f 0 = 0" "f x \<noteq> 0" using f Cons.prems by simp_all
  then show ?case using Cons
    by (cases ys) (simp_all add: strcmp_loop.simps [of f m p q] Let_def sint_eq)
qed

lemma strncmp_loop_cstr:
  assumes f: "\<And>c. f c = 0 \<longleftrightarrow> c = 0"
  shows "cstr m p xs \<Longrightarrow> cstr m q ys \<Longrightarrow> 0 < n \<Longrightarrow>
    strncmp_loop f m p q n r = diff_first (map f (take n xs)) (map f (take n ys))"
proof (induction xs arbitrary: p q n r ys)
  case Nil
  have "f 0 = 0" using f by simp
  then show ?case using Nil by (cases ys; cases n) (simp_all add: Let_def)
next
  case (Cons x xs)
  obtain k where n: "n = Suc k" using Cons.prems by (cases n) auto
  have "f 0 = 0" "f x \<noteq> 0" using f Cons.prems by simp_all
  moreover have "k = 0 \<or> 0 < k" by auto
  ultimately show ?case using Cons n by (cases ys) (auto simp: Let_def sint_eq)
qed

lemma sint_char_lower: "sint (char_lower c) = libc_tolower (sint c)"
proof -
  have "- 128 \<le> sint c" "sint c < 128" using sint_ge [of c] sint_lt [of c] by simp_all
  then have "- 128 \<le> libc_tolower (sint c)" "libc_tolower (sint c) < 128" using tolower_range by auto
  then show ?thesis unfolding char_lower_def by (simp add: sint_sbintrunc' signed_take_bit_int_eq_self)
qed

lemma char_lower_0 [simp]: "char_lower c = 0 \<longleftrightarrow> c = 0"
  using sint_eq [of "char_lower c" 0] sint_eq [of c 0] by (simp add: sint_char_lower)

text \<open>
  C29: \<open>strcmp\<close> and \<open>strncmp\<close> (and their case-insensitive versions) return for terminated strings, with
  the difference of the first two characters that differ. The characters are subtracted as signed
  bytes, so a character above 127 sorts before all others; C asks for unsigned characters. With a
  count of zero \<open>strncmp\<close> returns whatever its uninitialised result variable held.
\<close>

theorem string_compare_correct:
  assumes "cstr m p xs" and "cstr m q ys" and "0 < n"
  shows "libc_strcmp m p q = Some (diff_first xs ys) \<and>
    libc_strncmp junk m p q n = diff_first (take n xs) (take n ys) \<and>
    libc_strcasecmp m p q = Some (diff_first (map char_lower xs) (map char_lower ys)) \<and>
    libc_strncasecmp junk m p q n = diff_first (map char_lower (take n xs)) (map char_lower (take n ys)) \<and>
    libc_strncmp junk m p q 0 = junk"
proof (intro conjI)
  show "libc_strcmp m p q = Some (diff_first xs ys)"
    using strcmp_loop_cstr [of "\<lambda>c. c" m p xs q ys] assms by (simp add: libc_strcmp_def)
  show "libc_strcasecmp m p q = Some (diff_first (map char_lower xs) (map char_lower ys))"
    unfolding libc_strcasecmp_def by (rule strcmp_loop_cstr [OF char_lower_0 assms(1,2)])
  show "libc_strncmp junk m p q n = diff_first (take n xs) (take n ys)"
    using strncmp_loop_cstr [of "\<lambda>c. c" m p xs q ys n junk] assms by (simp add: libc_strncmp_def)
  show "libc_strncasecmp junk m p q n = diff_first (map char_lower (take n xs)) (map char_lower (take n ys))"
    unfolding libc_strncasecmp_def by (rule strncmp_loop_cstr [OF char_lower_0 assms])
  show "libc_strncmp junk m p q 0 = junk" by (simp add: libc_strncmp_def)
qed

theorem string_compare_correct_witness:
  "libc_strcmp (\<lambda>a. if a = 100 then 0x80 else if a = 200 then 0x61 else 0) 100 200 = Some (- 225)"
  using string_compare_correct [of "\<lambda>a. if a = 100 then 0x80 else if a = 200 then 0x61 else 0" 100 "[0x80]" 200 "[0x61]" 1 0]
  by simp

subsection \<open>Searching for a string\<close>

lemma strstr_match_cstr:
  "cstr m h hs \<Longrightarrow> cstr m n ns \<Longrightarrow> strstr_match (\<lambda>c. c) m h n = Some (prefix ns hs)"
proof (induction ns arbitrary: h n hs)
  case Nil
  then show ?case by (simp add: strstr_match.simps)
next
  case (Cons x ns)
  then show ?case by (cases hs) (simp_all add: strstr_match.simps [of _ m h n])
qed

text \<open>The first position at which \<open>ns\<close> begins in \<open>hs\<close>.\<close>

fun find_sub :: "8 word list \<Rightarrow> 8 word list \<Rightarrow> nat option" where
  "find_sub ns [] = None"
| "find_sub ns (h # hs) = (if prefix ns (h # hs) then Some 0 else map_option Suc (find_sub ns hs))"

lemma strstr_loop_cstr:
  "cstr m h hs \<Longrightarrow> cstr m n ns \<Longrightarrow> c \<noteq> 0 \<Longrightarrow> strstr_loop (\<lambda>c. c) m h n c =
     Some (case find_sub (c # ns) hs of None \<Rightarrow> NULL | Some i \<Rightarrow> h + i)"
proof (induction hs arbitrary: h)
  case Nil
  then show ?case by (simp add: strstr_loop.simps)
next
  case (Cons x hs)
  have "strstr_match (\<lambda>c. c) m (h + 1) n = Some (prefix ns hs)" using Cons.prems by (intro strstr_match_cstr) simp_all
  then show ?case using Cons by (subst strstr_loop.simps) (auto split: option.splits)
qed

text \<open>
  \<open>strstr\<close> returns the first occurrence of a nonempty needle, \<open>NULL\<close> if there is none. For an
  empty needle, where C asks for the haystack itself, it returns \<open>NULL\<close>.
\<close>

theorem libc_strstr_correct:
  assumes "cstr m h hs" and "cstr m n ns"
  shows "libc_strstr m h n = Some (if ns = [] then NULL else case find_sub ns hs of None \<Rightarrow> NULL | Some i \<Rightarrow> h + i)"
proof (cases ns)
  case Nil
  have "strstr_loop f m h k 0 = Some NULL" if "cstr m h hs" for f k h hs
    using that by (induction hs arbitrary: h) (simp_all add: strstr_loop.simps [of f m _ k])
  then show ?thesis using assms Nil by (simp add: libc_strstr_def)
next
  case (Cons c ns')
  then show ?thesis using assms strstr_loop_cstr [of m h hs "n + 1" ns' c] by (simp add: libc_strstr_def)
qed

theorem libc_strstr_correct_witness:
  "libc_strstr demo_strings 100 101 = Some 100 \<and> libc_strstr demo_strings 100 102 = Some NULL"
proof -
  have n: "cstr demo_strings 101 [0x61]" "cstr demo_strings 102 []" by (simp_all add: demo_strings_def)
  show ?thesis
    using libc_strstr_correct [OF demo_strings_cstr(1) n(1)] libc_strstr_correct [OF demo_strings_cstr(1) n(2)] by simp
qed

subsection \<open>Spans\<close>

lemma strchr_member:
  assumes "cstr m a as" and "a \<noteq> 0"
  shows "\<exists>p. libc_strchr m a (sint c) = Some p \<and> (p \<noteq> NULL \<longleftrightarrow> c = 0 \<or> c \<in> set as)"
  using strchr_loop_cstr [OF assms(1), of c] assms(2) by (simp add: libc_strchr_def)

lemma strcspn_loop_cstr:
  assumes "cstr m r rs" and "r \<noteq> 0"
  shows "cstr m p xs \<Longrightarrow> strcspn_loop m p r = Some (p + length (takeWhile (\<lambda>c. c \<notin> set rs) xs))"
proof (induction xs arbitrary: p)
  case Nil
  then show ?case by (simp add: strcspn_loop.simps)
next
  case (Cons x xs)
  obtain q where "libc_strchr m r (sint x) = Some q" "q \<noteq> NULL \<longleftrightarrow> x = 0 \<or> x \<in> set rs"
    using strchr_member [OF assms] by blast
  then show ?case using Cons by (subst strcspn_loop.simps) auto
qed

text \<open>\<open>strspn\<close> runs over every byte that is accepted \<^emph>\<open>or zero\<close>.\<close>

lemma strspn_loop_run:
  assumes "cstr m a as" and "a \<noteq> 0"
  shows "(\<forall>i<k. m (p + i) = 0 \<or> m (p + i) \<in> set as) \<Longrightarrow> m (p + k) \<noteq> 0 \<Longrightarrow> m (p + k) \<notin> set as \<Longrightarrow>
    strspn_loop m p a = Some (p + k)"
proof (induction k arbitrary: p)
  case 0
  obtain q where "libc_strchr m a (sint (m p)) = Some q" "q \<noteq> NULL \<longleftrightarrow> m p = 0 \<or> m p \<in> set as"
    using strchr_member [OF assms] by blast
  then show ?case using 0 by (subst strspn_loop.simps) simp
next
  case (Suc k)
  obtain q where "libc_strchr m a (sint (m p)) = Some q" "q \<noteq> NULL \<longleftrightarrow> m p = 0 \<or> m p \<in> set as"
    using strchr_member [OF assms] by blast
  moreover have "strspn_loop m (p + 1) a = Some (p + 1 + k)"
    using Suc.prems by (intro Suc.IH) (auto dest: spec [of _ "Suc _"])
  ultimately show ?case using Suc.prems(1) [rule_format, of 0] by (subst strspn_loop.simps) auto
qed

lemma takeWhile_shorter: "\<not> set xs \<subseteq> A \<Longrightarrow> length (takeWhile (\<lambda>c. c \<in> A) xs) < length xs"
  by (induction xs) auto

lemma strspn_good:
  assumes a: "cstr m a as" "a \<noteq> 0" and s: "cstr m p xs" and n: "\<not> set xs \<subseteq> set as"
  shows "libc_strspn m p a = Some (length (takeWhile (\<lambda>c. c \<in> set as) xs))"
proof -
  let ?k = "length (takeWhile (\<lambda>c. c \<in> set as) xs)"
  have k: "?k < length xs" using n by (rule takeWhile_shorter)
  have t: "xs ! i \<in> set as" if "i < ?k" for i using that by (metis nth_mem set_takeWhileD takeWhile_nth)
  have "xs ! ?k \<notin> set as" using k by (rule nth_length_takeWhile)
  moreover have "xs ! ?k \<noteq> 0" using s k nth_mem [OF k] by (metis cstr_nth)
  ultimately have "strspn_loop m p a = Some (p + ?k)"
    using s k t by (intro strspn_loop_run [OF a]) (auto simp: cstr_nth)
  then show ?thesis by (simp add: libc_strspn_def)
qed

text \<open>
  \<open>strcspn\<close> counts the characters before the first rejected one. \<open>strspn\<close> counts the accepted ones
  as long as the string has one that is not accepted; otherwise its search for the terminator in the
  accepted set succeeds and it runs on behind the string, up to the first byte that is neither zero
  nor accepted.
\<close>

theorem string_spans:
  assumes a: "cstr m a as" "a \<noteq> 0" and s: "cstr m p xs"
  shows "libc_strcspn m p a = Some (length (takeWhile (\<lambda>c. c \<notin> set as) xs)) \<and>
    (\<not> set xs \<subseteq> set as \<longrightarrow> libc_strspn m p a = Some (length (takeWhile (\<lambda>c. c \<in> set as) xs))) \<and>
    (set xs \<subseteq> set as \<and> m (p + length xs + 1) \<noteq> 0 \<and> m (p + length xs + 1) \<notin> set as \<longrightarrow>
       libc_strspn m p a = Some (length xs + 1))"
proof (intro conjI impI)
  show "libc_strcspn m p a = Some (length (takeWhile (\<lambda>c. c \<notin> set as) xs))"
    using strcspn_loop_cstr [OF a s] by (simp add: libc_strcspn_def)
next
  assume "\<not> set xs \<subseteq> set as"
  then show "libc_strspn m p a = Some (length (takeWhile (\<lambda>c. c \<in> set as) xs))" by (rule strspn_good [OF a s])
next
  assume n: "set xs \<subseteq> set as \<and> m (p + length xs + 1) \<noteq> 0 \<and> m (p + length xs + 1) \<notin> set as"
  have "\<forall>i<length xs + 1. m (p + i) = 0 \<or> m (p + i) \<in> set as"
    using n s by (auto simp: cstr_nth less_Suc_eq subset_eq)
  then have "strspn_loop m p a = Some (p + (length xs + 1))"
    using n by (intro strspn_loop_run [OF a]) (simp_all add: add.assoc)
  then show "libc_strspn m p a = Some (length xs + 1)" by (simp add: libc_strspn_def)
qed

theorem string_spans_witness:
  "libc_strspn (\<lambda>a. if a \<in> {100, 200} then 0x20 else if a = 202 then 0x41 else 0) 200 100 = Some 2"
  using string_spans [of "\<lambda>a. if a \<in> {100, 200} then 0x20 else if a = 202 then 0x41 else 0" 100 "[0x20]" 200 "[0x20]"]
  by simp


subsection \<open>Tokens\<close>

text \<open>
  \<open>strtok_r\<close> on a string with a character that is no delimiter: the token returned is the first
  longest run of such characters, it is terminated in place, the next call resumes behind its
  delimiter (or at the end of the string), and only that delimiter byte is written.
\<close>

theorem libc_strtok_r_correct:
  assumes d: "cstr m delim ds" "delim \<noteq> 0" and s: "cstr m p xs" "p \<noteq> 0" and n: "\<not> set xs \<subseteq> set ds"
  defines "k \<equiv> length (takeWhile (\<lambda>c. c \<in> set ds) xs)"
  defines "tok \<equiv> takeWhile (\<lambda>c. c \<notin> set ds) (drop k xs)"
  assumes a: "apart p (length xs) delim (length ds + 1)"
  shows "\<exists>save m'. libc_strtok_r p delim sv m = Some (p + k, save, m') \<and> cstr m' (p + k) tok \<and> tok \<noteq> [] \<and>
    cstr m' delim ds \<and> cstr m' save (drop (k + length tok + 1) xs) \<and> (\<forall>x. x \<noteq> p + k + length tok \<longrightarrow> m' x = m x)"
proof -
  let ?e = "p + k + length tok"
  have k: "k < length xs" unfolding k_def using n by (rule takeWhile_shorter)
  have c: "cstr m (p + k) (drop k xs)" using cstr_drop [OF s(1)] k by simp
  have hd: "xs ! k \<notin> set ds" using k nth_length_takeWhile [of "\<lambda>c. c \<in> set ds" xs] by (simp add: k_def)
  have ne: "m p \<noteq> 0" "m (p + k) \<noteq> 0" using cstr_char [OF s(1), of 0] cstr_char [OF s(1) k] k by (cases xs; simp)+
  have tk: "tok \<noteq> []" unfolding tok_def using hd k by (cases "drop k xs") (auto simp: nth_via_drop)
  have tl: "length tok \<le> length (drop k xs)" and tt: "take (length tok) (drop k xs) = tok"
    unfolding tok_def by (rule length_takeWhile_le, simp flip: takeWhile_eq_take)
  have st: "libc_strtok_r p delim sv m = (if m ?e = 0 then Some (p + k, ?e, m) else Some (p + k, ?e + 1, m(?e := 0)))"
    using strspn_good [OF d s(1) n] strcspn_loop_cstr [OF d c] s(2) ne
    by (simp add: libc_strtok_r_def libc_strcspn_def Let_def flip: k_def tok_def)
  show ?thesis
  proof (cases "length tok = length (drop k xs)")
    case True
    then have "drop k xs = tok" using tt by simp
    then have t: "cstr m (p + k) tok" using c by simp
    then have "m ?e = 0" by (simp add: cstr_nth)
    with t show ?thesis using st tk d True k by (intro exI [of _ ?e] exI [of _ m]) simp
  next
    case False
    then have l: "length tok < length (drop k xs)" using tl by simp
    have e: "m ?e \<noteq> 0" using cstr_char [OF c l] by blast
    have "cstr (m(?e := 0)) (p + k) (take (length tok) (drop k xs))"
      using cstr_char [OF c] tl c by (intro prefix_terminated) (auto simp: cstr_nth)
    moreover have "cstr m (?e + 1) (drop (k + length tok + 1) xs)"
      using cstr_drop [OF s(1), of "k + length tok + 1"] l by (simp add: add.assoc)
    then have "cstr (m(?e := 0)) (?e + 1) (drop (k + length tok + 1) xs)"
      using cstr_cong [of "?e + 1" "drop (k + length tok + 1) xs" "m(?e := 0)" m] by simp
    moreover have "x \<noteq> ?e" if "delim \<le> x" "x \<le> delim + length ds" for x
      using a l k that by (auto simp: apart_def)
    then have "cstr (m(?e := 0)) delim ds" using d(1) cstr_cong [of delim ds "m(?e := 0)" m] by simp
    ultimately show ?thesis using st e tk tt by (intro exI [of _ "?e + 1"] exI [of _ "m(?e := 0)"]) simp
  qed
qed

theorem libc_strtok_r_correct_witness:
  "\<exists>save m'. libc_strtok_r 200 100 0 (\<lambda>a. if a \<in> {100, 201} then 0x20 else if a \<in> {200, 202} then 0x41 else 0) = Some (200, save, m') \<and>
     cstr m' 200 [0x41] \<and> cstr m' save [0x41]"
proof -
  let ?m = "\<lambda>a. if a \<in> {100, 201} then 0x20 else if a \<in> {200, 202} then 0x41 else (0 :: 8 word)"
  have c: "cstr ?m 100 [0x20]" "cstr ?m 200 [0x41, 0x20, 0x41]" by simp_all
  show ?thesis using libc_strtok_r_correct [OF c(1) _ c(2), of 0] by (auto simp: apart_def)
qed


subsection \<open>Changing a string in place\<close>

lemma strmap_loop_cstr:
  "cstr m p xs \<Longrightarrow> (\<forall>c\<in>set xs. f c \<noteq> 0) \<Longrightarrow>
     \<exists>m'. strmap_loop f p m = Some m' \<and> cstr m' p (map f xs) \<and> (\<forall>x. \<not> (p \<le> x \<and> x < p + length xs) \<longrightarrow> m' x = m x)"
proof (induction xs arbitrary: p m)
  case Nil
  then show ?case by (simp add: strmap_loop.simps)
next
  case (Cons x xs)
  define m1 where "m1 = m(p := f x)"
  have "cstr m1 (p + 1) xs" "\<forall>c\<in>set xs. f c \<noteq> 0"
    using Cons.prems cstr_cong [of "p + 1" xs m1 m] by (simp_all add: m1_def)
  from Cons.IH [OF this] obtain m' where m': "strmap_loop f (p + 1) m1 = Some m'" "cstr m' (p + 1) (map f xs)"
    "\<forall>y. \<not> (p + 1 \<le> y \<and> y < p + 1 + length xs) \<longrightarrow> m' y = m1 y" by blast
  have "strmap_loop f p m = Some m'" using Cons.prems m'(1) by (subst strmap_loop.simps) (simp add: m1_def)
  moreover have "m' p = f x" using m'(3) by (simp add: m1_def)
  moreover have "m' y = m y" if "\<not> (p \<le> y \<and> y < p + length (x # xs))" for y using m'(3) that by (auto simp: m1_def)
  ultimately show ?case using m'(2) Cons.prems by auto
qed

lemma strlwr_correct:
  assumes "cstr m p xs"
  shows "\<exists>m'. libc_strlwr p m = Some (p, m') \<and> cstr m' p (map char_lower xs)"
proof -
  have "\<forall>c\<in>set xs. char_lower c \<noteq> 0" using assms by (auto simp: cstr_nth)
  from strmap_loop_cstr [OF assms this] show ?thesis by (auto simp: libc_strlwr_def)
qed

end
