(* ===== verification/Libc_Num.thy ===== *)
theory Libc_Num
  imports Libc_String
begin

text \<open>
  The conversions from strings to numbers of \<open>src/libs/libc/templates/string.code\<close> and the bit search
  of \<open>src/libs/libc/string.c\<close>, with the value of a digit string as their specification.
\<close>

subsection \<open>The code\<close>

text \<open>
  \<open>strtou\<close> is \<open>strtou32\<close> (width 32) and \<open>strtou64\<close> (width 64); \<open>base\<close> is converted to the unsigned
  type. A character is a digit or a letter of either case; characters are signed.
\<close>

definition char_digit :: "8 word \<Rightarrow> nat option" where
  "char_digit ch =
     (if 48 \<le> sint ch \<and> sint ch \<le> 57 then Some (nat (sint ch - 48))
      else if 97 \<le> sint ch \<and> sint ch \<le> 122 then Some (nat (10 + (sint ch - 97)))
      else if 65 \<le> sint ch \<and> sint ch \<le> 90 then Some (nat (10 + (sint ch - 65)))
      else None)"

partial_function (option) strtou_loop :: "nat \<Rightarrow> bmem \<Rightarrow> nat \<Rightarrow> nat \<Rightarrow> nat \<Rightarrow> (nat \<times> nat) option" where
  "strtou_loop w m nptr base result =
     (case char_digit (m nptr) of
        None \<Rightarrow> Some (result, nptr)
      | Some temp \<Rightarrow>
          if base \<le> temp then Some (result, nptr)
          else strtou_loop w m (nptr + 1) base ((result * base + temp) mod 2 ^ w))"

text \<open>The prefix of a number in C notation, looked at when \<open>base\<close> is zero.\<close>

definition strtou_base :: "bmem \<Rightarrow> nat \<Rightarrow> nat \<times> int" where
  "strtou_base m nptr =
     (if m nptr = 0x30
      then (if m (nptr + 1) = 0x78 \<or> m (nptr + 1) = 0x58 then (nptr + 2, 16)
            else if m (nptr + 1) = 0x62 \<or> m (nptr + 1) = 0x42 then (nptr + 2, 2)
            else (nptr + 1, 8))
      else (nptr, 10))"

text \<open>The result is the value and the pointer stored through \<open>endptr\<close>.\<close>

definition strtou :: "nat \<Rightarrow> bmem \<Rightarrow> nat \<Rightarrow> int \<Rightarrow> (nat \<times> nat) option" where
  "strtou w m nptr base =
     (let (p, b) = (if base = 0 then strtou_base m nptr else (nptr, base))
      in strtou_loop w m p (nat (b mod 2 ^ w)) 0)"

partial_function (option) strto_sign :: "bmem \<Rightarrow> nat \<Rightarrow> bool \<Rightarrow> (nat \<times> bool) option" where
  "strto_sign m nptr is_neg =
     (if m nptr = 0x2d then strto_sign m (nptr + 1) (\<not> is_neg) else Some (nptr, is_neg))"

text \<open>The signed value has the width of the unsigned one; negation wraps.\<close>

definition strto :: "nat \<Rightarrow> bmem \<Rightarrow> nat \<Rightarrow> int \<Rightarrow> (int \<times> nat) option" where
  "strto w m nptr base = do {
     (p, is_neg) \<leftarrow> strto_sign m nptr False;
     (v, e) \<leftarrow> strtou w m p base;
     let result = signed_take_bit (w - 1) (int v);
     Some (if is_neg then signed_take_bit (w - 1) (- result) else result, e)
   }"

definition libc_strtou32 :: "bmem \<Rightarrow> nat \<Rightarrow> int \<Rightarrow> (nat \<times> nat) option" where
  "libc_strtou32 m nptr base = strtou 32 m nptr base"

definition libc_strtou64 :: "bmem \<Rightarrow> nat \<Rightarrow> int \<Rightarrow> (nat \<times> nat) option" where
  "libc_strtou64 m nptr base = strtou 64 m nptr base"

definition libc_strto32 :: "bmem \<Rightarrow> nat \<Rightarrow> int \<Rightarrow> (int \<times> nat) option" where
  "libc_strto32 m nptr base = strto 32 m nptr base"

definition libc_strto64 :: "bmem \<Rightarrow> nat \<Rightarrow> int \<Rightarrow> (int \<times> nat) option" where
  "libc_strto64 m nptr base = strto 64 m nptr base"

definition libc_ato32 :: "bmem \<Rightarrow> nat \<Rightarrow> int option" where
  "libc_ato32 m nptr = map_option fst (libc_strto32 m nptr 10)"

definition libc_ato64 :: "bmem \<Rightarrow> nat \<Rightarrow> int option" where
  "libc_ato64 m nptr = map_option fst (libc_strto64 m nptr 10)"

text \<open>\<open>for (result = 1; !(i&1); ++result) i >>= 1;\<close> on a signed \<open>i\<close>.\<close>

partial_function (option) ffs_loop :: "int \<Rightarrow> int \<Rightarrow> int option" where
  "ffs_loop i result = (if even i then ffs_loop (i div 2) (result + 1) else Some result)"

definition libc_ffs :: "int \<Rightarrow> int option" where
  "libc_ffs i = (if i = 0 then Some 0 else ffs_loop i 1)"

subsection \<open>Values of digit strings\<close>

definition digits_val :: "nat \<Rightarrow> nat \<Rightarrow> nat list \<Rightarrow> nat" where
  "digits_val base v ds = foldl (\<lambda>v d. v * base + d) v ds"

lemma digits_val_simps [simp]: "digits_val b v [] = v" "digits_val b v (d # ds) = digits_val b (v * b + d) ds"
  by (simp_all add: digits_val_def)

lemma digits_val_mod: "digits_val b (v mod k) ds mod k = digits_val b v ds mod k"
proof (induction ds arbitrary: v)
  case (Cons d ds)
  have "(v mod k * b + d) mod k = (v * b + d) mod k" by (metis mod_add_left_eq mod_mult_left_eq)
  then show ?case using Cons [of "v mod k * b + d"] Cons [of "v * b + d"] by (metis digits_val_simps(2))
qed simp

text \<open>The characters at \<open>p\<close> are the digits \<open>ds\<close>, and the next one does not continue the number.\<close>

fun digits_at :: "bmem \<Rightarrow> nat \<Rightarrow> nat \<Rightarrow> nat list \<Rightarrow> bool" where
  "digits_at m p base [] \<longleftrightarrow> (case char_digit (m p) of None \<Rightarrow> True | Some d \<Rightarrow> base \<le> d)"
| "digits_at m p base (d # ds) \<longleftrightarrow> char_digit (m p) = Some d \<and> d < base \<and> digits_at m (p + 1) base ds"

lemma strtou_loop_correct:
  "digits_at m p b ds \<Longrightarrow> v < 2 ^ w \<Longrightarrow> strtou_loop w m p b v = Some (digits_val b v ds mod 2 ^ w, p + length ds)"
proof (induction ds arbitrary: p v)
  case Nil
  then show ?case by (subst strtou_loop.simps) (auto split: option.splits)
next
  case (Cons d ds)
  then show ?case by (subst strtou_loop.simps) (simp add: digits_val_mod)
qed

lemma strto_sign_correct:
  "(\<forall>i<k. m (p + i) = 0x2d) \<Longrightarrow> m (p + k) \<noteq> 0x2d \<Longrightarrow> strto_sign m p n = Some (p + k, n \<noteq> odd k)"
proof (induction k arbitrary: p n)
  case 0
  then show ?case by (simp add: strto_sign.simps)
next
  case (Suc k)
  have "strto_sign m (p + 1) (\<not> n) = Some (p + 1 + k, (\<not> n) \<noteq> odd k)"
    using Suc.prems(1) [rule_format, of "Suc _"] Suc.prems(2) by (intro Suc.IH) simp_all
  then show ?case using Suc.prems(1) [rule_format, of 0] by (subst strto_sign.simps) auto
qed



text \<open>The prefixes, with base zero.\<close>

lemma strtou_prefix:
  "m p = 0x30 \<Longrightarrow> m (p + 1) = 0x78 \<Longrightarrow> libc_strtou32 m p 0 = libc_strtou32 m (p + 2) 16"
  "m p = 0x30 \<Longrightarrow> m (p + 1) = 0x62 \<Longrightarrow> libc_strtou32 m p 0 = libc_strtou32 m (p + 2) 2"
  "m p \<noteq> 0x30 \<Longrightarrow> libc_strtou32 m p 0 = libc_strtou32 m p 10"
  by (simp_all add: libc_strtou32_def strtou_def strtou_base_def)

lemma ffs_loop_correct: "ffs_loop (2 ^ k * (2 * j + 1)) r = Some (r + int k)"
proof (induction k arbitrary: r)
  case 0
  then show ?case by (simp add: ffs_loop.simps)
next
  case (Suc k)
  then show ?case by (subst ffs_loop.simps) (simp add: mult.assoc)
qed

text \<open>
  \<open>ffs\<close> returns for every argument: zero for zero, and otherwise one more than the number of the
  lowest bit that is set.
\<close>

theorem libc_ffs_correct:
  "libc_ffs 0 = Some 0 \<and> (bit i k \<and> (\<forall>j<k. \<not> bit i j) \<longrightarrow> libc_ffs i = Some (int k + 1))"
proof (intro conjI impI)
  assume b: "bit i k \<and> (\<forall>j<k. \<not> bit i j)"
  then have "take_bit k i = 0" by (auto simp: bit_eq_iff bit_simps)
  then have "i = 2 ^ k * (i div 2 ^ k)" by (metis minus_mod_eq_mult_div take_bit_eq_mod diff_zero)
  moreover have "odd (i div 2 ^ k)" using b by (simp add: bit_iff_odd)
  then obtain j where "i div 2 ^ k = 2 * j + 1" by (elim oddE)
  ultimately have i: "i = 2 ^ k * (2 * j + 1)" by simp
  then have "i \<noteq> 0" by (metis b bit_0_eq bot_apply bot_bool_def)
  then show "libc_ffs i = Some (int k + 1)" using ffs_loop_correct [of k j 1] i by (simp add: libc_ffs_def)
qed (simp add: libc_ffs_def)

theorem libc_ffs_correct_witness: "libc_ffs 8 = Some 4"
proof -
  have "bit (8::int) 3 \<and> (\<forall>j<3. \<not> bit (8::int) j)" by (simp add: bit_iff_odd numeral_3_eq_3 less_Suc_eq)
  then show ?thesis using libc_ffs_correct [of 8 3] by simp
qed

end
