(* ===== verification/Libc_Match.thy ===== *)
theory Libc_Match
  imports Libc_String
begin

text \<open>
  The pattern and similarity functions of the C library: \<open>wildstrcmp\<close> (\<open>src/libs/libc/string.c\<close>) and
  \<open>fuzzy_memcmp\<close> (\<open>src/libs/libc/templates/fuzzy_memcmp.code\<close>), with the meaning of a pattern and the
  edit distance as references.
\<close>

subsection \<open>Wildcards\<close>

text \<open>
  \<open>libc_wildstrcmp\<close> and \<open>libc_wildstrcasecmp\<close> are one text with \<open>UNIFORM\<close> the identity or \<open>tolower\<close>.
  \<open>Wild\<close> is the function (and the head of its loop), \<open>Scan\<close> its inner loop after a star: \<open>card_post\<close> is
  the character that follows the star, the pattern pointer is behind it. The recursive call passes
  the string as pattern and the pattern as string.
\<close>

datatype wild_state = Wild nat nat | Scan "8 word" nat nat

partial_function (option) skip_stars :: "bmem \<Rightarrow> nat \<Rightarrow> nat option" where
  "skip_stars m p = (if m p = 0x2a then skip_stars m (p + 1) else Some p)"

partial_function (option) wild :: "(8 word \<Rightarrow> 8 word) \<Rightarrow> bmem \<Rightarrow> wild_state \<Rightarrow> int option" where
  "wild f m st =
     (case st of
        Wild pattern string \<Rightarrow>
          if m string = 0 then do { p \<leftarrow> skip_stars m pattern; Some (- sint (f (m p))) }
          else if m pattern = 0 then Some (sint (m string))
          else if m pattern = 0x2a
          then do {
            p \<leftarrow> skip_stars m (pattern + 1);
            if m p = 0 then Some 0
            else if m p = 0x3f then wild f m (Wild (p + 2) (string + 1))
            else wild f m (Scan (f (m p)) (p + 1) string)
          }
          else if f (m pattern) = f (m string) \<or> m pattern = 0x3f
          then wild f m (Wild (pattern + 1) (string + 1))
          else Some (sint (f (m string)) - sint (f (m pattern)))
      | Scan card_post pattern string \<Rightarrow>
          if f (m string) = card_post
          then do {
            r \<leftarrow> wild f m (Wild (string + 1) pattern);
            if r = 0 then Some 0 else wild f m (Scan card_post pattern (string + 1))
          }
          else if m string = 0 then Some (- sint card_post)
          else wild f m (Scan card_post pattern (string + 1)))"

definition libc_wildstrcmp :: "bmem \<Rightarrow> nat \<Rightarrow> nat \<Rightarrow> int option" where
  "libc_wildstrcmp m pattern string = wild (\<lambda>c. c) m (Wild pattern string)"

definition libc_wildstrcasecmp :: "bmem \<Rightarrow> nat \<Rightarrow> nat \<Rightarrow> int option" where
  "libc_wildstrcasecmp m pattern string = wild char_lower m (Wild pattern string)"

subsection \<open>Edit distance\<close>

text \<open>
  \<open>libc_fuzzy_memcmp\<close> and \<open>libc_fuzzy_memcasecmp\<close> (\<open>f\<close> the identity or \<open>tolower\<close>). The rows \<open>v0\<close> and
  \<open>v1\<close> have \<open>b_bytes + 1\<close> entries; the code initialises and copies only the first \<open>b_bytes\<close> of \<open>v0\<close>, so
  \<open>v0[b_bytes]\<close> keeps what the memory held (\<open>junk\<close>). Sizes are 32 bits wide.
\<close>

fun fuzzy_cols :: "(nat \<Rightarrow> bool) \<Rightarrow> nat \<Rightarrow> nat \<Rightarrow> (nat \<Rightarrow> nat) \<Rightarrow> (nat \<Rightarrow> nat) \<Rightarrow> (nat \<Rightarrow> nat)" where
  "fuzzy_cols ne j 0 v0 v1 = v1"
| "fuzzy_cols ne j (Suc n) v0 v1 =
     (let cost = add32 (if ne j then 1 else 0) (v0 j);
          cost = min cost (add32 (v1 j) 1);
          cost = min cost (add32 (v0 (j + 1)) 1)
      in fuzzy_cols ne (j + 1) n v0 (v1(j + 1 := cost)))"

fun fuzzy_rows :: "(nat \<Rightarrow> nat \<Rightarrow> bool) \<Rightarrow> nat \<Rightarrow> nat \<Rightarrow> nat \<Rightarrow> (nat \<Rightarrow> nat) \<Rightarrow> (nat \<Rightarrow> nat) \<Rightarrow> (nat \<Rightarrow> nat)" where
  "fuzzy_rows ne b i 0 v0 v1 = v1"
| "fuzzy_rows ne b i (Suc n) v0 v1 =
     (let v1' = fuzzy_cols (ne i) 0 b v0 (v1(0 := i + 1))
      in fuzzy_rows ne b (i + 1) n (\<lambda>k. if k < b then v1' k else v0 k) v1')"

definition fuzzy_mem :: "(8 word \<Rightarrow> 8 word) \<Rightarrow> nat \<Rightarrow> bmem \<Rightarrow> nat \<Rightarrow> nat \<Rightarrow> nat \<Rightarrow> nat \<Rightarrow> nat" where
  "fuzzy_mem f junk m a a_bytes b b_bytes =
     (if a_bytes = 0 then b_bytes
      else if b_bytes = 0 then a_bytes
      else let (a, a_bytes, b, b_bytes) = (if a_bytes < b_bytes then (b, b_bytes, a, a_bytes) else (a, a_bytes, b, b_bytes));
               v0 = (\<lambda>i. if i < b_bytes then i else junk)
           in fuzzy_rows (\<lambda>i j. f (m (a + i)) \<noteq> f (m (b + j))) b_bytes 0 a_bytes v0 (\<lambda>_. junk) b_bytes)"

definition libc_fuzzy_memcmp :: "nat \<Rightarrow> bmem \<Rightarrow> nat \<Rightarrow> nat \<Rightarrow> nat \<Rightarrow> nat \<Rightarrow> nat" where
  "libc_fuzzy_memcmp junk m a a_bytes b b_bytes = fuzzy_mem (\<lambda>c. c) junk m a a_bytes b b_bytes"

definition libc_fuzzy_memcasecmp :: "nat \<Rightarrow> bmem \<Rightarrow> nat \<Rightarrow> nat \<Rightarrow> nat \<Rightarrow> nat \<Rightarrow> nat" where
  "libc_fuzzy_memcasecmp junk m a a_bytes b b_bytes = fuzzy_mem char_lower junk m a a_bytes b b_bytes"

definition libc_fuzzy_strcmp :: "nat \<Rightarrow> bmem \<Rightarrow> nat \<Rightarrow> nat \<Rightarrow> nat option" where
  "libc_fuzzy_strcmp junk m a b = do {
     n \<leftarrow> libc_strlen m a;
     k \<leftarrow> libc_strlen m b;
     Some (libc_fuzzy_memcmp junk m a n b k)
   }"

definition libc_fuzzy_strncmp :: "nat \<Rightarrow> bmem \<Rightarrow> nat \<Rightarrow> nat \<Rightarrow> nat \<Rightarrow> nat \<Rightarrow> nat" where
  "libc_fuzzy_strncmp junk m a max_a_chars b max_b_chars =
     libc_fuzzy_memcmp junk m a (libc_strnlen m a max_a_chars) b (libc_strnlen m b max_b_chars)"

subsection \<open>Patterns without a star\<close>

text \<open>The intended meaning of a pattern.\<close>

fun matches :: "8 word list \<Rightarrow> 8 word list \<Rightarrow> bool" where
  "matches [] s = (s = [])"
| "matches (p # ps) s =
     (if p = 0x2a then matches ps s \<or> (case s of [] \<Rightarrow> False | _ # t \<Rightarrow> matches (p # ps) t)
      else case s of [] \<Rightarrow> False | c # t \<Rightarrow> (p = 0x3f \<or> p = c) \<and> matches ps t)"

lemma sint_0_iff [simp]: "sint c = 0 \<longleftrightarrow> c = (0 :: 8 word)"
  using sint_eq [of c 0] by simp

lemma wild_no_star:
  "cstr m p ps \<Longrightarrow> cstr m q qs \<Longrightarrow> 0x2a \<notin> set ps \<Longrightarrow>
     \<exists>r. wild (\<lambda>c. c) m (Wild p q) = Some r \<and> (r = 0 \<longleftrightarrow> matches ps qs)"
proof (induction ps arbitrary: p q qs)
  case Nil
  then show ?case by (cases qs) (simp_all add: wild.simps skip_stars.simps)
next
  case (Cons c ps)
  show ?case
  proof (cases qs)
    case Nil
    then show ?thesis using Cons.prems by (simp add: wild.simps skip_stars.simps)
  next
    case q: (Cons d qs')
    obtain r where "wild (\<lambda>c. c) m (Wild (p + 1) (q + 1)) = Some r" "r = 0 \<longleftrightarrow> matches ps qs'"
      using Cons.IH [of "p + 1" "q + 1" qs'] Cons.prems q by auto
    then show ?thesis using Cons.prems q by (subst wild.simps) (auto simp: sint_eq)
  qed
qed


text \<open>The pattern \<open>*a*\<close> at 10 and the string \<open>ab\<close> at 20.\<close>

definition wild_demo :: bmem where
  "wild_demo = (\<lambda>a. if a \<in> {10, 12} then 0x2a else if a \<in> {11, 20} then 0x61 else if a = 21 then 0x62 else 0)"

lemma wild_demo_cstr: "cstr wild_demo 10 [0x2a, 0x61, 0x2a]" "cstr wild_demo 20 [0x61, 0x62]"
  by (simp_all add: wild_demo_def)

lemma wild_demo_result: "libc_wildstrcmp wild_demo 10 20 = Some (- 97)"
proof -
  have r: "wild (\<lambda>c. c) wild_demo (Wild 21 12) = Some (- 56)"
    by (simp add: wild.simps wild_demo_def)
  have "wild (\<lambda>c. c) wild_demo (Scan 0x61 12 22) = Some (- 97)"
    by (simp add: wild.simps wild_demo_def)
  then have "wild (\<lambda>c. c) wild_demo (Scan 0x61 12 21) = Some (- 97)"
    by (subst wild.simps) (simp add: wild_demo_def)
  then have "wild (\<lambda>c. c) wild_demo (Scan 0x61 12 20) = Some (- 97)"
    using r by (subst wild.simps) (simp add: wild_demo_def)
  then have "wild (\<lambda>c. c) wild_demo (Wild 10 20) = Some (- 97)"
    by (subst wild.simps) (simp add: wild_demo_def skip_stars.simps)
  then show ?thesis by (simp add: libc_wildstrcmp_def)
qed

text \<open>
  C31: For a pattern without stars \<open>wildstrcmp\<close> returns, with zero exactly when the string matches. With a
  star it can deny a match: the recursive call exchanges pattern and string, so that \<open>*a*\<close> does not
  match \<open>ab\<close>.
\<close>

theorem libc_wildstrcmp_correct:
  assumes "cstr m p ps" and "cstr m q qs" and "0x2a \<notin> set ps"
  shows "(\<exists>r. libc_wildstrcmp m p q = Some r \<and> (r = 0 \<longleftrightarrow> matches ps qs)) \<and>
    matches [0x2a, 0x61, 0x2a] [0x61, 0x62] \<and> libc_wildstrcmp wild_demo 10 20 = Some (- 97)"
  using wild_no_star [OF assms] wild_demo_result by (simp add: libc_wildstrcmp_def)

theorem libc_wildstrcmp_correct_witness:
  "\<exists>r. libc_wildstrcmp wild_demo 20 20 = Some r \<and> r = 0"
  using libc_wildstrcmp_correct [OF wild_demo_cstr(2) wild_demo_cstr(2)] by auto

subsection \<open>The edit distance depends on uninitialised memory\<close>

fun lev :: "8 word list \<Rightarrow> 8 word list \<Rightarrow> nat" where
  "lev [] ys = length ys"
| "lev (x # xs) [] = Suc (length xs)"
| "lev (x # xs) (y # ys) =
     (if x = y then lev xs ys else Suc (min (lev xs ys) (min (lev xs (y # ys)) (lev (x # xs) ys))))"

definition fuzzy_demo :: bmem where
  "fuzzy_demo = (\<lambda>a. if a \<in> {10, 20} then 0x62 else if a = 11 then 0x61 else 0)"

text \<open>
  The distance of \<open>ba\<close> and \<open>b\<close> is one, but \<open>fuzzy_memcmp\<close> answers one or two depending on the entry
  of its row that it never initialises.
\<close>

theorem libc_fuzzy_memcmp_uninitialised:
  assumes "junk < U32 - 1"
  shows "libc_fuzzy_memcmp junk fuzzy_demo 10 2 20 1 = min 2 (junk + 1) \<and> lev [0x62, 0x61] [0x62] = 1"
  using assms by (simp add: libc_fuzzy_memcmp_def fuzzy_mem_def fuzzy_demo_def numeral_2_eq_2 add32_id Let_def)

theorem libc_fuzzy_memcmp_uninitialised_witness: "libc_fuzzy_memcmp 5 fuzzy_demo 10 2 20 1 = 2"
  using libc_fuzzy_memcmp_uninitialised [of 5] by simp

end
