(* ===== verification/Atree.thy ===== *)
theory Atree
  imports Prelude "HOL-Library.Monad_Syntax"
begin

text \<open>
  The address tree of \<open>src/include/hybrid/list/atree.h\<close> and \<open>atree-abi.h\<close>: a binary tree of ranges of keys in
  which the place of a leaf follows from a bisection of the key space. \<open>addr_semi\<close> is the middle of the
  part of the key space below a link and \<open>addr_level\<close> the index of its lowest bit. The template is
  modelled for every key type of at most the width of \<open>unsigned int\<close>; the kernel uses it with 32-bit addresses and
  16-bit major numbers. The tree is a value: every node hangs on one link, and a pointer to a link is the
  way to it. \<open>insert_at\<close> and \<open>priv_reinsertall\<close> call each other and need not return for overlapping
  ranges, so they are partial; the assertions are obligations of the caller.
\<close>

subsection \<open>The macros of the header\<close>

unbundle bit_operations_syntax

text \<open>\<open>ATREE_LEVEL_T\<close>, an unsigned int.\<close>
type_synonym level = "32 word"

datatype ('k, 'v) atree =
    ATREE_NULL
  | ATREE_NODE (a_min: "('k, 'v) atree") (a_vmin: 'k) (a_vmax: 'k) (a_self: 'v) (a_max: "('k, 'v) atree")

text \<open>The shift by a level; \<open>ub\<close> is what a shift by 32 or more gives, which C leaves undefined.\<close>
definition shl1 :: "(level \<Rightarrow> 'k::len word) \<Rightarrow> level \<Rightarrow> 'k::len word" where
  "shl1 ub l = (if unat l < LENGTH('k) then push_bit (unat l) 1 else ub l)"

definition ATREE_SEMI0 :: "'k::len word" where "ATREE_SEMI0 = (- 1) div 2 + 1"
definition ATREE_LEVEL0 :: "'k::len itself \<Rightarrow> level" where
  "ATREE_LEVEL0 _ = word_of_nat (LENGTH('k) - 1)"
definition ATREE_MAPMIN :: "(level \<Rightarrow> 'k::len word) \<Rightarrow> 'k::len word \<Rightarrow> level \<Rightarrow> 'k::len word" where
  "ATREE_MAPMIN ub semi level = semi AND NOT (shl1 ub level)"
definition ATREE_MAPMAX :: "(level \<Rightarrow> 'k::len word) \<Rightarrow> 'k::len word \<Rightarrow> level \<Rightarrow> 'k::len word" where
  "ATREE_MAPMAX ub semi level = semi OR (shl1 ub level - 1)"
definition ATREE_NEXTMIN :: "(level \<Rightarrow> 'k::len word) \<Rightarrow> 'k::len word \<Rightarrow> level \<Rightarrow> 'k::len word" where
  "ATREE_NEXTMIN ub semi level = (semi AND NOT (shl1 ub level)) OR shl1 ub (level - 1)"
definition ATREE_NEXTMAX :: "(level \<Rightarrow> 'k::len word) \<Rightarrow> 'k::len word \<Rightarrow> level \<Rightarrow> 'k::len word" where
  "ATREE_NEXTMAX ub semi level = semi OR shl1 ub (level - 1)"
definition ATREE_NEXTLEVEL :: "level \<Rightarrow> level" where "ATREE_NEXTLEVEL level = level - 1"
definition ATREE_WALKMIN :: "(level \<Rightarrow> 'k::len word) \<Rightarrow> 'k::len word \<Rightarrow> level \<Rightarrow> 'k::len word \<times> level" where
  "ATREE_WALKMIN ub semi level = ((semi AND NOT (shl1 ub level)) OR shl1 ub (level - 1), level - 1)"
definition ATREE_WALKMAX :: "(level \<Rightarrow> 'k::len word) \<Rightarrow> 'k::len word \<Rightarrow> level \<Rightarrow> 'k::len word \<times> level" where
  "ATREE_WALKMAX ub semi level = (let level = level - 1 in (semi OR shl1 ub level, level))"

text \<open>A pointer to a link of the tree (\<open>T **\<close>) is the way to it from the root link.\<close>
datatype dir = TO_MIN | TO_MAX
type_synonym slot = "dir list"

fun slot_get :: "('k::len word, 'v) atree \<Rightarrow> slot \<Rightarrow> ('k::len word, 'v) atree" where
  "slot_get t [] = t"
| "slot_get (ATREE_NODE l _ _ _ r) (TO_MIN # p) = slot_get l p"
| "slot_get (ATREE_NODE l _ _ _ r) (TO_MAX # p) = slot_get r p"
| "slot_get ATREE_NULL (_ # _) = ATREE_NULL"

fun slot_set :: "('k::len word, 'v) atree \<Rightarrow> slot \<Rightarrow> ('k::len word, 'v) atree \<Rightarrow> ('k::len word, 'v) atree" where
  "slot_set t [] u = u"
| "slot_set (ATREE_NODE l lo hi v r) (TO_MIN # p) u = ATREE_NODE (slot_set l p u) lo hi v r"
| "slot_set (ATREE_NODE l lo hi v r) (TO_MAX # p) u = ATREE_NODE l lo hi v (slot_set r p u)"
| "slot_set ATREE_NULL (_ # _) u = ATREE_NULL"

text \<open>A node without its links: \<open>a_vmin\<close>, \<open>a_vmax\<close> and the object.\<close>
type_synonym ('k, 'v) leaf = "'k \<times> 'k \<times> 'v"

primrec priv_reinsert_by :: "(('k::len word, 'v) atree \<Rightarrow> ('k::len word, 'v) leaf \<Rightarrow> ('k::len word, 'v) atree option) \<Rightarrow> ('k::len word, 'v) atree \<Rightarrow> ('k::len word, 'v) atree \<Rightarrow> ('k::len word, 'v) atree option" where
  "priv_reinsert_by ins ATREE_NULL root = Some root"
| "priv_reinsert_by ins (ATREE_NODE l lo hi v r) root =
    do { root \<leftarrow> priv_reinsert_by ins l root; root \<leftarrow> priv_reinsert_by ins r root; ins root (lo, hi, v) }"

lemma priv_reinsert_by_ord:
  assumes "\<And>t n. option_ord (i t n) (j t n)"
  shows "option_ord (priv_reinsert_by i t root) (priv_reinsert_by j t root)"
proof (induction t arbitrary: root)
  case ATREE_NULL show ?case by (simp add: flat_ord_def)
next
  case (ATREE_NODE l lo hi v r)
  show ?case
  proof (cases "priv_reinsert_by i l root")
    case (Some u)
    hence l: "priv_reinsert_by j l root = Some u" using ATREE_NODE.IH(1) [of root] by (simp add: flat_ord_def)
    show ?thesis
      using ATREE_NODE.IH(2) [of u] assms [of _ "(lo, hi, v)"] Some l
      by (cases "priv_reinsert_by i r u"; cases "priv_reinsert_by j r u") (simp_all add: flat_ord_def)
  qed (simp add: flat_ord_def)
qed

lemma priv_reinsert_by_mono [partial_function_mono]:
  fixes ins :: "('b \<Rightarrow> 'c option) \<Rightarrow> ('k::len word, 'v) atree \<Rightarrow> ('k::len word, 'v) leaf \<Rightarrow> ('k::len word, 'v) atree option"
  assumes "\<And>t n. mono_option (\<lambda>f. ins f t n)"
  shows "mono_option (\<lambda>f. priv_reinsert_by (ins f) t root)"
  unfolding monotone_on_def
proof (intro ballI impI)
  fix f g :: "'b \<Rightarrow> 'c option" assume fg: "fun_ord option_ord f g"
  have "option_ord (ins f t n) (ins g t n)" for t n using assms [of t n] fg by (simp add: monotone_on_def)
  thus "option_ord (priv_reinsert_by (ins f) t root) (priv_reinsert_by (ins g) t root)"
    by (rule priv_reinsert_by_ord)
qed

partial_function (option) insert_at ::
  "(level \<Rightarrow> 'k::len word) \<Rightarrow> 'k::len word \<Rightarrow> level \<Rightarrow> ('k::len word, 'v) atree \<Rightarrow> ('k::len word, 'v) leaf \<Rightarrow> ('k::len word, 'v) atree option" where
  "insert_at ub addr_semi addr_level root newleaf = (case newleaf of (newleaf_min, newleaf_max, v) \<Rightarrow>
    (case root of
      ATREE_NULL \<Rightarrow> Some (ATREE_NODE ATREE_NULL newleaf_min newleaf_max v ATREE_NULL)
    | ATREE_NODE l lo hi w r \<Rightarrow>
        if newleaf_min \<le> addr_semi \<and> addr_semi \<le> newleaf_max then
          priv_reinsert_by (\<lambda>t n. insert_at ub addr_semi addr_level t n) root
            (ATREE_NODE ATREE_NULL newleaf_min newleaf_max v ATREE_NULL)
        else if newleaf_max < addr_semi then
          (case ATREE_WALKMIN ub addr_semi addr_level of (addr_semi, addr_level) \<Rightarrow>
            do { l \<leftarrow> insert_at ub addr_semi addr_level l newleaf; Some (ATREE_NODE l lo hi w r) })
        else
          (case ATREE_WALKMAX ub addr_semi addr_level of (addr_semi, addr_level) \<Rightarrow>
            do { r \<leftarrow> insert_at ub addr_semi addr_level r newleaf; Some (ATREE_NODE l lo hi w r) })))"

definition priv_reinsertall :: "(level \<Rightarrow> 'k::len word) \<Rightarrow> 'k::len word \<Rightarrow> level \<Rightarrow> ('k::len word, 'v) atree \<Rightarrow> ('k::len word, 'v) atree \<Rightarrow> ('k::len word, 'v) atree option" where
  "priv_reinsertall ub addr_semi addr_level root insert_root =
    priv_reinsert_by (insert_at ub addr_semi addr_level) insert_root root"

fun tryinsert_at :: "(level \<Rightarrow> 'k::len word) \<Rightarrow> 'k::len word \<Rightarrow> level \<Rightarrow> ('k::len word, 'v) atree \<Rightarrow> ('k::len word, 'v) leaf \<Rightarrow> (('k::len word, 'v) atree \<times> bool) option" where
  "tryinsert_at ub addr_semi addr_level ATREE_NULL (newleaf_min, newleaf_max, v) =
    Some (ATREE_NODE ATREE_NULL newleaf_min newleaf_max v ATREE_NULL, True)"
| "tryinsert_at ub addr_semi addr_level (ATREE_NODE l lo hi w r) (newleaf_min, newleaf_max, v) =
    (if newleaf_min \<le> hi \<and> lo \<le> newleaf_max then Some (ATREE_NODE l lo hi w r, False)
     else if newleaf_min \<le> addr_semi \<and> addr_semi \<le> newleaf_max then
       do { root \<leftarrow> priv_reinsertall ub addr_semi addr_level
              (ATREE_NODE ATREE_NULL newleaf_min newleaf_max v ATREE_NULL) (ATREE_NODE l lo hi w r);
            Some (root, True) }
     else if newleaf_max < addr_semi then
       (case ATREE_WALKMIN ub addr_semi addr_level of (addr_semi, addr_level) \<Rightarrow>
         do { (l, ok) \<leftarrow> tryinsert_at ub addr_semi addr_level l (newleaf_min, newleaf_max, v);
              Some (ATREE_NODE l lo hi w r, ok) })
     else
       (case ATREE_WALKMAX ub addr_semi addr_level of (addr_semi, addr_level) \<Rightarrow>
         do { (r, ok) \<leftarrow> tryinsert_at ub addr_semi addr_level r (newleaf_min, newleaf_max, v);
              Some (ATREE_NODE l lo hi w r, ok) }))"

text \<open>\<open>pinsert_at\<close> gives the link that holds the new leaf, with its semi and level.\<close>
fun pinsert_at :: "(level \<Rightarrow> 'k::len word) \<Rightarrow> 'k::len word \<Rightarrow> level \<Rightarrow> ('k::len word, 'v) atree \<Rightarrow> ('k::len word, 'v) leaf \<Rightarrow> (('k::len word, 'v) atree \<times> slot \<times> 'k::len word \<times> level) option" where
  "pinsert_at ub addr_semi addr_level ATREE_NULL (newleaf_min, newleaf_max, v) =
    Some (ATREE_NODE ATREE_NULL newleaf_min newleaf_max v ATREE_NULL, [], addr_semi, addr_level)"
| "pinsert_at ub addr_semi addr_level (ATREE_NODE l lo hi w r) (newleaf_min, newleaf_max, v) =
    (if newleaf_min \<le> addr_semi \<and> addr_semi \<le> newleaf_max then
       do { root \<leftarrow> priv_reinsertall ub addr_semi addr_level
              (ATREE_NODE ATREE_NULL newleaf_min newleaf_max v ATREE_NULL) (ATREE_NODE l lo hi w r);
            Some (root, [], addr_semi, addr_level) }
     else if newleaf_max < addr_semi then
       (case ATREE_WALKMIN ub addr_semi addr_level of (addr_semi, addr_level) \<Rightarrow>
         do { (l, p, s) \<leftarrow> pinsert_at ub addr_semi addr_level l (newleaf_min, newleaf_max, v);
              Some (ATREE_NODE l lo hi w r, TO_MIN # p, s) })
     else
       (case ATREE_WALKMAX ub addr_semi addr_level of (addr_semi, addr_level) \<Rightarrow>
         do { (r, p, s) \<leftarrow> pinsert_at ub addr_semi addr_level r (newleaf_min, newleaf_max, v);
              Some (ATREE_NODE l lo hi w r, TO_MAX # p, s) }))"

fun pop_at :: "(level \<Rightarrow> 'k::len word) \<Rightarrow> 'k::len word \<Rightarrow> level \<Rightarrow> ('k::len word, 'v) atree \<Rightarrow> (('k::len word, 'v) atree \<times> ('k::len word, 'v) leaf) option" where
  "pop_at ub addr_semi addr_level ATREE_NULL = None"
| "pop_at ub addr_semi addr_level (ATREE_NODE l lo hi v r) =
    do { root \<leftarrow> (if l \<noteq> ATREE_NULL then priv_reinsertall ub addr_semi addr_level ATREE_NULL l else Some ATREE_NULL);
         root \<leftarrow> (if r \<noteq> ATREE_NULL then priv_reinsertall ub addr_semi addr_level root r else Some root);
         Some (root, (lo, hi, v)) }"

fun locate_at :: "(level \<Rightarrow> 'k::len word) \<Rightarrow> 'k::len word \<Rightarrow> level \<Rightarrow> ('k::len word, 'v) atree \<Rightarrow> 'k::len word \<Rightarrow> ('k::len word, 'v) leaf option" where
  "locate_at ub addr_semi addr_level ATREE_NULL key = None"
| "locate_at ub addr_semi addr_level (ATREE_NODE l lo hi v r) key =
    (if lo \<le> key \<and> key \<le> hi then Some (lo, hi, v)
     else if key < addr_semi then
       (case ATREE_WALKMIN ub addr_semi addr_level of (addr_semi, addr_level) \<Rightarrow> locate_at ub addr_semi addr_level l key)
     else
       (case ATREE_WALKMAX ub addr_semi addr_level of (addr_semi, addr_level) \<Rightarrow> locate_at ub addr_semi addr_level r key))"

fun plocate_at :: "(level \<Rightarrow> 'k::len word) \<Rightarrow> 'k::len word \<Rightarrow> level \<Rightarrow> ('k::len word, 'v) atree \<Rightarrow> 'k::len word \<Rightarrow> (slot \<times> 'k::len word \<times> level) option" where
  "plocate_at ub addr_semi addr_level ATREE_NULL key = None"
| "plocate_at ub addr_semi addr_level (ATREE_NODE l lo hi v r) key =
    (if lo \<le> key \<and> key \<le> hi then Some ([], addr_semi, addr_level)
     else if key < addr_semi then
       (case ATREE_WALKMIN ub addr_semi addr_level of (addr_semi, addr_level) \<Rightarrow>
         map_option (\<lambda>(p, s). (TO_MIN # p, s)) (plocate_at ub addr_semi addr_level l key))
     else
       (case ATREE_WALKMAX ub addr_semi addr_level of (addr_semi, addr_level) \<Rightarrow>
         map_option (\<lambda>(p, s). (TO_MAX # p, s)) (plocate_at ub addr_semi addr_level r key)))"

text \<open>\<open>remove_at\<close>: None when it does not return; the removed leaf, if any, otherwise.\<close>
definition remove_at :: "(level \<Rightarrow> 'k::len word) \<Rightarrow> 'k::len word \<Rightarrow> level \<Rightarrow> ('k::len word, 'v) atree \<Rightarrow> 'k::len word \<Rightarrow> (('k::len word, 'v) atree \<times> ('k::len word, 'v) leaf option) option" where
  "remove_at ub addr_semi addr_level root key =
    (case plocate_at ub addr_semi addr_level root key of
       None \<Rightarrow> Some (root, None)
     | Some (remove_head, addr_semi, addr_level) \<Rightarrow>
         do { (sub, n) \<leftarrow> pop_at ub addr_semi addr_level (slot_get root remove_head);
              Some (slot_set root remove_head sub, Some n) })"


subsection \<open>The invariant\<close>

primrec leaves :: "('k::len word, 'v) atree \<Rightarrow> ('k::len word, 'v) leaf set" where
  "leaves ATREE_NULL = {}"
| "leaves (ATREE_NODE l lo hi v r) = insert (lo, hi, v) (leaves l \<union> leaves r)"

definition apart :: "('k::len word, 'v) leaf \<Rightarrow> ('k::len word, 'w) leaf \<Rightarrow> bool" where
  "apart n m \<longleftrightarrow> fst (snd n) < fst m \<or> fst (snd m) < fst n"

definition covers :: "('k::len word, 'v) leaf \<Rightarrow> 'k::len word \<Rightarrow> bool" where
  "covers n k \<longleftrightarrow> fst n \<le> k \<and> k \<le> fst (snd n)"

definition within :: "nat \<Rightarrow> nat \<Rightarrow> ('k::len word, 'v) leaf \<Rightarrow> bool" where
  "within b h n \<longleftrightarrow> fst n \<le> fst (snd n) \<and> b \<le> unat (fst n) \<and> unat (fst (snd n)) < b + 2 ^ h"

fun atree_ok :: "nat \<Rightarrow> nat \<Rightarrow> ('k::len word, 'v) atree \<Rightarrow> bool" where
  "atree_ok b h ATREE_NULL \<longleftrightarrow> True"
| "atree_ok b 0 (ATREE_NODE l lo hi v r) \<longleftrightarrow> within b 0 (lo, hi, v) \<and> l = ATREE_NULL \<and> r = ATREE_NULL"
| "atree_ok b (Suc k) (ATREE_NODE l lo hi v r) \<longleftrightarrow> within b (Suc k) (lo, hi, v) \<and>
    (\<forall>n \<in> leaves l \<union> leaves r. apart (lo, hi, v) n) \<and>
    (\<forall>n \<in> leaves l. unat (fst (snd n)) < b + 2 ^ k) \<and> (\<forall>n \<in> leaves r. b + 2 ^ k < unat (fst n)) \<and>
    atree_ok b k l \<and> atree_ok (b + 2 ^ k) k r"

definition in_range :: "nat \<Rightarrow> nat \<Rightarrow> 'k::len word \<Rightarrow> level \<Rightarrow> bool" where
  "in_range b h semi level \<longleftrightarrow> (case h of 0 \<Rightarrow> True
    | Suc k \<Rightarrow> 2 ^ h dvd b \<and> b + 2 ^ h \<le> 2 ^ LENGTH('k) \<and> unat semi = b + 2 ^ k \<and> unat level = k)"

lemma atree_ok_numeral:
  "atree_ok b (numeral h) (ATREE_NODE l lo hi v r) \<longleftrightarrow> within b (numeral h) (lo, hi, v) \<and>
    (\<forall>n \<in> leaves l \<union> leaves r. apart (lo, hi, v) n) \<and>
    (\<forall>n \<in> leaves l. unat (fst (snd n)) < b + 2 ^ pred_numeral h) \<and> (\<forall>n \<in> leaves r. b + 2 ^ pred_numeral h < unat (fst n)) \<and>
    atree_ok b (pred_numeral h) l \<and> atree_ok (b + 2 ^ pred_numeral h) (pred_numeral h) r"
  by (simp add: numeral_eq_Suc)

lemma apart_sym: "apart n m \<Longrightarrow> apart m n"
  by (auto simp: apart_def)

lemma apart_covers: "apart n m \<Longrightarrow> covers n k \<Longrightarrow> \<not> covers m k"
  by (auto simp: apart_def covers_def)

lemma within_not_apart: "within b h n \<Longrightarrow> \<not> apart n n"
  by (auto simp: within_def apart_def)

lemma in_range_top:
  "in_range 0 LENGTH(32) (ATREE_SEMI0 :: 32 word) (ATREE_LEVEL0 TYPE(32))"
  "in_range 0 LENGTH(16) (ATREE_SEMI0 :: 16 word) (ATREE_LEVEL0 TYPE(16))"
  by (simp_all add: in_range_def ATREE_SEMI0_def ATREE_LEVEL0_def)

lemma add_pow_set_bit:
  fixes b :: nat assumes "2 ^ Suc k dvd b"
  shows "b + 2 ^ k = set_bit k b"
proof -
  have "\<not> bit b k" using assms by (auto simp: bit_iff_odd elim!: dvdE)
  thus ?thesis by (simp add: set_bit_eq)
qed

lemma word_set_bits:
  fixes s :: "'k::len word"
  assumes "2 ^ Suc k dvd b" "b + 2 ^ Suc k \<le> 2 ^ LENGTH('k)" "unat s = b + 2 ^ k" "k = Suc j"
  shows "unat ((s AND NOT (push_bit k 1)) OR push_bit j 1) = b + 2 ^ j"
    and "unat (s OR push_bit j 1) = b + 2 ^ k + 2 ^ j"
proof -
  have s: "s = word_of_nat (set_bit k b)" using assms add_pow_set_bit [OF assms(1)]
    by (metis of_nat_unat ucast_id)
  have nb: "\<not> bit b k" using assms(1) by (auto simp: bit_iff_odd elim!: dvdE)
  have d: "2 ^ Suc j dvd b" using assms(1,4) by (metis le_SucI le_imp_power_dvd order_refl dvd_trans)
  have d2: "2 ^ Suc j dvd b + 2 ^ k" using d assms(4) by (simp add: dvd_add)
  have pow: "(2 :: nat) ^ Suc (Suc j) = 4 * 2 ^ j" "(2 :: nat) ^ Suc j = 2 * 2 ^ j" "0 < (2 :: nat) ^ j" by simp_all
  have lt: "b + 2 ^ j < 2 ^ LENGTH('k)" "b + 2 ^ k + 2 ^ j < 2 ^ LENGTH('k)" 
    using assms(2) pow unfolding assms(4) by linarith+
  have "(s AND NOT (push_bit k 1)) OR push_bit j 1 = (word_of_nat (set_bit j b) :: 'k::len word)"
    unfolding s using nb
    by (intro bit_word_eqI) (auto simp: bit_simps)
  thus "unat ((s AND NOT (push_bit k 1)) OR push_bit j 1) = b + 2 ^ j"
    using lt add_pow_set_bit [OF d] by (simp add: unsigned_of_nat take_bit_nat_eq_self)
  have "s OR push_bit j 1 = (word_of_nat (set_bit j (set_bit k b)) :: 'k::len word)"
    unfolding s by (intro bit_word_eqI) (auto simp: bit_simps)
  thus "unat (s OR push_bit j 1) = b + 2 ^ k + 2 ^ j"
    using lt add_pow_set_bit [OF d2] add_pow_set_bit [OF assms(1)] by (simp add: unsigned_of_nat take_bit_nat_eq_self)
qed

lemma walk_range:
  fixes semi :: "'k::len word"
  assumes "in_range b (Suc k) semi level"
  shows "ATREE_WALKMIN ub semi level = (s, l) \<Longrightarrow> in_range b k s l"
    and "ATREE_WALKMAX ub semi level = (s', l') \<Longrightarrow> in_range (b + 2 ^ k) k s' l'"
proof -
  have r: "2 ^ Suc k dvd b" "b + 2 ^ Suc k \<le> 2 ^ LENGTH('k)" "unat semi = b + 2 ^ k" "unat level = k"
    using assms by (simp_all add: in_range_def)
  have "(2 :: nat) ^ Suc k \<le> 2 ^ LENGTH('k)" using r(2) by linarith
  hence "Suc k \<le> LENGTH('k)" by (rule power_le_imp_le_exp [rotated]) simp
  hence k32: "k < LENGTH('k)" by simp
  show "in_range b k s l" if "ATREE_WALKMIN ub semi level = (s, l)"
  proof (cases k)
    case (Suc j)
    have l: "l = level - 1" "unat l = j" using that r(4) Suc by (auto simp: ATREE_WALKMIN_def unat_sub_if')
    have "s = (semi AND NOT (push_bit k 1)) OR push_bit j 1"
      using that r(4) l k32 Suc by (simp add: ATREE_WALKMIN_def shl1_def)
    hence "unat s = b + 2 ^ j" using word_set_bits(1) [OF r(1-3) Suc] by simp
    moreover have "2 ^ k dvd b" using r(1) by (metis dvd_trans le_SucI le_imp_power_dvd order_refl)
    ultimately show ?thesis using Suc l r(2) by (simp add: in_range_def)
  qed (simp add: in_range_def)
  show "in_range (b + 2 ^ k) k s' l'" if "ATREE_WALKMAX ub semi level = (s', l')"
  proof (cases k)
    case (Suc j)
    have l: "l' = level - 1" "unat l' = j" using that r(4) Suc by (auto simp: ATREE_WALKMAX_def Let_def unat_sub_if')
    have "s' = semi OR push_bit j 1"
      using that r(4) l k32 Suc by (simp add: ATREE_WALKMAX_def shl1_def Let_def)
    hence "unat s' = b + 2 ^ k + 2 ^ j" using word_set_bits(2) [OF r(1-3) Suc] by simp
    moreover have "2 ^ k dvd b" using r(1) by (metis dvd_trans le_SucI le_imp_power_dvd order_refl)
    ultimately show ?thesis using Suc l r(2) by (simp add: in_range_def)
  qed (simp add: in_range_def)
qed


subsection \<open>Insertion\<close>

primrec sep :: "('k::len word, 'v) atree \<Rightarrow> bool" where
  "sep ATREE_NULL \<longleftrightarrow> True"
| "sep (ATREE_NODE l lo hi v r) \<longleftrightarrow> sep l \<and> sep r \<and> (\<forall>n \<in> leaves l \<union> leaves r. apart (lo, hi, v) n) \<and>
    (\<forall>n \<in> leaves l. \<forall>m \<in> leaves r. apart n m)"

lemma atree_ok_within: "atree_ok b h t \<Longrightarrow> n \<in> leaves t \<Longrightarrow> within b h n"
proof (induction b h t rule: atree_ok.induct)
  case (3 b k l lo hi v r)
  have "within b k n \<Longrightarrow> within b (Suc k) n" "within (b + 2 ^ k) k n \<Longrightarrow> within b (Suc k) n"
    by (auto simp: within_def)
  thus ?case using 3 by auto
qed auto

lemma atree_ok_sep: "atree_ok b h t \<Longrightarrow> sep t"
proof (induction b h t rule: atree_ok.induct)
  case (3 b k l lo hi v r)
  have "apart n m" if "n \<in> leaves l" "m \<in> leaves r" for n m
    using 3(3) that by (fastforce simp: apart_def word_less_nat_alt)
  thus ?case using 3 by auto
qed auto

lemma reinsert_ok:
  assumes ins: "\<And>t n. P t \<Longrightarrow> Q n \<Longrightarrow> \<forall>m \<in> leaves t. apart n m \<Longrightarrow>
      \<exists>t'. ins t n = Some t' \<and> P t' \<and> leaves t' = insert n (leaves t)"
  shows "P root \<Longrightarrow> sep u \<Longrightarrow> \<forall>n \<in> leaves u. Q n \<Longrightarrow> \<forall>n \<in> leaves u. \<forall>m \<in> leaves root. apart n m \<Longrightarrow>
    \<exists>t'. priv_reinsert_by ins u root = Some t' \<and> P t' \<and> leaves t' = leaves u \<union> leaves root"
proof (induction u arbitrary: root)
  case (ATREE_NODE l lo hi v r)
  obtain t1 where t1: "priv_reinsert_by ins l root = Some t1" "P t1" "leaves t1 = leaves l \<union> leaves root"
    using ATREE_NODE.IH(1) [of root] ATREE_NODE.prems by auto
  have "\<forall>n \<in> leaves r. \<forall>m \<in> leaves t1. apart n m"
    using ATREE_NODE.prems(2,4) t1(3) apart_sym by (metis UnCI UnE leaves.simps(2) sep.simps(2) insertCI)
  then obtain t2 where t2: "priv_reinsert_by ins r t1 = Some t2" "P t2" "leaves t2 = leaves r \<union> leaves t1"
    using ATREE_NODE.IH(2) [of t1] ATREE_NODE.prems t1 by auto
  have "\<forall>m \<in> leaves t2. apart (lo, hi, v) m" using ATREE_NODE.prems(2,4) t1(3) t2(3) by auto
  then obtain t3 where "ins t2 (lo, hi, v) = Some t3" "P t3" "leaves t3 = insert (lo, hi, v) (leaves t2)"
    using ins [of t2 "(lo, hi, v)"] ATREE_NODE.prems(3) t2(2) by auto
  thus ?case using t1 t2 by auto
qed simp

lemma insert_at_simps:
  "insert_at ub s l ATREE_NULL (a, c, v) = Some (ATREE_NODE ATREE_NULL a c v ATREE_NULL)"
  "insert_at ub s l (ATREE_NODE m lo hi w r) (a, c, v) =
    (if a \<le> s \<and> s \<le> c then
       priv_reinsertall ub s l (ATREE_NODE ATREE_NULL a c v ATREE_NULL) (ATREE_NODE m lo hi w r)
     else if c < s then
       map_option (\<lambda>m. ATREE_NODE m lo hi w r) (insert_at ub (fst (ATREE_WALKMIN ub s l)) (snd (ATREE_WALKMIN ub s l)) m (a, c, v))
     else
       map_option (\<lambda>r. ATREE_NODE m lo hi w r) (insert_at ub (fst (ATREE_WALKMAX ub s l)) (snd (ATREE_WALKMAX ub s l)) r (a, c, v)))"
  by (simp_all add: insert_at.simps [of ub s l] priv_reinsertall_def map_conv_bind_option comp_def split: prod.split)

lemma covers_semi:
  "in_range b (Suc k) semi level \<Longrightarrow> covers n semi \<longleftrightarrow> unat (fst n) \<le> b + 2 ^ k \<and> b + 2 ^ k \<le> unat (fst (snd n))"
  by (simp add: in_range_def covers_def word_le_nat_alt)

definition ins_ok :: "(level \<Rightarrow> 'k::len word) \<Rightarrow> nat \<Rightarrow> nat \<Rightarrow> 'k::len word \<Rightarrow> level \<Rightarrow> ('k::len word, 'v) leaf \<Rightarrow> ('k::len word, 'v) atree \<Rightarrow> bool" where
  "ins_ok ub b h semi level n t \<longleftrightarrow> (\<exists>t'. insert_at ub semi level t n = Some t' \<and> atree_ok b h t' \<and> leaves t' = insert n (leaves t))"

lemma insert_aside_ok:
  fixes t :: "('k::len word, 'v) atree"
  assumes IH: "\<forall>b semi level n (t :: ('k::len word, 'v) atree). in_range b k semi level \<and> atree_ok b k t \<and> within b k n \<and>
      (\<forall>m \<in> leaves t. apart n m) \<longrightarrow> ins_ok ub b k semi level n t"
    and r: "in_range b (Suc k) semi level" and ok: "atree_ok b (Suc k) t" and n: "within b (Suc k) n"
    and ap: "\<forall>m \<in> leaves t. apart n m" and nc: "\<not> covers n semi"
  shows "ins_ok ub b (Suc k) semi level n t"
proof (cases t)
  case ATREE_NULL
  thus ?thesis using n by (cases n) (simp add: ins_ok_def insert_at_simps)
next
  case (ATREE_NODE l lo hi w rr)
  obtain a c v where nn: "n = (a, c, v)" by (cases n)
  have semi: "unat semi = b + 2 ^ k" using r by (simp add: in_range_def)
  have side: "(a \<le> semi \<and> semi \<le> c) = False" using nc nn by (simp add: covers_def)
  obtain s1 l1 where w1: "ATREE_WALKMIN ub semi level = (s1, l1)" by fastforce
  obtain s2 l2 where w2: "ATREE_WALKMAX ub semi level = (s2, l2)" by fastforce
  show ?thesis
  proof (cases "c < semi")
    case True
    have "within b k n" using n nn True semi by (simp add: within_def word_less_nat_alt)
    then obtain t' where t': "insert_at ub s1 l1 l n = Some t'" "atree_ok b k t'" "leaves t' = insert n (leaves l)"
      using IH [rule_format, of b s1 l1 l n] walk_range(1) [OF r w1] ok ap unfolding ATREE_NODE ins_ok_def by auto
    have "apart (lo, hi, w) n" using ap ATREE_NODE by (simp add: apart_sym)
    thus ?thesis using t' True side ok semi nn w1 ATREE_NODE
      by (auto simp: ins_ok_def insert_at_simps word_less_nat_alt)
  next
    case False
    hence lo: "semi < a" using side n nn by (auto simp: within_def)
    have "within (b + 2 ^ k) k n" using n nn lo semi by (simp add: within_def word_less_nat_alt)
    then obtain t' where t': "insert_at ub s2 l2 rr n = Some t'" "atree_ok (b + 2 ^ k) k t'" "leaves t' = insert n (leaves rr)"
      using IH [rule_format, of "b + 2 ^ k" s2 l2 rr n] walk_range(2) [OF r w2] ok ap unfolding ATREE_NODE ins_ok_def by auto
    have "apart (lo, hi, w) n" using ap ATREE_NODE by (simp add: apart_sym)
    thus ?thesis using t' False lo side ok semi nn w2 ATREE_NODE
      by (auto simp: ins_ok_def insert_at_simps word_less_nat_alt)
  qed
qed

lemma insert_ok:
  "in_range b h semi level \<Longrightarrow> atree_ok b h t \<Longrightarrow> within b h n \<Longrightarrow> \<forall>m \<in> leaves t. apart n m \<Longrightarrow>
    ins_ok ub b h semi level n (t :: ('k::len word, 'v) atree)"
proof (induction h arbitrary: b semi level n t)
  case 0
  have "t = ATREE_NULL"
  proof (cases t)
    case (ATREE_NODE l lo hi w r)
    thus ?thesis using 0 by (auto simp: within_def apart_def word_less_nat_alt word_le_nat_alt)
  qed simp
  thus ?case using 0 by (cases n) (simp add: ins_ok_def insert_at_simps)
next
  case (Suc k)
  have "\<forall>b semi level n (t :: ('k::len word, 'v) atree). in_range b k semi level \<and> atree_ok b k t \<and> within b k n \<and>
      (\<forall>m \<in> leaves t. apart n m) \<longrightarrow> ins_ok ub b k semi level n t" using Suc.IH by blast
  note aside = insert_aside_ok [OF this Suc.prems(1)]
  obtain a c v where n: "n = (a, c, v)" by (cases n)
  consider "\<not> covers n semi" | "t = ATREE_NULL" | l lo hi w r where "t = ATREE_NODE l lo hi w r" "covers n semi"
    by (cases t) auto
  thus ?case
  proof cases
    case 1 show ?thesis by (rule aside [OF Suc.prems(2-4) 1])
  next
    case 2 thus ?thesis using Suc.prems n by (simp add: ins_ok_def insert_at_simps)
  next
    case (3 l lo hi w r)
    let ?u = "ATREE_NODE ATREE_NULL a c v ATREE_NULL"
    have "\<exists>t'. priv_reinsert_by (insert_at ub semi level) t ?u = Some t' \<and> atree_ok b (Suc k) t' \<and> leaves t' = leaves t \<union> leaves ?u"
    proof (rule reinsert_ok [where Q = "\<lambda>m. within b (Suc k) m \<and> \<not> covers m semi"])
      fix t :: "('k::len word, 'v) atree" and m :: "('k::len word, 'v) leaf" assume "atree_ok b (Suc k) t" "within b (Suc k) m \<and> \<not> covers m semi" "\<forall>x\<in>leaves t. apart m x"
      thus "\<exists>t'. insert_at ub semi level t m = Some t' \<and> atree_ok b (Suc k) t' \<and> leaves t' = insert m (leaves t)"
        using aside [of t m] by (simp add: ins_ok_def)
    next
      show "atree_ok b (Suc k) ?u" using Suc.prems n by simp
      show "sep t" using Suc.prems(2) by (rule atree_ok_sep)
      show "\<forall>m\<in>leaves t. within b (Suc k) m \<and> \<not> covers m semi"
        using atree_ok_within [OF Suc.prems(2)] apart_covers [OF _ 3(2)] Suc.prems(4) by blast
      show "\<forall>m\<in>leaves t. \<forall>x\<in>leaves ?u. apart m x" using Suc.prems(4) n by (simp add: apart_sym)
    qed
    thus ?thesis using 3 n unfolding ins_ok_def by (auto simp: insert_at_simps covers_def priv_reinsertall_def)
  qed
qed


text \<open>The three insertion functions differ in what they report.\<close>

lemma tryinsert_eq_insert:
  "\<forall>m \<in> leaves t. apart n m \<Longrightarrow> tryinsert_at ub s l t n = map_option (\<lambda>t. (t, True)) (insert_at ub s l t n)"
proof (induction ub s l t n rule: tryinsert_at.induct)
  case (2 ub s l m lo hi w r a c v)
  have "\<not> (a \<le> hi \<and> lo \<le> c)" using 2(3) by (auto simp: apart_def)
  thus ?case using 2 by (auto simp: insert_at_simps map_conv_bind_option [symmetric] Option.bind_map_option option.map_comp comp_def
        map_conv_bind_option split: prod.split)
qed (simp add: insert_at_simps)

lemma tryinsert_false:
  "tryinsert_at ub s l t n = Some (t', False) \<Longrightarrow> t' = t \<and> (\<exists>m \<in> leaves t. \<not> apart n m)"
  by (induction ub s l t n arbitrary: t' rule: tryinsert_at.induct)
    (auto simp: apart_def not_less split: if_splits prod.splits option.splits Option.bind_splits)

lemma pinsert_eq_insert: "map_option fst (pinsert_at ub s l t n) = insert_at ub s l t n"
proof (induction ub s l t n rule: pinsert_at.induct)
  case (2 ub s l m lo hi w r a c v)
  obtain s1 l1 where w1: "ATREE_WALKMIN ub s l = (s1, l1)" by fastforce
  obtain s2 l2 where w2: "ATREE_WALKMAX ub s l = (s2, l2)" by fastforce
  consider "a \<le> s \<and> s \<le> c" | "\<not> (a \<le> s \<and> s \<le> c)" "c < s" | "\<not> (a \<le> s \<and> s \<le> c)" "\<not> c < s" by blast
  thus ?case
  proof cases
    case 1 thus ?thesis by (auto simp: insert_at_simps map_conv_bind_option comp_def)
  next
    case c2: 2
    have "insert_at ub s1 l1 m (a, c, v) = map_option fst (pinsert_at ub s1 l1 m (a, c, v))" using 2(1) [OF c2] w1 by simp
    thus ?thesis using c2 w1 by (cases "pinsert_at ub s1 l1 m (a, c, v)") (auto simp: insert_at_simps)
  next
    case 3
    have "insert_at ub s2 l2 r (a, c, v) = map_option fst (pinsert_at ub s2 l2 r (a, c, v))" using 2(2) [OF 3] w2 by simp
    thus ?thesis using 3 w2 by (cases "pinsert_at ub s2 l2 r (a, c, v)") (auto simp: insert_at_simps)
  qed
qed (simp add: insert_at_simps)

subsection \<open>Lookup\<close>

lemma locate_ok:
  "in_range b h semi level \<Longrightarrow> atree_ok b h t \<Longrightarrow> b \<le> unat key \<Longrightarrow> unat key < b + 2 ^ h \<Longrightarrow>
    locate_at ub semi level t key = Some n \<longleftrightarrow> n \<in> leaves t \<and> covers n key"
proof (induction b h t arbitrary: semi level rule: atree_ok.induct)
  case (2 b l lo hi v r)
  have "lo \<le> key \<and> key \<le> hi" using 2 by (simp add: within_def word_le_nat_alt)
  thus ?case using 2 by (auto simp: covers_def)
next
  case (3 b k l lo hi v r)
  have semi: "unat semi = b + 2 ^ k" using 3(3) by (simp add: in_range_def)
  obtain s1 l1 where w1: "ATREE_WALKMIN ub semi level = (s1, l1)" by fastforce
  obtain s2 l2 where w2: "ATREE_WALKMAX ub semi level = (s2, l2)" by fastforce
  consider "covers (lo, hi, v) key" | "\<not> covers (lo, hi, v) key" "key < semi" | "\<not> covers (lo, hi, v) key" "semi \<le> key" by force
  thus ?case
  proof cases
    case 1
    hence "\<not> covers m key" if "m \<in> leaves l \<union> leaves r" for m
      using 3(4) that apart_covers [OF _ 1] unfolding atree_ok.simps by blast
    moreover have "lo \<le> key \<and> key \<le> hi" using 1 by (simp add: covers_def)
    ultimately show ?thesis using 1 by (cases n) auto
  next
    case 2
    have "\<not> covers m key" if "m \<in> leaves r" for m
      using 3(4) that 2(2) semi by (fastforce simp: covers_def word_less_nat_alt word_le_nat_alt)
    moreover have "locate_at ub s1 l1 l key = Some n \<longleftrightarrow> n \<in> leaves l \<and> covers n key"
      using 3(1) [OF walk_range(1) [OF 3(3) w1]] 3(4-) 2(2) semi by (simp add: word_less_nat_alt)
    ultimately show ?thesis using 2 w1 by (cases n) (auto simp: covers_def)
  next
    case c3: 3
    have "\<not> covers m key" if "m \<in> leaves l" for m
      using 3(4) that c3(2) semi by (fastforce simp: covers_def word_less_nat_alt word_le_nat_alt)
    moreover have "locate_at ub s2 l2 r key = Some n \<longleftrightarrow> n \<in> leaves r \<and> covers n key"
      using 3(2) [OF walk_range(2) [OF 3(3) w2]] 3(4-) c3(2) semi by (simp add: word_le_nat_alt)
    ultimately show ?thesis using c3 w2 by (cases n) (auto simp: covers_def not_less)
  qed
qed simp

primrec height :: "('k::len word, 'v) atree \<Rightarrow> nat" where
  "height ATREE_NULL = 0"
| "height (ATREE_NODE l lo hi v r) = Suc (max (height l) (height r))"

lemma height_ok: "atree_ok b h t \<Longrightarrow> height t \<le> Suc h"
  by (induction b h t rule: atree_ok.induct) auto

subsection \<open>Removal\<close>

lemma remove_at_simps:
  "remove_at ub s l ATREE_NULL key = Some (ATREE_NULL, None)"
  "remove_at ub s l (ATREE_NODE m lo hi v r) key =
    (if lo \<le> key \<and> key \<le> hi then map_option (\<lambda>(t, n). (t, Some n)) (pop_at ub s l (ATREE_NODE m lo hi v r))
     else if key < s then
       map_option (\<lambda>(t, n). (ATREE_NODE t lo hi v r, n)) (remove_at ub (fst (ATREE_WALKMIN ub s l)) (snd (ATREE_WALKMIN ub s l)) m key)
     else
       map_option (\<lambda>(t, n). (ATREE_NODE m lo hi v t, n)) (remove_at ub (fst (ATREE_WALKMAX ub s l)) (snd (ATREE_WALKMAX ub s l)) r key))"
  by (auto simp: remove_at_def map_conv_bind_option comp_def case_prod_beta' split: option.split prod.split)

lemma reinsertall_ok:
  assumes r: "in_range b (Suc k) semi level" and u: "sep u" "\<forall>n \<in> leaves u. within b (Suc k) n" 
    and root: "atree_ok b (Suc k) root" "\<forall>n \<in> leaves u. \<forall>m \<in> leaves root. apart n m"
  shows "\<exists>t'. priv_reinsertall ub semi level root u = Some t' \<and> atree_ok b (Suc k) t' \<and> leaves t' = leaves u \<union> leaves root"
  unfolding priv_reinsertall_def
  by (rule reinsert_ok [where Q = "within b (Suc k)"]) (use insert_ok [OF r] assms in \<open>auto simp: ins_ok_def\<close>)


lemma pop_ok:
  fixes l :: "('k::len word, 'v) atree"
  assumes r: "in_range b h semi level" and ok: "atree_ok b h (ATREE_NODE l lo hi v rr)"
  shows "\<exists>t'. pop_at ub semi level (ATREE_NODE l lo hi v rr) = Some (t', (lo, hi, v)) \<and> atree_ok b h t' \<and>
    leaves t' = leaves l \<union> leaves rr"
proof (cases h)
  case 0 thus ?thesis using ok by simp
next
  case (Suc k)
  note r = r [unfolded Suc] and ok = ok [unfolded Suc]
  have sep: "sep l" "sep rr" "\<forall>n \<in> leaves l. \<forall>m \<in> leaves rr. apart n m"
    and wi: "\<forall>n \<in> leaves l \<union> leaves rr. within b (Suc k) n"
    using atree_ok_sep [OF ok] atree_ok_within [OF ok] by auto
  obtain t1 where t1: "priv_reinsertall ub semi level ATREE_NULL l = Some t1" "atree_ok b (Suc k) t1" "leaves t1 = leaves l"
    using reinsertall_ok [OF r sep(1), of ATREE_NULL ub] wi by auto
  have "\<forall>n \<in> leaves rr. \<forall>m \<in> leaves t1. apart n m" using sep(3) t1(3) apart_sym by metis
  then obtain t2 where t2: "priv_reinsertall ub semi level t1 rr = Some t2" "atree_ok b (Suc k) t2" "leaves t2 = leaves rr \<union> leaves t1"
    using reinsertall_ok [OF r sep(2), of t1 ub] wi t1 by auto
  have "priv_reinsertall ub semi level u ATREE_NULL = Some u" for u :: "('k word, 'v) atree" by (simp add: priv_reinsertall_def)
  hence "pop_at ub semi level (ATREE_NODE l lo hi v rr) = Some (t2, (lo, hi, v))"
    using t1(1) t2(1) by (cases "l = ATREE_NULL"; cases "rr = ATREE_NULL") simp_all
  thus ?thesis using t1 t2 Suc by auto
qed

lemma remove_ok:
  "in_range b h semi level \<Longrightarrow> atree_ok b h t \<Longrightarrow> b \<le> unat key \<Longrightarrow> unat key < b + 2 ^ h \<Longrightarrow>
    \<exists>t'. remove_at ub semi level t key = Some (t', locate_at ub semi level t key) \<and> atree_ok b h t' \<and>
      leaves t' = leaves t - set_option (locate_at ub semi level t key)"
proof (induction b h t arbitrary: semi level rule: atree_ok.induct)
  case (2 b l lo hi v r)
  have "lo \<le> key \<and> key \<le> hi" using 2 by (simp add: within_def word_le_nat_alt)
  thus ?case using 2 by (simp add: remove_at_simps)
next
  case (3 b k l lo hi v r)
  have semi: "unat semi = b + 2 ^ k" using 3(3) by (simp add: in_range_def)
  obtain s1 l1 where w1: "ATREE_WALKMIN ub semi level = (s1, l1)" by fastforce
  obtain s2 l2 where w2: "ATREE_WALKMAX ub semi level = (s2, l2)" by fastforce
  note r1 = walk_range(1) [OF 3(3) w1] and r2 = walk_range(2) [OF 3(3) w2]
  have sep: "(lo, hi, v) \<notin> leaves l" "(lo, hi, v) \<notin> leaves r" "leaves l \<inter> leaves r = {}"
    using atree_ok_sep [OF 3(4)] atree_ok_within [OF 3(4)] within_not_apart unfolding sep.simps leaves.simps by blast+
  consider "lo \<le> key \<and> key \<le> hi" | "\<not> (lo \<le> key \<and> key \<le> hi)" "key < semi" | "\<not> (lo \<le> key \<and> key \<le> hi)" "\<not> key < semi" by force
  thus ?case
  proof cases
    case 1
    thus ?thesis using pop_ok [OF 3(3,4)] sep by (auto simp: remove_at_simps simp del: atree_ok.simps)
  next
    case 2
    have k1: "unat key < b + 2 ^ k" using 2(2) semi by (simp add: word_less_nat_alt)
    obtain t' where t': "remove_at ub s1 l1 l key = Some (t', locate_at ub s1 l1 l key)" "atree_ok b k t'"
      "leaves t' = leaves l - set_option (locate_at ub s1 l1 l key)" using 3(1) [OF r1] 3(4,5) k1 by auto
    have "set_option (locate_at ub s1 l1 l key) \<subseteq> leaves l" using locate_ok [OF r1 _ _ k1] 3(4,5) unfolding atree_ok.simps
      by (metis elem_set subsetI)
    thus ?thesis using t' 2 w1 sep 3(4) by (auto simp: remove_at_simps)
  next
    case c3: 3
    have k1: "b + 2 ^ k \<le> unat key" "unat key < b + 2 ^ k + 2 ^ k" using c3(2) semi 3(6) by (simp_all add: word_less_nat_alt)
    obtain t' where t': "remove_at ub s2 l2 r key = Some (t', locate_at ub s2 l2 r key)" "atree_ok (b + 2 ^ k) k t'"
      "leaves t' = leaves r - set_option (locate_at ub s2 l2 r key)" using 3(2) [OF r2] 3(4) k1 by auto
    have "set_option (locate_at ub s2 l2 r key) \<subseteq> leaves r" using locate_ok [OF r2 _ k1] 3(4) unfolding atree_ok.simps
      by (metis elem_set subsetI)
    thus ?thesis using t' c3 w2 sep 3(4) by (auto simp: remove_at_simps)
  qed
qed (simp add: remove_at_simps)


subsection \<open>The operations from the root, and their contract\<close>

definition tryinsert :: "(level \<Rightarrow> 'k::len word) \<Rightarrow> ('k::len word, 'v) atree \<Rightarrow> ('k::len word, 'v) leaf \<Rightarrow> (('k::len word, 'v) atree \<times> bool) option" where
  "tryinsert ub root newleaf = tryinsert_at ub ATREE_SEMI0 (ATREE_LEVEL0 TYPE('k)) root newleaf"
definition insert0 :: "(level \<Rightarrow> 'k::len word) \<Rightarrow> ('k::len word, 'v) atree \<Rightarrow> ('k::len word, 'v) leaf \<Rightarrow> ('k::len word, 'v) atree option" where
  "insert0 ub root newleaf = insert_at ub ATREE_SEMI0 (ATREE_LEVEL0 TYPE('k)) root newleaf"
definition pop :: "(level \<Rightarrow> 'k::len word) \<Rightarrow> ('k::len word, 'v) atree \<Rightarrow> (('k::len word, 'v) atree \<times> ('k::len word, 'v) leaf) option" where
  "pop ub root = pop_at ub ATREE_SEMI0 (ATREE_LEVEL0 TYPE('k)) root"
definition remove0 :: "(level \<Rightarrow> 'k::len word) \<Rightarrow> ('k::len word, 'v) atree \<Rightarrow> 'k::len word \<Rightarrow> (('k::len word, 'v) atree \<times> ('k::len word, 'v) leaf option) option" where
  "remove0 ub root key = remove_at ub ATREE_SEMI0 (ATREE_LEVEL0 TYPE('k)) root key"
definition locate0 :: "(level \<Rightarrow> 'k::len word) \<Rightarrow> ('k::len word, 'v) atree \<Rightarrow> 'k::len word \<Rightarrow> ('k::len word, 'v) leaf option" where
  "locate0 ub root key = locate_at ub ATREE_SEMI0 (ATREE_LEVEL0 TYPE('k)) root key"

text \<open>What a client relies on: a finite map from disjoint ranges of keys.\<close>
locale interval_map =
  fixes inv :: "'t \<Rightarrow> bool" and items :: "'t \<Rightarrow> ('k::len word, 'v) leaf set"
    and lookup :: "'t \<Rightarrow> 'k::len word \<Rightarrow> ('k::len word, 'v) leaf option"
    and ins :: "'t \<Rightarrow> ('k::len word, 'v) leaf \<Rightarrow> 't option"
    and del :: "'t \<Rightarrow> 'k::len word \<Rightarrow> ('t \<times> ('k::len word, 'v) leaf option) option"
  assumes lookup_law: "inv t \<Longrightarrow> lookup t k = Some n \<longleftrightarrow> n \<in> items t \<and> covers n k"
    and ins_law: "inv t \<Longrightarrow> fst n \<le> fst (snd n) \<Longrightarrow> \<forall>m \<in> items t. apart n m \<Longrightarrow>
      \<exists>t'. ins t n = Some t' \<and> inv t' \<and> items t' = insert n (items t)"
    and del_law: "inv t \<Longrightarrow> \<exists>t'. del t k = Some (t', lookup t k) \<and> inv t' \<and> items t' = items t - set_option (lookup t k)"
begin

lemma lookup_eqI: "inv t \<Longrightarrow> (\<And>n. n \<in> items t \<and> covers n k \<longleftrightarrow> x = Some n) \<Longrightarrow> lookup t k = x"
  using lookup_law by (metis not_None_eq)

lemma lookup_after_ins:
  assumes "inv t" "fst n \<le> fst (snd n)" "\<forall>m \<in> items t. apart n m"
  shows "\<exists>t'. ins t n = Some t' \<and> inv t' \<and> (\<forall>k. lookup t' k = (if covers n k then Some n else lookup t k))"
proof -
  obtain t' where t': "ins t n = Some t'" "inv t'" "items t' = insert n (items t)" using ins_law [OF assms] by blast
  have "lookup t' k = (if covers n k then Some n else lookup t k)" for k
  proof (cases "covers n k")
    case True
    hence "\<not> covers m k" if "m \<in> items t" for m using apart_covers [OF _ True] assms(3) that by blast
    hence "m \<in> items t' \<and> covers m k \<longleftrightarrow> Some n = Some m" for m using True t'(3) by (metis insert_iff option.inject)
    from lookup_eqI [OF t'(2) this] show ?thesis using True by simp
  next
    case False
    hence "m \<in> items t' \<and> covers m k \<longleftrightarrow> m \<in> items t \<and> covers m k" for m using t'(3) by auto
    hence "m \<in> items t' \<and> covers m k \<longleftrightarrow> lookup t k = Some m" for m by (simp add: lookup_law [OF assms(1)])
    from lookup_eqI [OF t'(2) this] show ?thesis using False by simp
  qed
  thus ?thesis using t' by blast
qed

lemma lookup_after_del:
  assumes "inv t"
  shows "\<exists>t'. del t k = Some (t', lookup t k) \<and> inv t' \<and>
    (\<forall>j. lookup t' j = (if lookup t j = lookup t k then None else lookup t j))"
proof -
  obtain t' where t': "del t k = Some (t', lookup t k)" "inv t'" "items t' = items t - set_option (lookup t k)"
    using del_law [OF assms] by blast
  have "lookup t' j = (if lookup t j = lookup t k then None else lookup t j)" for j
  proof (rule lookup_eqI [OF t'(2)])
    fix n
    have "n \<in> items t' \<and> covers n j \<longleftrightarrow> lookup t j = Some n \<and> lookup t k \<noteq> Some n"
      using t'(3) lookup_law [OF assms] by (simp add: elem_set) blast
    thus "n \<in> items t' \<and> covers n j \<longleftrightarrow> (if lookup t j = lookup t k then None else lookup t j) = Some n" by auto
  qed
  thus ?thesis using t' by blast
qed

lemma del_after_ins:
  assumes "inv t" "fst n \<le> fst (snd n)" "\<forall>m \<in> items t. apart n m" "covers n k"
  shows "\<exists>t' t''. ins t n = Some t' \<and> del t' k = Some (t'', Some n) \<and> inv t'' \<and> items t'' = items t"
proof -
  obtain t' where t': "ins t n = Some t'" "inv t'" "items t' = insert n (items t)" using ins_law [OF assms(1-3)] by blast
  have l: "lookup t' k = Some n" using lookup_law [OF t'(2)] t'(3) assms(4) by simp
  have "n \<notin> items t" using assms(2,3) by (auto simp: apart_def)
  thus ?thesis using del_law [OF t'(2), of k] t' l by auto
qed

end

lemma interval_map_atree:
  assumes top: "in_range 0 LENGTH('k) (ATREE_SEMI0 :: 'k::len word) (ATREE_LEVEL0 TYPE('k))"
  shows "interval_map (atree_ok 0 LENGTH('k)) leaves (locate0 ub) (insert0 ub) (remove0 ub :: ('k word, 'v) atree \<Rightarrow> _)"
proof
  fix t :: "('k word, 'v) atree" and k :: "'k word" and n :: "('k word, 'v) leaf"
  have key: "unat k < 0 + 2 ^ LENGTH('k)" using unsigned_less [of k] by simp
  have fits: "unat (fst (snd n)) < 2 ^ LENGTH('k)" by (rule unsigned_less)
  show "locate0 ub t k = Some n \<longleftrightarrow> n \<in> leaves t \<and> covers n k" if "atree_ok 0 LENGTH('k) t"
    using locate_ok [OF top that _ key] by (simp add: locate0_def)
  show "\<exists>t'. insert0 ub t n = Some t' \<and> atree_ok 0 LENGTH('k) t' \<and> leaves t' = insert n (leaves t)"
    if "atree_ok 0 LENGTH('k) t" "fst n \<le> fst (snd n)" "\<forall>m \<in> leaves t. apart n m"
    using insert_ok [OF top that(1) _ that(3)] that(2) fits by (simp add: within_def ins_ok_def insert0_def)
  show "\<exists>t'. remove0 ub t k = Some (t', locate0 ub t k) \<and> atree_ok 0 LENGTH('k) t' \<and> leaves t' = leaves t - set_option (locate0 ub t k)"
    if "atree_ok 0 LENGTH('k) t"
    using remove_ok [OF top that _ key] by (simp add: remove0_def locate0_def)
qed

interpretation addrtree32: interval_map
  "atree_ok 0 LENGTH(32) :: (32 word, 'v) atree \<Rightarrow> bool" leaves "locate0 ub" "insert0 ub" "remove0 ub" for ub
  by (rule interval_map_atree [OF in_range_top(1)])

interpretation addrtree16: interval_map
  "atree_ok 0 LENGTH(16) :: (16 word, 'v) atree \<Rightarrow> bool" leaves "locate0 ub" "insert0 ub" "remove0 ub" for ub
  by (rule interval_map_atree [OF in_range_top(2)])


subsection \<open>Properties\<close>

text \<open>
  C32: On a well-formed tree of 32-bit keys \<open>insert\<close> of a range that meets no mapped range returns a well-formed
  tree in which exactly the keys of the range have changed, and \<open>remove\<close> returns the leaf that covers
  the key, if any, and unmaps exactly its keys; whatever an out-of-range shift evaluates to.
\<close>
theorem addrtree_refines_map:
  fixes t :: "(32 word, 'v) atree"
  assumes "atree_ok 0 32 t"
  shows "(lo \<le> hi \<and> (\<forall>m \<in> leaves t. apart (lo, hi, v) m) \<longrightarrow>
      (\<exists>t'. insert0 ub t (lo, hi, v) = Some t' \<and> atree_ok 0 32 t' \<and>
        (\<forall>k. locate0 ub t' k = (if lo \<le> k \<and> k \<le> hi then Some (lo, hi, v) else locate0 ub t k)))) \<and>
    (\<exists>t'. remove0 ub t key = Some (t', locate0 ub t key) \<and> atree_ok 0 32 t' \<and>
      (\<forall>k. locate0 ub t' k = (if locate0 ub t k = locate0 ub t key then None else locate0 ub t k)))"
proof (rule conjI)
  have ok: "atree_ok 0 LENGTH(32) t" using assms by simp
  show "lo \<le> hi \<and> (\<forall>m \<in> leaves t. apart (lo, hi, v) m) \<longrightarrow>
      (\<exists>t'. insert0 ub t (lo, hi, v) = Some t' \<and> atree_ok 0 32 t' \<and>
        (\<forall>k. locate0 ub t' k = (if lo \<le> k \<and> k \<le> hi then Some (lo, hi, v) else locate0 ub t k)))"
    using addrtree32.lookup_after_ins [OF ok, of "(lo, hi, v)" ub] by (simp add: covers_def)
  show "\<exists>t'. remove0 ub t key = Some (t', locate0 ub t key) \<and> atree_ok 0 32 t' \<and>
      (\<forall>k. locate0 ub t' k = (if locate0 ub t k = locate0 ub t key then None else locate0 ub t k))"
    using addrtree32.lookup_after_del [OF ok, of ub key] by simp
qed

theorem addrtree_refines_map_witness:
  "\<exists>t'. insert0 (\<lambda>_. 0) (ATREE_NODE ATREE_NULL 5 9 CHR ''a'' ATREE_NULL :: (32 word, char) atree) (20, 30, CHR ''b'') = Some t' \<and>
    locate0 (\<lambda>_. 0) t' 25 = Some (20, 30, CHR ''b'') \<and> locate0 (\<lambda>_. 0) t' 7 = Some (5, 9, CHR ''a'') \<and> locate0 (\<lambda>_. 0) t' 10 = None"
proof -
  let ?t = "ATREE_NODE ATREE_NULL 5 9 CHR ''a'' ATREE_NULL :: (32 word, char) atree"
  have ok: "atree_ok 0 32 ?t" by (simp add: atree_ok_numeral within_def)
  have t: "locate0 (\<lambda>_. 0) ?t 7 = Some (5, 9, CHR ''a'')" "locate0 (\<lambda>_. 0) ?t 10 = None"
    by (simp_all add: locate0_def ATREE_SEMI0_def split: prod.split)
  have "\<exists>t'. insert0 (\<lambda>_. 0) ?t (20, 30, CHR ''b'') = Some t' \<and> atree_ok 0 32 t' \<and>
      (\<forall>k. locate0 (\<lambda>_. 0) t' k = (if 20 \<le> k \<and> k \<le> 30 then Some (20, 30, CHR ''b'') else locate0 (\<lambda>_. 0) ?t k))"
    by (rule addrtree_refines_map [OF ok, THEN conjunct1, rule_format]) (simp add: apart_def)
  thus ?thesis using t by auto
qed

text \<open>
  C33: Inserting a range and removing any of its keys gives back the leaf and the same set of leaves.
\<close>
theorem addrtree_insert_remove:
  fixes t :: "(32 word, 'v) atree"
  assumes "atree_ok 0 32 t" "lo \<le> key" "key \<le> hi" "\<forall>m \<in> leaves t. apart (lo, hi, v) m"
  shows "\<exists>t' t''. insert0 ub t (lo, hi, v) = Some t' \<and> remove0 ub t' key = Some (t'', Some (lo, hi, v)) \<and>
    atree_ok 0 32 t'' \<and> leaves t'' = leaves t"
  using addrtree32.del_after_ins [of t "(lo, hi, v)" key ub] assms by (simp add: covers_def)

theorem addrtree_insert_remove_witness:
  "\<exists>t' t''. insert0 (\<lambda>_. 0) (ATREE_NODE ATREE_NULL 5 9 CHR ''a'' ATREE_NULL :: (32 word, char) atree) (20, 30, CHR ''b'') = Some t' \<and>
    remove0 (\<lambda>_. 0) t' 25 = Some (t'', Some (20, 30, CHR ''b'')) \<and> leaves t'' = {(5, 9, CHR ''a'')}"
proof -
  let ?t = "ATREE_NODE ATREE_NULL 5 9 CHR ''a'' ATREE_NULL :: (32 word, char) atree"
  have ok: "atree_ok 0 32 ?t" by (simp add: atree_ok_numeral within_def)
  show ?thesis using addrtree_insert_remove [OF ok, where lo = 20 and key = 25 and hi = 30 and ub = "\<lambda>_. 0" and v = "CHR ''b''"] by (auto simp: apart_def)
qed

text \<open>
  \<open>tryinsert\<close> accepts every range that meets no mapped range, and rejects only ranges that do, without a
  change. But it looks at the leaves on its way only: there is a well-formed tree and a range that meets a
  mapped range where it reports success and leaves a tree that is not well-formed.
\<close>
theorem tryinsert_checks_path_only:
  fixes t :: "(32 word, 'v) atree"
  assumes "atree_ok 0 32 t" "lo \<le> hi"
  shows "((\<forall>m \<in> leaves t. apart (lo, hi, v) m) \<longrightarrow>
      (\<exists>t'. tryinsert ub t (lo, hi, v) = Some (t', True) \<and> atree_ok 0 32 t' \<and> leaves t' = insert (lo, hi, v) (leaves t))) \<and>
    (tryinsert ub t (lo, hi, v) = Some (t2, False) \<longrightarrow> t2 = t \<and> (\<exists>m \<in> leaves t. \<not> apart (lo, hi, v) m)) \<and>
    (let m = ATREE_NODE ATREE_NULL 0 0 CHR ''a'' (ATREE_NODE ATREE_NULL 0x90000000 0x90000000 CHR ''b'' ATREE_NULL) in
      atree_ok 0 32 m \<and> (\<exists>m'. tryinsert (\<lambda>_. 0) m (0x80000000, 0xA0000000 :: 32 word, CHR ''c'') = Some (m', True) \<and> \<not> atree_ok 0 32 m'))"
proof (intro conjI impI)
  have ok: "atree_ok 0 LENGTH(32) t" using assms(1) by simp
  show "\<exists>t'. tryinsert ub t (lo, hi, v) = Some (t', True) \<and> atree_ok 0 32 t' \<and> leaves t' = insert (lo, hi, v) (leaves t)"
    if "\<forall>m \<in> leaves t. apart (lo, hi, v) m"
  proof -
    show ?thesis using addrtree32.ins_law [OF ok _ that, of ub] assms(2) tryinsert_eq_insert [OF that]
      by (auto simp: tryinsert_def insert0_def)
  qed
  assume "tryinsert ub t (lo, hi, v) = Some (t2, False)"
  from tryinsert_false [OF this [unfolded tryinsert_def]]
  show "t2 = t" "\<exists>m \<in> leaves t. \<not> apart (lo, hi, v) m" by auto
next
  show "let m = ATREE_NODE ATREE_NULL 0 0 CHR ''a'' (ATREE_NODE ATREE_NULL 0x90000000 0x90000000 CHR ''b'' ATREE_NULL) in
      atree_ok 0 32 m \<and> (\<exists>m'. tryinsert (\<lambda>_. 0) m (0x80000000, 0xA0000000 :: 32 word, CHR ''c'') = Some (m', True) \<and> \<not> atree_ok 0 32 m')"
    by (simp add: tryinsert_def ATREE_SEMI0_def ATREE_LEVEL0_def priv_reinsertall_def insert_at_simps
        ATREE_WALKMAX_def ATREE_WALKMIN_def shl1_def Let_def atree_ok_numeral within_def apart_def)
qed


theorem tryinsert_checks_path_only_witness:
  "\<exists>t'. tryinsert (\<lambda>_. 0) (ATREE_NODE ATREE_NULL 5 9 CHR ''a'' ATREE_NULL :: (32 word, char) atree) (20, 30, CHR ''b'') = Some (t', True) \<and>
    leaves t' = {(20, 30, CHR ''b''), (5, 9, CHR ''a'')}"
proof -
  let ?t = "ATREE_NODE ATREE_NULL 5 9 CHR ''a'' ATREE_NULL :: (32 word, char) atree"
  have ok: "atree_ok 0 32 ?t" by (simp add: atree_ok_numeral within_def)
  show ?thesis
    using tryinsert_checks_path_only [OF ok, where lo = 20 and hi = 30 and ub = "\<lambda>_. 0" and v = "CHR ''b''"]
    by (auto simp: apart_def)
qed

end
