(* ===== verification/Btree.thy ===== *)
theory Btree
  imports Atree
begin

text \<open>
  The binary search tree of \<open>src/include/hybrid/list/btree.h\<close>, which the device namespaces use for minor
  numbers. A pointer to a link is the way to it, as for the address tree.
\<close>

subsection \<open>The macros\<close>

datatype ('k, 'v) btree =
    BT_NULL
  | BT_NODE (bt_min: "('k, 'v) btree") (bt_val: 'k) (bt_self: 'v) (bt_max: "('k, 'v) btree")

fun BTREE_GET :: "('k::linorder, 'v) btree \<Rightarrow> 'k \<Rightarrow> 'v option" where
  "BTREE_GET BT_NULL key = None"
| "BTREE_GET (BT_NODE l k v r) key = (if key < k then BTREE_GET l key else if k < key then BTREE_GET r key else Some v)"

fun BTREE_PGET :: "('k::linorder, 'v) btree \<Rightarrow> 'k \<Rightarrow> slot option" where
  "BTREE_PGET BT_NULL key = None"
| "BTREE_PGET (BT_NODE l k v r) key =
    (if key < k then map_option ((#) TO_MIN) (BTREE_PGET l key)
     else if k < key then map_option ((#) TO_MAX) (BTREE_PGET r key)
     else Some [])"

fun BTREE_HAS :: "('k::linorder, 'v) btree \<Rightarrow> 'k \<Rightarrow> bool" where
  "BTREE_HAS BT_NULL key = False"
| "BTREE_HAS (BT_NODE l k v r) key = (if key < k then BTREE_HAS l key else if k < key then BTREE_HAS r key else True)"

fun BTREE_INS :: "('k::linorder, 'v) btree \<Rightarrow> 'k \<Rightarrow> 'v \<Rightarrow> ('k, 'v) btree" where
  "BTREE_INS BT_NULL key x = BT_NODE BT_NULL key x BT_NULL"
| "BTREE_INS (BT_NODE l k v r) key x =
    (if key < k then BT_NODE (BTREE_INS l key x) k v r else BT_NODE l k v (BTREE_INS r key x))"

text \<open>
  The tree that replaces \<open>*pnode\<close>; None is the failed assertion. With two children the upper child is
  inserted below the lower one after its own links have been cleared.
\<close>
fun BTREE_DEL :: "('k::linorder, 'v) btree \<Rightarrow> ('k, 'v) btree option" where
  "BTREE_DEL BT_NULL = None"
| "BTREE_DEL (BT_NODE l k v r) =
    (case l of
       BT_NODE _ _ _ _ \<Rightarrow> (case r of BT_NODE _ k' v' _ \<Rightarrow> Some (BTREE_INS l k' v') | BT_NULL \<Rightarrow> Some l)
     | BT_NULL \<Rightarrow> Some r)"

fun bt_get :: "('k, 'v) btree \<Rightarrow> slot \<Rightarrow> ('k, 'v) btree" where
  "bt_get t [] = t"
| "bt_get (BT_NODE l _ _ r) (TO_MIN # p) = bt_get l p"
| "bt_get (BT_NODE l _ _ r) (TO_MAX # p) = bt_get r p"
| "bt_get BT_NULL (_ # _) = BT_NULL"

fun bt_set :: "('k, 'v) btree \<Rightarrow> slot \<Rightarrow> ('k, 'v) btree \<Rightarrow> ('k, 'v) btree" where
  "bt_set t [] u = u"
| "bt_set (BT_NODE l k v r) (TO_MIN # p) u = BT_NODE (bt_set l p u) k v r"
| "bt_set (BT_NODE l k v r) (TO_MAX # p) u = BT_NODE l k v (bt_set r p u)"
| "bt_set BT_NULL (_ # _) u = BT_NULL"

subsection \<open>Search trees\<close>

primrec keys :: "('k, 'v) btree \<Rightarrow> 'k set" where
  "keys BT_NULL = {}"
| "keys (BT_NODE l k v r) = insert k (keys l \<union> keys r)"

primrec bst :: "('k::linorder, 'v) btree \<Rightarrow> bool" where
  "bst BT_NULL \<longleftrightarrow> True"
| "bst (BT_NODE l k v r) \<longleftrightarrow> bst l \<and> bst r \<and> (\<forall>x \<in> keys l. x < k) \<and> (\<forall>x \<in> keys r. k < x)"

lemma has_iff_keys: "bst t \<Longrightarrow> BTREE_HAS t key \<longleftrightarrow> key \<in> keys t"
  by (induction t) (auto dest: less_asym)

lemma has_iff_get: "BTREE_HAS t key \<longleftrightarrow> BTREE_GET t key \<noteq> None"
  by (induction t) auto

lemma get_None_keys: "bst t \<Longrightarrow> key \<notin> keys t \<Longrightarrow> BTREE_GET t key = None"
  using has_iff_keys has_iff_get by blast

lemma keys_ins: "keys (BTREE_INS t key x) = insert key (keys t)"
  by (induction t) auto

lemma bst_ins: "bst t \<Longrightarrow> key \<notin> keys t \<Longrightarrow> bst (BTREE_INS t key x)"
  by (induction t) (auto simp: keys_ins)

lemma get_ins: "bst t \<Longrightarrow> key \<notin> keys t \<Longrightarrow> BTREE_GET (BTREE_INS t key x) j = (if j = key then Some x else BTREE_GET t j)"
  by (induction t) auto

lemma pget_slot:
  "bst t \<Longrightarrow> BTREE_PGET t key = Some p \<Longrightarrow> \<exists>l v r. bt_get t p = BT_NODE l key v r \<and> BTREE_GET t key = Some v \<and> bst (bt_get t p)"
  by (induction t arbitrary: p) (auto split: if_splits)

lemma pget_None: "BTREE_PGET t key = None \<longleftrightarrow> BTREE_GET t key = None"
  by (induction t) auto

text \<open>The node whose links \<open>BTREE_DEL\<close> clears: the devices below it are lost.\<close>
definition dropped :: "('k, 'v) btree \<Rightarrow> 'k set" where
  "dropped t = (case t of BT_NODE (BT_NODE _ _ _ _) _ _ (BT_NODE a _ _ b) \<Rightarrow> keys a \<union> keys b | _ \<Rightarrow> {})"

lemma del_spec:
  assumes "bst (BT_NODE l k v r)"
  shows "\<exists>t'. BTREE_DEL (BT_NODE l k v r) = Some t' \<and> bst t' \<and>
    keys t' = keys (BT_NODE l k v r) - {k} - dropped (BT_NODE l k v r) \<and>
    (\<forall>j \<in> keys t'. BTREE_GET t' j = BTREE_GET (BT_NODE l k v r) j)"
proof (cases l)
  case BT_NULL
  thus ?thesis using assms by (auto simp: dropped_def)
next
  case l: (BT_NODE la lk lv lb)
  show ?thesis
  proof (cases r)
    case BT_NULL
    thus ?thesis using assms l by (auto simp: dropped_def)
  next
    case r: (BT_NODE ra rk rv rb)
    have nin: "rk \<notin> keys l" "\<forall>x \<in> keys l. x < k" "k < rk" "bst l" "\<forall>x \<in> keys ra. x < rk" "\<forall>x \<in> keys rb. rk < x"
      "\<forall>x \<in> keys r. k < x"
      using assms r by auto
    have d: "BTREE_DEL (BT_NODE l k v r) = Some (BTREE_INS l rk rv)" using l r by simp
    have ks: "keys (BTREE_INS l rk rv) = keys (BT_NODE l k v r) - {k} - dropped (BT_NODE l k v r)"
    proof -
      have "dropped (BT_NODE l k v r) = keys ra \<union> keys rb" using l r by (simp add: dropped_def)
      moreover have "keys l \<inter> keys r = {}" "k \<notin> keys l" "k \<notin> keys r" "rk \<notin> keys ra" "rk \<notin> keys rb"
        using nin by (fastforce dest: less_asym)+
      ultimately show ?thesis using r by (auto simp: keys_ins)
    qed
    have "BTREE_GET (BTREE_INS l rk rv) j = BTREE_GET (BT_NODE l k v r) j" if "j \<in> keys (BTREE_INS l rk rv)" for j
      using that nin get_ins [OF nin(4,1)] r by (auto simp: keys_ins)
    thus ?thesis using d ks bst_ins [OF nin(4,1)] by blast
  qed
qed


lemma bt_set_spec:
  "bst t \<Longrightarrow> BTREE_PGET t key = Some p \<Longrightarrow> bst d \<Longrightarrow> keys d \<subseteq> keys (bt_get t p) - {key} \<Longrightarrow>
    \<forall>j \<in> keys d. BTREE_GET d j = BTREE_GET (bt_get t p) j \<Longrightarrow>
    bst (bt_set t p d) \<and> keys (bt_get t p) \<subseteq> keys t \<and> keys (bt_set t p d) = keys t - (keys (bt_get t p) - keys d) \<and>
    (\<forall>j \<in> keys (bt_set t p d). BTREE_GET (bt_set t p d) j = BTREE_GET t j)"
proof (induction t arbitrary: p)
  case (BT_NODE l k v r)
  consider "key < k" | "k < key" | "key = k" by force
  thus ?case
  proof cases
    case 1
    then obtain q where q: "p = TO_MIN # q" "BTREE_PGET l key = Some q" using BT_NODE.prems(2) by auto
    note IH = BT_NODE.IH(1) [OF _ q(2) BT_NODE.prems(3)]
    have sub: "keys (bt_get l q) \<subseteq> keys l" "keys (bt_set l q d) = keys l - (keys (bt_get l q) - keys d)" "bst (bt_set l q d)"
      "\<forall>j \<in> keys (bt_set l q d). BTREE_GET (bt_set l q d) j = BTREE_GET l j"
      using IH BT_NODE.prems q by simp_all
    have "keys r \<inter> keys l = {}" "k \<notin> keys l" using BT_NODE.prems(1) by (auto dest: less_asym)
    thus ?thesis using sub BT_NODE.prems(1) q by (auto dest: less_asym)
  next
    case 2
    then obtain q where q: "p = TO_MAX # q" "BTREE_PGET r key = Some q" using BT_NODE.prems(2) by (auto split: if_splits)
    note IH = BT_NODE.IH(2) [OF _ q(2) BT_NODE.prems(3)]
    have sub: "keys (bt_get r q) \<subseteq> keys r" "keys (bt_set r q d) = keys r - (keys (bt_get r q) - keys d)" "bst (bt_set r q d)"
      "\<forall>j \<in> keys (bt_set r q d). BTREE_GET (bt_set r q d) j = BTREE_GET r j"
      using IH BT_NODE.prems q by simp_all
    have "keys l \<inter> keys r = {}" "k \<notin> keys r" using BT_NODE.prems(1) by (auto dest: less_asym)
    thus ?thesis using sub BT_NODE.prems(1) q by (auto dest: less_asym)
  next
    case 3
    thus ?thesis using BT_NODE.prems by auto
  qed
qed simp

lemma delete_spec:
  assumes "bst t" "BTREE_PGET t key = Some p"
  shows "\<exists>d. BTREE_DEL (bt_get t p) = Some d \<and> bst (bt_set t p d) \<and>
    keys (bt_set t p d) = keys t - {key} - dropped (bt_get t p) \<and>
    (\<forall>j \<in> keys (bt_set t p d). BTREE_GET (bt_set t p d) j = BTREE_GET t j)"
proof -
  obtain l v r where n: "bt_get t p = BT_NODE l key v r" "bst (BT_NODE l key v r)" using pget_slot [OF assms] by auto
  obtain d where d: "BTREE_DEL (BT_NODE l key v r) = Some d" "bst d" "keys d = keys (BT_NODE l key v r) - {key} - dropped (BT_NODE l key v r)"
    "\<forall>j \<in> keys d. BTREE_GET d j = BTREE_GET (BT_NODE l key v r) j" using del_spec [OF n(2)] by auto
  have sub: "keys d \<subseteq> keys (bt_get t p) - {key}" "\<forall>j \<in> keys d. BTREE_GET d j = BTREE_GET (bt_get t p) j" using d n by auto
  note s = bt_set_spec [OF assms d(2) sub]
  have "key \<in> keys t" "dropped (bt_get t p) \<subseteq> keys (bt_get t p)"
    using s n(1) by (auto simp: dropped_def split: btree.splits)
  thus ?thesis using s d n(1) by auto
qed

end
