(* ===== verification/Devns.thy ===== *)
theory Devns
  imports Btree
begin

text \<open>
  The device namespaces of \<open>src/src/kernel/dev/device.c\<close>: an address tree of ranges of major numbers, each
  with a vector of search trees of minor numbers. \<open>d_obj\<close> is the memory of the \<open>struct devns_major\<close> objects, which the tree
  and the sorted list \<open>d_sort\<close> share by pointer. The outcomes of the allocator calls are the record \<open>alloc\<close>; the lock of the
  namespace is held throughout. None is a call that does not return.
\<close>

subsection \<open>Data\<close>

type_synonym dev_t = "32 word"
type_synonym major_t = "16 word"
type_synonym minor_t = "32 word"
type_synonym device = nat

definition MAJOR :: "dev_t \<Rightarrow> major_t" where "MAJOR dev = ucast (drop_bit 20 dev)"
definition MINOR :: "dev_t \<Rightarrow> minor_t" where "MINOR dev = dev AND (push_bit 20 1 - 1)"
definition MKDEV :: "32 word \<Rightarrow> 32 word \<Rightarrow> dev_t" where "MKDEV ma mi = push_bit 20 ma OR mi"
definition MAJORMASK :: major_t where "MAJORMASK = push_bit 12 1 - 1"

subsection \<open>Objects\<close>

record devns_major =
  ma_vmin :: major_t
  ma_vmax :: major_t
  ma_bvec :: "(minor_t, device) btree list"

record devns =
  d_tree :: "(major_t, nat) atree"
  d_sort :: "nat list"
  d_obj :: "nat \<Rightarrow> devns_major"

definition DEVNS_MAJOR_CNT :: "devns_major \<Rightarrow> nat" where
  "DEVNS_MAJOR_CNT x = unat (ma_vmax x) - unat (ma_vmin x) + 1"

text \<open>The outcome of the calls of the allocator.\<close>
record alloc =
  al_realloc :: bool
  al_merge :: bool
  al_major :: "nat option"
  al_bvec :: bool

text \<open>\<open>devns_major_pop\<close> of a link: \<open>pop\<close> starts from the semi and level of the root.\<close>
definition devns_major_pop :: "(level \<Rightarrow> major_t) \<Rightarrow> (major_t, nat) atree \<Rightarrow> slot \<Rightarrow> (major_t, nat) atree option" where
  "devns_major_pop ub t p = do { (sub, n) \<leftarrow> pop ub (slot_get t p); Some (slot_set t p sub) }"

abbreviation devns_major_plocate :: "(level \<Rightarrow> major_t) \<Rightarrow> (major_t, nat) atree \<Rightarrow> major_t \<Rightarrow> (slot \<times> major_t \<times> level) option" where
  "devns_major_plocate ub t key \<equiv> plocate_at ub ATREE_SEMI0 (ATREE_LEVEL0 TYPE(16)) t key"

definition devns_major_insert :: "(level \<Rightarrow> major_t) \<Rightarrow> devns \<Rightarrow> nat \<Rightarrow> devns option" where
  "devns_major_insert ub self x =
    do { t \<leftarrow> insert0 ub (d_tree self) (ma_vmin (d_obj self x), ma_vmax (d_obj self x), x); Some (self\<lparr>d_tree := t\<rparr>) }"

definition set_obj :: "devns \<Rightarrow> nat \<Rightarrow> devns_major \<Rightarrow> devns" where
  "set_obj self x m = self\<lparr>d_obj := (d_obj self)(x := m)\<rparr>"

definition devns_lookup_unlocked :: "(level \<Rightarrow> major_t) \<Rightarrow> devns \<Rightarrow> dev_t \<Rightarrow> device option" where
  "devns_lookup_unlocked ub self did = (case locate0 ub (d_tree self) (MAJOR did) of
      None \<Rightarrow> None
    | Some (lo, hi, x) \<Rightarrow> BTREE_GET (ma_bvec (d_obj self x) ! (unat (MAJOR did) - unat lo)) (MINOR did))"

text \<open>Unlinking the successor: \<open>result->ma_sort.le_next = next->ma_sort.le_next\<close>.\<close>
definition sort_unlink_next :: "nat list \<Rightarrow> nat \<Rightarrow> nat \<Rightarrow> nat list" where
  "sort_unlink_next l result nxt = takeWhile (\<lambda>x. x \<noteq> result) l @ [result] @ tl (dropWhile (\<lambda>x. x \<noteq> nxt) l)"

text \<open>Merging a major leaf with the one that follows it.\<close>
definition devns_merge_next :: "(level \<Rightarrow> major_t) \<Rightarrow> alloc \<Rightarrow> devns \<Rightarrow> nat \<Rightarrow> major_t \<Rightarrow> devns option" where
  "devns_merge_next ub al self result id_major =
    (case devns_major_plocate ub (d_tree self) (id_major + 1) of
       None \<Rightarrow> Some self
     | Some (pnext, _) \<Rightarrow>
         let nxt = a_self (slot_get (d_tree self) pnext); r = d_obj self result; n = d_obj self nxt in
         if \<not> al_merge al then Some self
         else
           do { t \<leftarrow> devns_major_pop ub (d_tree self) pnext;
                Some (set_obj (self\<lparr>d_tree := t, d_sort := sort_unlink_next (d_sort self) result nxt\<rparr>) result
                  (r\<lparr>ma_bvec := take (DEVNS_MAJOR_CNT r) (ma_bvec r) @ take (DEVNS_MAJOR_CNT n) (ma_bvec n), ma_vmax := ma_vmax n\<rparr>)) })"

definition devns_extend_above :: "(level \<Rightarrow> major_t) \<Rightarrow> alloc \<Rightarrow> devns \<Rightarrow> slot \<Rightarrow> major_t \<Rightarrow> (devns \<times> nat option) option" where
  "devns_extend_above ub al self presult id_major =
    (let result = a_self (slot_get (d_tree self) presult); r = d_obj self result in
     do { t \<leftarrow> devns_major_pop ub (d_tree self) presult;
          let self = self\<lparr>d_tree := t\<rparr> in
          if \<not> al_realloc al then Some (self, None)
          else
            do { self \<leftarrow> devns_merge_next ub al
                   (set_obj self result (r\<lparr>ma_bvec := take (DEVNS_MAJOR_CNT r) (ma_bvec r) @ [BT_NULL], ma_vmax := ma_vmax r + 1\<rparr>))
                   result id_major;
                 self \<leftarrow> devns_major_insert ub self result;
                 Some (self, Some result) } })"

definition devns_extend_below :: "(level \<Rightarrow> major_t) \<Rightarrow> alloc \<Rightarrow> devns \<Rightarrow> slot \<Rightarrow> (devns \<times> nat option) option" where
  "devns_extend_below ub al self presult =
    (let result = a_self (slot_get (d_tree self) presult); r = d_obj self result in
     do { t \<leftarrow> devns_major_pop ub (d_tree self) presult;
          let self = self\<lparr>d_tree := t\<rparr> in
          if \<not> al_realloc al then Some (self, None)
          else
            do { self \<leftarrow> devns_major_insert ub
                   (set_obj self result (r\<lparr>ma_bvec := BT_NULL # take (DEVNS_MAJOR_CNT r) (ma_bvec r), ma_vmin := ma_vmin r - 1\<rparr>)) result;
                 Some (self, Some result) } })"

definition devns_new_major :: "(level \<Rightarrow> major_t) \<Rightarrow> alloc \<Rightarrow> devns \<Rightarrow> major_t \<Rightarrow> (devns \<times> nat option) option" where
  "devns_new_major ub al self id_major =
    (case al_major al of
       None \<Rightarrow> Some (self, None)
     | Some result \<Rightarrow>
         if \<not> al_bvec al then Some (self, None)
         else
           do { self \<leftarrow> devns_major_insert ub
                  (set_obj self result \<lparr>ma_vmin = id_major, ma_vmax = id_major, ma_bvec = [BT_NULL]\<rparr>) result;
                let below = (\<lambda>s. ma_vmax (d_obj self s) < id_major) in
                Some (self\<lparr>d_sort := takeWhile below (d_sort self) @ [result] @ dropWhile below (d_sort self)\<rparr>, Some result) })"

definition devns_alloc_major :: "(level \<Rightarrow> major_t) \<Rightarrow> alloc \<Rightarrow> devns \<Rightarrow> major_t \<Rightarrow> (devns \<times> nat option) option" where
  "devns_alloc_major ub al self id_major =
    (case locate0 ub (d_tree self) id_major of
       Some (_, _, result) \<Rightarrow> Some (self, Some result)
     | None \<Rightarrow>
        (case (if id_major \<noteq> 0 then devns_major_plocate ub (d_tree self) (id_major - 1) else None) of
           Some (presult, _) \<Rightarrow> devns_extend_above ub al self presult id_major
         | None \<Rightarrow>
            (case (if id_major \<noteq> MAJORMASK then devns_major_plocate ub (d_tree self) (id_major + 1) else None) of
               Some (presult, _) \<Rightarrow> devns_extend_below ub al self presult
             | None \<Rightarrow> devns_new_major ub al self id_major)))"

datatype errno_t = EOK | ENOMEM | EEXIST | ECALLBACK int

definition devns_insert_unlocked :: "(level \<Rightarrow> major_t) \<Rightarrow> alloc \<Rightarrow> devns \<Rightarrow> device \<Rightarrow> dev_t \<Rightarrow> (devns \<times> errno_t) option" where
  "devns_insert_unlocked ub al self dev did =
    do { (self, major) \<leftarrow> devns_alloc_major ub al self (MAJOR did);
         case major of
           None \<Rightarrow> Some (self, ENOMEM)
         | Some x \<Rightarrow>
             let m = d_obj self x; i = unat (MAJOR did) - unat (ma_vmin m); minor_tree = ma_bvec m ! i in
             if BTREE_HAS minor_tree (MINOR did) then Some (self, EEXIST)
             else Some (set_obj self x (m\<lparr>ma_bvec := (ma_bvec m)[i := BTREE_INS minor_tree (MINOR did) dev]\<rparr>), EOK) }"


text \<open>Releasing the major number of the last minor device.\<close>
definition devns_split_major :: "(level \<Rightarrow> major_t) \<Rightarrow> alloc \<Rightarrow> devns \<Rightarrow> nat \<Rightarrow> major_t \<Rightarrow> devns option" where
  "devns_split_major ub al self major did =
    (let m = d_obj self major in
     case (if al_bvec al then al_major al else None) of
       None \<Rightarrow> devns_major_insert ub self major
     | Some upper \<Rightarrow>
         let low = m\<lparr>ma_vmax := did - 1\<rparr>;
             up = \<lparr>ma_vmin = did + 1, ma_vmax = ma_vmax m, ma_bvec = []\<rparr>;
             up = up\<lparr>ma_bvec := take (DEVNS_MAJOR_CNT up) (drop (DEVNS_MAJOR_CNT low) (ma_bvec m))\<rparr>;
             low = low\<lparr>ma_bvec := take (DEVNS_MAJOR_CNT low) (ma_bvec m)\<rparr>;
             self = set_obj (set_obj self major low) upper up;
             self = self\<lparr>d_sort := takeWhile (\<lambda>x. x \<noteq> major) (d_sort self) @ [major, upper] @ tl (dropWhile (\<lambda>x. x \<noteq> major) (d_sort self))\<rparr>
         in do { self \<leftarrow> devns_major_insert ub self upper; devns_major_insert ub self major })"

definition devns_release_major :: "(level \<Rightarrow> major_t) \<Rightarrow> alloc \<Rightarrow> devns \<Rightarrow> slot \<Rightarrow> nat \<Rightarrow> major_t \<Rightarrow> devns option" where
  "devns_release_major ub al self pmajor major did =
    do { t \<leftarrow> devns_major_pop ub (d_tree self) pmajor;
         let self = self\<lparr>d_tree := t\<rparr>; m = d_obj self major in
         if did = ma_vmin m then
           if did = ma_vmax m then Some (self\<lparr>d_sort := remove1 major (d_sort self)\<rparr>)
           else
             let n = m\<lparr>ma_vmin := ma_vmin m + 1\<rparr> in
             devns_major_insert ub (set_obj self major (n\<lparr>ma_bvec := take (DEVNS_MAJOR_CNT n) (tl (ma_bvec m))\<rparr>)) major
         else if did = ma_vmax m then
           let n = m\<lparr>ma_vmax := ma_vmax m - 1\<rparr> in
           devns_major_insert ub (set_obj self major (n\<lparr>ma_bvec := take (DEVNS_MAJOR_CNT n) (ma_bvec m)\<rparr>)) major
         else devns_split_major ub al self major did }"

definition devns_delete_unlocked :: "(level \<Rightarrow> major_t) \<Rightarrow> alloc \<Rightarrow> devns \<Rightarrow> device option \<Rightarrow> dev_t \<Rightarrow> bool \<Rightarrow> (devns \<times> device option) option" where
  "devns_delete_unlocked ub al self dev did release =
    (case devns_major_plocate ub (d_tree self) (MAJOR did) of
       None \<Rightarrow> Some (self, None)
     | Some (pmajor, _) \<Rightarrow>
        let major = a_self (slot_get (d_tree self) pmajor); m = d_obj self major;
            i = unat (MAJOR did) - unat (ma_vmin m); dev_tree = ma_bvec m ! i in
        (case BTREE_PGET dev_tree (MINOR did) of
           None \<Rightarrow> Some (self, None)
         | Some pdevice \<Rightarrow>
            let result = bt_self (bt_get dev_tree pdevice) in
            if dev \<noteq> None \<and> dev \<noteq> Some result then Some (self, None)
            else
              do { sub \<leftarrow> BTREE_DEL (bt_get dev_tree pdevice);
                   let dev_tree = bt_set dev_tree pdevice sub; self = set_obj self major (m\<lparr>ma_bvec := (ma_bvec m)[i := dev_tree]\<rparr>) in
                   if dev_tree = BT_NULL \<and> release then
                     do { self \<leftarrow> devns_release_major ub al self pmajor major (MAJOR did); Some (self, Some result) }
                   else Some (self, Some result) }))"

text \<open>
  \<open>devns_insert\<close>: \<open>weak\<close> is \<open>DEVICE_FLAG_WEAKID\<close>, \<open>added\<close> the result of the callbacks. The last component is the
  change of the reference count of the device.
\<close>
definition devns_insert :: "(level \<Rightarrow> major_t) \<Rightarrow> alloc \<Rightarrow> devns \<Rightarrow> device \<Rightarrow> dev_t \<Rightarrow> bool \<Rightarrow> errno_t \<Rightarrow> (devns \<times> errno_t \<times> int) option" where
  "devns_insert ub al self dev did weak added =
    do { (self, error) \<leftarrow> devns_insert_unlocked ub al self dev did;
         if error \<noteq> EOK then Some (self, error, 0)
         else if added = EOK then Some (self, EOK, if weak then 0 else 1)
         else
           do { (self, d) \<leftarrow> devns_delete_unlocked ub al self (Some dev) did True;
                Some (self, added, (if weak then 0 else 1) - (if d \<noteq> None \<and> \<not> weak then 1 else 0)) } }"

text \<open>
  \<open>devns_lookup\<close> and \<open>devns_remove\<close>: \<open>alive\<close> is the result of \<open>DEVICE_TRYINCREF\<close>; the last component of the result of
  \<open>devns_remove\<close> is the change of the reference count.
\<close>
definition devns_lookup :: "(level \<Rightarrow> major_t) \<Rightarrow> devns \<Rightarrow> dev_t \<Rightarrow> (device \<Rightarrow> bool) \<Rightarrow> device option" where
  "devns_lookup ub self did alive =
    (let result = devns_lookup_unlocked ub self did in
     if result \<noteq> None \<and> \<not> alive (the result) then None else result)"

definition devns_remove :: "(level \<Rightarrow> major_t) \<Rightarrow> alloc \<Rightarrow> devns \<Rightarrow> device \<Rightarrow> dev_t \<Rightarrow> bool \<Rightarrow> bool \<Rightarrow> bool \<Rightarrow> (devns \<times> bool \<times> int) option" where
  "devns_remove ub al self dev did release weak alive =
    do { (self, result) \<leftarrow> devns_delete_unlocked ub al self (Some dev) did release;
         if result \<noteq> None \<and> weak \<and> \<not> alive then Some (self, True, 0)
         else if result \<noteq> None then Some (self, True, (if weak then 1 else 0) - 1)
         else Some (self, False, 0) }"

text \<open>\<open>devns_reserve\<close>, \<open>devns_reserve_at\<close> and \<open>devns_release\<close> are not implemented.\<close>
definition DEVNS_RESERVE_ERROR :: major_t where "DEVNS_RESERVE_ERROR = - 1"
definition devns_reserve :: "devns \<Rightarrow> nat \<Rightarrow> devns \<times> major_t" where "devns_reserve self n_major = (self, DEVNS_RESERVE_ERROR)"
definition devns_reserve_at :: "devns \<Rightarrow> major_t \<Rightarrow> nat \<Rightarrow> devns \<times> major_t" where
  "devns_reserve_at self start n_major = (self, DEVNS_RESERVE_ERROR)"
definition devns_release :: "devns \<Rightarrow> major_t \<Rightarrow> nat \<Rightarrow> devns" where "devns_release self start n_major = self"

text \<open>
  The search for a device of a module: \<open>owned\<close> tells whether the module owns it, \<open>del\<close> deletes it. With two
  children and nothing found on the upper side the code starts over at the same device.
\<close>
partial_function (option) device_delete_from_instance ::
  "(device \<Rightarrow> bool) \<Rightarrow> (device \<Rightarrow> 'r option) \<Rightarrow> ('k, device) btree \<Rightarrow> 'r option option" where
  "device_delete_from_instance owned del t = (case t of
      BT_NULL \<Rightarrow> Some None
    | BT_NODE l k v r \<Rightarrow>
        if owned v then map_option Some (del v)
        else if l \<noteq> BT_NULL then
          if r \<noteq> BT_NULL then
            do { result \<leftarrow> device_delete_from_instance owned del r;
                 case result of Some x \<Rightarrow> Some (Some x) | None \<Rightarrow> device_delete_from_instance owned del t }
          else device_delete_from_instance owned del l
        else if r \<noteq> BT_NULL then device_delete_from_instance owned del r
        else Some None)"

fun major_vec_delete_from_instance :: "(device \<Rightarrow> bool) \<Rightarrow> (device \<Rightarrow> 'r option) \<Rightarrow> ('k, device) btree list \<Rightarrow> 'r option option" where
  "major_vec_delete_from_instance owned del [] = Some None"
| "major_vec_delete_from_instance owned del (dev # vec) =
    (if dev = BT_NULL then major_vec_delete_from_instance owned del vec
     else
       do { result \<leftarrow> device_delete_from_instance owned del dev;
            case result of Some x \<Rightarrow> Some (Some x) | None \<Rightarrow> major_vec_delete_from_instance owned del vec })"

fun devns_major_delete_from_instance ::
  "(nat \<Rightarrow> devns_major) \<Rightarrow> (device \<Rightarrow> bool) \<Rightarrow> (device \<Rightarrow> 'r option) \<Rightarrow> (major_t, nat) atree \<Rightarrow> 'r option option" where
  "devns_major_delete_from_instance obj owned del ATREE_NULL = Some None"
| "devns_major_delete_from_instance obj owned del (ATREE_NODE l lo hi x r) =
    do { result \<leftarrow> major_vec_delete_from_instance owned del (take (DEVNS_MAJOR_CNT (obj x)) (ma_bvec (obj x)));
         case result of Some y \<Rightarrow> Some (Some y) | None \<Rightarrow>
           if l \<noteq> ATREE_NULL then
             do { result \<leftarrow> (if r \<noteq> ATREE_NULL then devns_major_delete_from_instance obj owned del r else Some None);
                  case result of Some y \<Rightarrow> Some (Some y) | None \<Rightarrow> devns_major_delete_from_instance obj owned del l }
           else devns_major_delete_from_instance obj owned del r }"


subsection \<open>The namespace as a map\<close>

lemma plocate_locate:
  "(plocate_at ub s l t key = None \<longleftrightarrow> locate_at ub s l t key = None) \<and>
   (\<forall>p q. plocate_at ub s l t key = Some (p, q) \<longrightarrow>
     (\<exists>a lo hi x c. slot_get t p = ATREE_NODE a lo hi x c \<and> locate_at ub s l t key = Some (lo, hi, x)))"
  by (induction ub s l t key rule: plocate_at.induct) (auto split: prod.splits if_splits)

lemma dev_eq_iff: "MAJOR i = MAJOR j \<and> MINOR i = MINOR j \<longleftrightarrow> i = j"
proof
  assume a: "MAJOR i = MAJOR j \<and> MINOR i = MINOR j"
  show "i = j"
  proof (rule bit_word_eqI)
    fix n assume n: "n < LENGTH(32)"
    have m: "MINOR i = take_bit 20 i" for i by (simp add: MINOR_def take_bit_eq_mask mask_eq_exp_minus_1)
    show "bit i n = bit j n"
    proof (cases "n < 20")
      case True
      have "bit (take_bit 20 i) n = bit (take_bit 20 j) n" using a m by simp
      thus ?thesis using True by (simp add: bit_simps)
    next
      case False
      have "bit (MAJOR i) (n - 20) = bit (MAJOR j) (n - 20)" using a by simp
      moreover have "n - 20 < 16" using n by simp
      ultimately show ?thesis using False by (simp add: MAJOR_def bit_simps)
    qed
  qed
qed simp

definition major_ok :: "devns_major \<Rightarrow> bool" where
  "major_ok m \<longleftrightarrow> length (ma_bvec m) = DEVNS_MAJOR_CNT m \<and> (\<forall>t \<in> set (ma_bvec m). bst t)"

definition devns_ok :: "devns \<Rightarrow> bool" where
  "devns_ok self \<longleftrightarrow> atree_ok 0 16 (d_tree self) \<and>
    (\<forall>(lo, hi, x) \<in> leaves (d_tree self). ma_vmin (d_obj self x) = lo \<and> ma_vmax (d_obj self x) = hi \<and> major_ok (d_obj self x))"

lemma devns_ok_leaf:
  "devns_ok self \<Longrightarrow> (lo, hi, x) \<in> leaves (d_tree self) \<Longrightarrow>
    ma_vmin (d_obj self x) = lo \<and> ma_vmax (d_obj self x) = hi \<and> major_ok (d_obj self x)"
  by (auto simp: devns_ok_def)

lemma locate16: "atree_ok 0 16 t \<Longrightarrow> locate0 ub t k = Some n \<longleftrightarrow> n \<in> leaves t \<and> covers n (k :: 16 word)"
  using addrtree16.lookup_law [of t ub k n] by simp

lemma slot_bound:
  assumes "devns_ok self" "locate0 ub (d_tree self) k = Some (lo, hi, x)"
  shows "unat k - unat lo < length (ma_bvec (d_obj self x))" "(lo, hi, x) \<in> leaves (d_tree self)" "lo \<le> k" "k \<le> hi"
    "ma_vmin (d_obj self x) = lo" "ma_vmax (d_obj self x) = hi" "major_ok (d_obj self x)"
proof -
  show m: "(lo, hi, x) \<in> leaves (d_tree self)" "lo \<le> k" "k \<le> hi"
    using assms locate16 [of "d_tree self" ub k "(lo, hi, x)"] by (simp_all add: devns_ok_def covers_def)
  show l: "ma_vmin (d_obj self x) = lo" "ma_vmax (d_obj self x) = hi" "major_ok (d_obj self x)"
    using devns_ok_leaf [OF assms(1) m(1)] by auto
  show "unat k - unat lo < length (ma_bvec (d_obj self x))"
    using m(2,3) l by (simp add: major_ok_def DEVNS_MAJOR_CNT_def word_le_nat_alt)
qed

text \<open>Replacing the minor tree of one major number.\<close>

lemma update_minor:
  assumes ok: "devns_ok self" and l: "locate0 ub (d_tree self) (MAJOR did) = Some (lo, hi, x)" and t: "bst t"
  defines "m \<equiv> d_obj self x" and "i \<equiv> unat (MAJOR did) - unat lo"
  defines "self' \<equiv> set_obj self x (m\<lparr>ma_bvec := (ma_bvec m)[i := t]\<rparr>)"
  shows "devns_ok self'" and "d_tree self' = d_tree self" and
    "devns_lookup_unlocked ub self' j = (if MAJOR j = MAJOR did then BTREE_GET t (MINOR j) else devns_lookup_unlocked ub self j)"
proof -
  note b = slot_bound [OF ok l]
  have mm: "major_ok (m\<lparr>ma_bvec := (ma_bvec m)[i := t]\<rparr>)"
    using b(7) t set_update_subset_insert [of "ma_bvec m" i t] by (auto simp: major_ok_def m_def DEVNS_MAJOR_CNT_def)
  show tr: "d_tree self' = d_tree self" by (simp add: self'_def set_obj_def)
  show "devns_ok self'"
    using ok mm unfolding devns_ok_def by (fastforce simp: self'_def set_obj_def m_def)
  show "devns_lookup_unlocked ub self' j = (if MAJOR j = MAJOR did then BTREE_GET t (MINOR j) else devns_lookup_unlocked ub self j)"
  proof (cases "locate0 ub (d_tree self) (MAJOR j)")
    case None
    thus ?thesis using l tr by (auto simp: devns_lookup_unlocked_def)
  next
    case (Some n)
    obtain lo' hi' y where n: "n = (lo', hi', y)" by (cases n)
    note b' = slot_bound [OF ok Some [unfolded n]]
    have same: "lo' = lo" if "y = x" using that b(5) b'(5) by simp
    have idx: "unat (MAJOR j) - unat lo = i \<longleftrightarrow> MAJOR j = MAJOR did" if "y = x"
      using that b(3) b'(3) same eq_diff_iff [of "unat lo" "unat (MAJOR j)" "unat (MAJOR did)"]
      by (simp add: i_def word_le_nat_alt word_unat_eq_iff)
    have yx: "y = x" if "MAJOR j = MAJOR did" using that l Some n by simp
    show ?thesis using Some n tr idx same yx b(1)
      by (auto simp: devns_lookup_unlocked_def self'_def set_obj_def m_def i_def nth_list_update)
  qed
qed


lemma insert_minor:
  fixes dev :: device
  assumes ok: "devns_ok self" and l: "locate0 ub (d_tree self) (MAJOR did) = Some (lo, hi, x)"
  defines "m \<equiv> d_obj self x" and "i \<equiv> unat (MAJOR did) - unat (ma_vmin (d_obj self x))"
  defines "self' \<equiv> set_obj self x (m\<lparr>ma_bvec := (ma_bvec m)[i := BTREE_INS (ma_bvec m ! i) (MINOR did) dev]\<rparr>)"
  assumes nh: "\<not> BTREE_HAS (ma_bvec m ! i) (MINOR did)"
  shows "devns_ok self'" and
    "devns_lookup_unlocked ub self' j = (if j = did then Some dev else devns_lookup_unlocked ub self j)"
proof -
  note b = slot_bound [OF ok l]
  have bst: "bst (ma_bvec m ! i)" using b(1,5,7) by (simp add: major_ok_def m_def i_def)
  have nk: "MINOR did \<notin> keys (ma_bvec m ! i)" using nh has_iff_keys [OF bst] by simp
  note u = update_minor [OF ok l bst_ins [OF bst nk, of dev]]
  show "devns_ok self'" using u(1) b(5) by (simp add: self'_def m_def i_def)
  have "devns_lookup_unlocked ub self j = BTREE_GET (ma_bvec m ! i) (MINOR j)" if "MAJOR j = MAJOR did"
    using that l b(5) by (simp add: devns_lookup_unlocked_def m_def i_def)
  thus "devns_lookup_unlocked ub self' j = (if j = did then Some dev else devns_lookup_unlocked ub self j)"
    using u(3) [of j] b(5) get_ins [OF bst nk, of dev "MINOR j"] dev_eq_iff [of j did]
    by (auto simp: self'_def m_def i_def)
qed

lemma new_major:
  assumes ok: "devns_ok self" and l: "locate0 ub (d_tree self) k = None"
    and al: "al_major al = Some x" "al_bvec al" and fresh: "\<forall>(lo, hi, y) \<in> leaves (d_tree self). y \<noteq> x"
  shows "\<exists>self'. devns_new_major ub al self k = Some (self', Some x) \<and> devns_ok self' \<and>
    locate0 ub (d_tree self') k = Some (k, k, x) \<and> ma_bvec (d_obj self' x) = [BT_NULL] \<and>
    (\<forall>j. devns_lookup_unlocked ub self' j = devns_lookup_unlocked ub self j)"
proof -
  have t: "atree_ok 0 LENGTH(16) (d_tree self)" using ok by (simp add: devns_ok_def)
  have "\<not> covers n k" if "n \<in> leaves (d_tree self)" for n
    using locate16 [of "d_tree self" ub k n] l ok that by (simp add: devns_ok_def)
  hence "apart (k, k, x) n" if "n \<in> leaves (d_tree self)" for n
    using that by (simp add: covers_def apart_def not_le)
  hence ap: "\<forall>n \<in> leaves (d_tree self). apart (k, k, x) n" by blast
  obtain t' where t': "insert0 ub (d_tree self) (k, k, x) = Some t'" "atree_ok 0 16 t'" "leaves t' = insert (k, k, x) (leaves (d_tree self))"
    using addrtree16.ins_law [OF t _ ap, of ub] by auto
  obtain t'' where "insert0 ub (d_tree self) (k, k, x) = Some t''"
    "\<forall>j. locate0 ub t'' j = (if covers (k, k, x) j then Some (k, k, x) else locate0 ub (d_tree self) j)"
    using addrtree16.lookup_after_ins [OF t _ ap, of ub] by auto
  hence loc: "locate0 ub t' j = (if j = k then Some (k, k, x) else locate0 ub (d_tree self) j)" for j
    using t'(1) by (auto simp: covers_def)
  define m where "m = \<lparr>ma_vmin = k, ma_vmax = k, ma_bvec = [BT_NULL :: (minor_t, device) btree]\<rparr>"
  define srt where "srt = takeWhile (\<lambda>s. ma_vmax (((d_obj self)(x := m)) s) < k) (d_sort self) @ [x] @
    dropWhile (\<lambda>s. ma_vmax (((d_obj self)(x := m)) s) < k) (d_sort self)"
  define self' where "self' = self\<lparr>d_obj := (d_obj self)(x := m), d_tree := t', d_sort := srt\<rparr>"
  have r: "devns_new_major ub al self k = Some (self', Some x)"
    using al t'(1) by (simp add: devns_new_major_def devns_major_insert_def set_obj_def m_def self'_def srt_def Let_def)
  have "devns_ok self'" using ok t' fresh unfolding devns_ok_def
    by (auto simp: self'_def m_def major_ok_def DEVNS_MAJOR_CNT_def)
  moreover have "devns_lookup_unlocked ub self' j = devns_lookup_unlocked ub self j" for j
  proof (cases "MAJOR j = k")
    case True thus ?thesis using l loc by (simp add: devns_lookup_unlocked_def self'_def m_def)
  next
    case False
    have "y \<noteq> x" if "locate0 ub (d_tree self) (MAJOR j) = Some (lo, hi, y)" for lo hi y
      using slot_bound(2) [OF ok that] fresh by auto
    thus ?thesis using False loc by (auto simp: devns_lookup_unlocked_def self'_def split: option.split)
  qed
  ultimately show ?thesis using r loc by (auto simp: self'_def m_def)
qed


lemma insert_at_major:
  assumes ok: "devns_ok self" and l: "locate0 ub (d_tree self) (MAJOR did) = Some (lo, hi, x)"
    and a: "devns_alloc_major ub al self0 (MAJOR did) = Some (self, Some x)"
  shows "\<exists>self' e. devns_insert_unlocked ub al self0 dev did = Some (self', e) \<and> devns_ok self' \<and>
    (if devns_lookup_unlocked ub self did \<noteq> None then e = EEXIST \<and> self' = self
     else e = EOK \<and> (\<forall>j. devns_lookup_unlocked ub self' j = (if j = did then Some dev else devns_lookup_unlocked ub self j)))"
proof -
  let ?t = "ma_bvec (d_obj self x) ! (unat (MAJOR did) - unat (ma_vmin (d_obj self x)))"
  have look: "devns_lookup_unlocked ub self did = BTREE_GET ?t (MINOR did)"
    using l slot_bound(5) [OF ok l] by (simp add: devns_lookup_unlocked_def)
  show ?thesis
  proof (cases "BTREE_HAS ?t (MINOR did)")
    case True
    hence "BTREE_GET ?t (MINOR did) \<noteq> None" by (simp add: has_iff_get)
    thus ?thesis using True ok a look by (simp add: devns_insert_unlocked_def Let_def)
  next
    case False
    hence "BTREE_GET ?t (MINOR did) = None" by (simp add: has_iff_get)
    thus ?thesis using insert_minor [OF ok l False] False a look by (simp add: devns_insert_unlocked_def Let_def)
  qed
qed

lemmas devns_eval = MKDEV_def MAJOR_def MINOR_def MAJORMASK_def devns_delete_unlocked_def devns_insert_unlocked_def devns_alloc_major_def
  devns_new_major_def devns_extend_above_def devns_extend_below_def devns_merge_next_def devns_release_major_def
  devns_split_major_def devns_lookup_unlocked_def devns_major_pop_def devns_major_insert_def set_obj_def
  DEVNS_MAJOR_CNT_def devns_ok_def major_ok_def atree_ok_numeral within_def apart_def covers_def
  locate0_def insert0_def pop_def ATREE_SEMI0_def ATREE_LEVEL0_def ATREE_WALKMIN_def ATREE_WALKMAX_def shl1_def
  insert_at_simps priv_reinsertall_def

abbreviation dev1 :: "minor_t \<Rightarrow> device \<Rightarrow> (minor_t, device) btree" where
  "dev1 mi d \<equiv> BT_NODE BT_NULL mi d BT_NULL"

text \<open>A namespace with one major number and two devices, for the examples.\<close>
definition ns1 :: devns where
  "ns1 = \<lparr>d_tree = ATREE_NODE ATREE_NULL 2 2 0 ATREE_NULL, d_sort = [0],
    d_obj = \<lambda>_. \<lparr>ma_vmin = 2, ma_vmax = 2, ma_bvec = [BT_NODE BT_NULL 5 10 (dev1 6 20)]\<rparr>\<rparr>"

subsection \<open>Properties\<close>





text \<open>No device of the tree has two children.\<close>
primrec chain :: "('k, 'v) btree \<Rightarrow> bool" where
  "chain BT_NULL \<longleftrightarrow> True"
| "chain (BT_NODE l k v r) \<longleftrightarrow> (l = BT_NULL \<or> r = BT_NULL) \<and> chain l \<and> chain r"

lemma search_returns_chain:
  assumes "device_delete_from_instance owned del t = Some y"
  shows "(\<forall>v. \<not> owned v) \<longrightarrow> chain t \<and> y = None"
  by (rule device_delete_from_instance.raw_induct [where P = "\<lambda>owned del t y. (\<forall>v. \<not> owned v) \<longrightarrow> chain t \<and> y = None", OF _ assms])
    (auto split: btree.splits if_splits option.splits simp: Option.bind_eq_Some_conv,
      (metis chain.simps(2) option.distinct(1))+)


lemma chain_search:
  "chain t \<Longrightarrow> \<forall>v. \<not> owned v \<Longrightarrow> device_delete_from_instance owned del t = Some None"
proof (induction t)
  case BT_NULL show ?case by (simp add: device_delete_from_instance.simps)
next
  case (BT_NODE l k v r)
  have "\<not> owned v" "chain l" "chain r" "l = BT_NULL \<or> r = BT_NULL" using BT_NODE.prems by simp_all
  moreover note BT_NODE.IH(1) [OF \<open>chain l\<close> BT_NODE.prems(2)] BT_NODE.IH(2) [OF \<open>chain r\<close> BT_NODE.prems(2)]
  ultimately show ?case by (subst device_delete_from_instance.simps) auto
qed

text \<open>
  C36: A search for the devices of a module that owns none of the devices returns exactly if no device of the minor
  tree has two children; otherwise it loops forever, with the lock of the namespace held.
\<close>
theorem device_search_returns_iff:
  assumes "\<forall>v. \<not> owned v"
  shows "device_delete_from_instance owned del t = (if chain t then Some None else None)"
  using search_returns_chain [of owned del t] chain_search [of t owned del] assms
  by (cases "device_delete_from_instance owned del t") auto

theorem device_search_returns_iff_witness:
  "device_delete_from_instance (\<lambda>_. False) (\<lambda>_. Some ()) (BT_NODE (BT_NODE BT_NULL 1 10 BT_NULL) (2 :: nat) 20 (BT_NODE BT_NULL 3 30 BT_NULL)) = None"
  using device_search_returns_iff [of "\<lambda>_. False" "\<lambda>_. Some ()" "BT_NODE (BT_NODE BT_NULL 1 10 BT_NULL) (2 :: nat) 20 (BT_NODE BT_NULL 3 30 BT_NULL)"]
  by simp

text \<open>
  Three ways to lose devices of other major numbers. When the vector of a leaf cannot be extended, the leaf
  stays out of the tree. Releasing a major number in the middle of a leaf copies the
  upper half of the vector from one element too low, so the device of the next major number is no longer found. Extending a leaf
  takes it out of the tree with the semi and level of the root instead of those of its link, so leaves below it
  end up where no lookup finds them.
\<close>
theorem devns_loses_devices:
  "(let self = \<lparr>d_tree = ATREE_NODE ATREE_NULL 2 4 0 ATREE_NULL, d_sort = [0],
       d_obj = \<lambda>_. \<lparr>ma_vmin = 2, ma_vmax = 4, ma_bvec = [dev1 5 10, dev1 5 20, dev1 5 30]\<rparr>\<rparr>;
      al = \<lparr>al_realloc = True, al_merge = True, al_major = Some 1, al_bvec = True\<rparr> in
    devns_ok self \<and> devns_lookup_unlocked (\<lambda>_. 0) self (MKDEV 4 5) = Some 30 \<and>
    (\<exists>self'. devns_delete_unlocked (\<lambda>_. 0) al self None (MKDEV 3 5) True = Some (self', Some 20) \<and>
      devns_lookup_unlocked (\<lambda>_. 0) self' (MKDEV 4 5) = None) \<and>
    (\<exists>self'. devns_insert_unlocked (\<lambda>_. 0) (al\<lparr>al_realloc := False\<rparr>) self 7 (MKDEV 5 5) = Some (self', ENOMEM) \<and>
      devns_lookup_unlocked (\<lambda>_. 0) self' (MKDEV 4 5) = None)) \<and>
   (let leaf = (\<lambda>l k r. ATREE_NODE l (word_of_nat k) (word_of_nat k) k r);
        up = leaf (leaf ATREE_NULL 0xA00 ATREE_NULL) 0x900 ATREE_NULL;
        self = \<lparr>d_tree = leaf (leaf (leaf (leaf (leaf ATREE_NULL 0x140 up) 0x130 ATREE_NULL) 0x120 ATREE_NULL) 0x110 ATREE_NULL) 0x100 ATREE_NULL,
          d_sort = [0x100, 0x110, 0x120, 0x130, 0x140, 0x900, 0xA00],
          d_obj = \<lambda>k. \<lparr>ma_vmin = word_of_nat k, ma_vmax = word_of_nat k, ma_bvec = [dev1 5 k]\<rparr>\<rparr>;
        al = \<lparr>al_realloc = True, al_merge = True, al_major = Some 1, al_bvec = True\<rparr> in
    devns_ok self \<and> devns_lookup_unlocked (\<lambda>_. 0) self (MKDEV 0x900 5) = Some 0x900 \<and>
    (\<exists>self'. devns_insert_unlocked (\<lambda>_. 0) al self 7 (MKDEV 0x141 5) = Some (self', EOK) \<and>
      devns_lookup_unlocked (\<lambda>_. 0) self' (MKDEV 0x900 5) = None))"
  by (simp add: devns_eval Let_def)

end
