(* ===== verification/Libc_Unicode.thy ===== *)
theory Libc_Unicode
  imports Prelude "HOL-Library.Monad_Syntax"
begin

text \<open>
  The conversions between UTF-8, UTF-16 and UTF-32 of \<open>src/libs/libc/unicode.c\<close>. The source is the list of the elements from
  \<open>iter\<close> to \<open>end\<close>, and the unread rest is part of the result (with \<open>UNICODE_F_UPDATESRC\<close> the caller gets it back). The
  target is a buffer indexed from 0, of which the elements below \<open>dst_end\<close> are written; \<open>dst\<close> runs on behind it. The labels
  of the C code are definitions that take the next round of the loop as an argument; a loop that never returns is None.
\<close>

subsection \<open>Flags, tables and the state\<close>

unbundle bit_operations_syntax

definition UNICODE_F_NOZEROTERM :: nat where "UNICODE_F_NOZEROTERM = 0x0001"
definition UNICODE_F_ALWAYSZEROTERM :: nat where "UNICODE_F_ALWAYSZEROTERM = 0x0002"
definition UNICODE_F_STOPONNUL :: nat where "UNICODE_F_STOPONNUL = 0x0004"
definition UNICODE_F_DOSINGLE :: nat where "UNICODE_F_DOSINGLE = 0x0008"
definition UNICODE_F_UTF16HALF :: nat where "UNICODE_F_UTF16HALF = 0x0010"
definition UNICODE_F_SETERRNO :: nat where "UNICODE_F_SETERRNO = 0x0040"
definition UNICODE_F_NOFAIL :: nat where "UNICODE_F_NOFAIL = 0x0080"

lemmas mode_defs = UNICODE_F_NOZEROTERM_def UNICODE_F_ALWAYSZEROTERM_def UNICODE_F_STOPONNUL_def UNICODE_F_DOSINGLE_def
  UNICODE_F_UTF16HALF_def UNICODE_F_SETERRNO_def UNICODE_F_NOFAIL_def

abbreviation flag :: "nat \<Rightarrow> nat \<Rightarrow> bool" where "flag mode f \<equiv> mode AND f \<noteq> 0"

definition uni_bytemarks :: "nat list" where "uni_bytemarks = [0x00, 0x00, 0xC0, 0xE0, 0xF0, 0xF8, 0xFC]"
definition utf8_trailing_bytes :: "nat list" where
  "utf8_trailing_bytes = replicate 192 0 @ replicate 32 1 @ replicate 16 2 @ replicate 8 3 @ replicate 4 4 @ replicate 4 5"
definition utf8_offsets :: "32 word list" where
  "utf8_offsets = [0x00000000, 0x00003080, 0x000E2080, 0x03C82080, 0xFA082080, 0x82082080]"

definition UNI_HALF_BASE :: "32 word" where "UNI_HALF_BASE = 0x10000"
definition UNI_HALF_MASK :: "32 word" where "UNI_HALF_MASK = 0x3FF"
definition UNI_HALF_SHIFT :: nat where "UNI_HALF_SHIFT = 10"
definition UNI_MAX_BMP :: "32 word" where "UNI_MAX_BMP = 0xFFFF"
definition UNI_MAX_LEGAL_UTF32 :: "32 word" where "UNI_MAX_LEGAL_UTF32 = 0x10FFFF"
definition UNI_MAX_UTF16 :: "32 word" where "UNI_MAX_UTF16 = 0x10FFFF"
definition UNI_SURROGATE_HIGH_END :: "32 word" where "UNI_SURROGATE_HIGH_END = 0xDBFF"
definition UNI_SURROGATE_HIGH_BEGIN :: "32 word" where "UNI_SURROGATE_HIGH_BEGIN = 0xD800"
definition UNI_SURROGATE_LOW_END :: "32 word" where "UNI_SURROGATE_LOW_END = 0xDFFF"
definition UNI_SURROGATE_LOW_BEGIN :: "32 word" where "UNI_SURROGATE_LOW_BEGIN = 0xDC00"
definition UNICODE_REPLACEMENT :: nat where "UNICODE_REPLACEMENT = 0x3F"

lemmas uni_defs = UNI_HALF_BASE_def UNI_HALF_MASK_def UNI_HALF_SHIFT_def UNI_MAX_BMP_def UNI_MAX_LEGAL_UTF32_def UNI_MAX_UTF16_def
  UNI_SURROGATE_HIGH_END_def UNI_SURROGATE_HIGH_BEGIN_def UNI_SURROGATE_LOW_END_def UNI_SURROGATE_LOW_BEGIN_def UNICODE_REPLACEMENT_def

definition contb :: "8 word \<Rightarrow> bool" where "contb ch \<longleftrightarrow> \<not> (ch < 0x80 \<or> ch > 0xBF)"

definition second_ok :: "8 word \<Rightarrow> 8 word \<Rightarrow> bool" where
  "second_ok a ch \<longleftrightarrow> \<not> (if a = 0xE0 then ch < 0xA0 else if a = 0xED then ch > 0x9F else if a = 0xF0 then ch < 0x90
    else if a = 0xF4 then ch > 0x8F else ch < 0x80)"

definition lead_ok :: "8 word \<Rightarrow> bool" where
  "lead_ok a \<longleftrightarrow> \<not> (0x80 \<le> a \<and> a < 0xC2) \<and> \<not> a > 0xF4"

text \<open>The cases of the switch fall through from 4 to 1.\<close>
definition libc_utf8_check :: "8 word list \<Rightarrow> bool" where
  "libc_utf8_check utf8 = (case utf8 of
      [a] \<Rightarrow> lead_ok a
    | [a, b] \<Rightarrow> contb b \<and> second_ok a b \<and> lead_ok a
    | [a, b, c] \<Rightarrow> contb c \<and> contb b \<and> second_ok a b \<and> lead_ok a
    | [a, b, c, d] \<Rightarrow> contb d \<and> contb c \<and> contb b \<and> second_ok a b \<and> lead_ok a
    | _ \<Rightarrow> False)"

record mbstate =
  mb_count :: "32 word"
  mb_wch :: "32 word"

definition MBSTATE_ISEMPTY :: "mbstate \<Rightarrow> bool" where "MBSTATE_ISEMPTY x \<longleftrightarrow> mb_count x = 0"
definition MBSTATE_GETMISSING :: "mbstate \<Rightarrow> nat" where "MBSTATE_GETMISSING x = unat (mb_count x AND 0xFF)"
definition MBSTATE_GETSRCSIZE :: "mbstate \<Rightarrow> nat" where "MBSTATE_GETSRCSIZE x = unat (drop_bit 16 (mb_count x) AND 0xFF)"
definition MBSTATE_SETCOUNT :: "mbstate \<Rightarrow> nat \<Rightarrow> nat \<Rightarrow> mbstate" where
  "MBSTATE_SETCOUNT x missing srcsize = x\<lparr>mb_count := word_of_nat missing OR push_bit 16 (word_of_nat srcsize)\<rparr>"

datatype uni_res = UNI_ERROR bool | UNI_HALF | UNI_LEN nat

record ('s, 'd) conv =
  cv_res :: uni_res
  cv_src :: "'s list"
  cv_mb :: mbstate
  cv_buf :: "nat \<Rightarrow> 'd"

text \<open>\<open>if (dst < dst_end) *dst = ch;\<close>\<close>
definition put :: "nat \<Rightarrow> nat \<Rightarrow> 'd \<Rightarrow> (nat \<Rightarrow> 'd) \<Rightarrow> nat \<Rightarrow> 'd" where
  "put dst_end dst ch buf = (if dst < dst_end then buf(dst := ch) else buf)"

text \<open>The labels \<open>done\<close> and \<open>done2\<close>, the end of the loop and \<open>GOTO_DONE\<close>; the failure exit.\<close>
definition conv_done :: "'s list \<Rightarrow> mbstate \<Rightarrow> nat \<Rightarrow> (nat \<Rightarrow> 'd) \<Rightarrow> ('s, 'd) conv" where
  "conv_done src mb dst buf = \<lparr>cv_res = UNI_LEN dst, cv_src = src, cv_mb = mb, cv_buf = buf\<rparr>"
definition conv_done2 :: "nat \<Rightarrow> 's list \<Rightarrow> mbstate \<Rightarrow> nat \<Rightarrow> (nat \<Rightarrow> 'd) \<Rightarrow> ('s, 'd::zero) conv" where
  "conv_done2 dst_end src mb dst buf = conv_done src mb (dst + 1) (put dst_end dst 0 buf)"
definition conv_end :: "nat \<Rightarrow> nat \<Rightarrow> 's list \<Rightarrow> mbstate \<Rightarrow> nat \<Rightarrow> (nat \<Rightarrow> 'd) \<Rightarrow> ('s, 'd::zero) conv" where
  "conv_end mode dst_end src mb dst buf =
    (if \<not> flag mode UNICODE_F_NOZEROTERM then conv_done2 dst_end src mb dst buf else conv_done src mb dst buf)"
definition GOTO_DONE :: "nat \<Rightarrow> nat \<Rightarrow> 's list \<Rightarrow> mbstate \<Rightarrow> nat \<Rightarrow> (nat \<Rightarrow> 'd) \<Rightarrow> ('s, 'd::zero) conv" where
  "GOTO_DONE mode dst_end src mb dst buf =
    (if mode AND (UNICODE_F_ALWAYSZEROTERM OR UNICODE_F_NOZEROTERM) = UNICODE_F_ALWAYSZEROTERM
     then conv_done2 dst_end src mb dst buf else conv_done src mb dst buf)"
definition conv_fail :: "nat \<Rightarrow> 's list \<Rightarrow> mbstate \<Rightarrow> (nat \<Rightarrow> 'd) \<Rightarrow> ('s, 'd) conv" where
  "conv_fail mode src mb buf = \<lparr>cv_res = UNI_ERROR (flag mode UNICODE_F_SETERRNO), cv_src = src, cv_mb = mb, cv_buf = buf\<rparr>"

text \<open>\<open>ch += (u8)*iter++; ch <<= 6;\<close> for all but the last of \<open>n\<close> bytes.\<close>
fun read_bytes :: "nat \<Rightarrow> 32 word \<Rightarrow> 8 word list \<Rightarrow> 32 word \<times> 8 word list" where
  "read_bytes 0 ch src = (ch, src)"
| "read_bytes (Suc 0) ch (b # src) = (ch + ucast b, src)"
| "read_bytes (Suc (Suc n)) ch (b # src) = read_bytes (Suc n) (push_bit 6 (ch + ucast b)) src"
| "read_bytes (Suc n) ch [] = (ch, [])"

subsection \<open>From UTF-8\<close>

text \<open>The loop of \<open>utf8to32\<close> from the labels \<open>put_char\<close>, \<open>err\<close> and \<open>got_char\<close> on; \<open>loop\<close> is the next round.\<close>
type_synonym 'd uloop = "8 word list \<Rightarrow> mbstate \<Rightarrow> nat \<Rightarrow> (nat \<Rightarrow> 'd) \<Rightarrow> (8 word, 'd) conv option"

definition u32_put_char :: "32 word uloop \<Rightarrow> nat \<Rightarrow> nat \<Rightarrow> 32 word \<Rightarrow> 32 word uloop" where
  "u32_put_char loop mode dst_end ch src mb dst buf =
    (if flag mode UNICODE_F_DOSINGLE then Some (conv_end mode dst_end src mb (dst + 1) (put dst_end dst ch buf))
     else loop src mb (dst + 1) (put dst_end dst ch buf))"

definition u32_err :: "32 word uloop \<Rightarrow> nat \<Rightarrow> nat \<Rightarrow> 32 word uloop" where
  "u32_err loop mode dst_end src mb dst buf =
    (if flag mode UNICODE_F_NOFAIL then u32_put_char loop mode dst_end (word_of_nat UNICODE_REPLACEMENT) src mb dst buf
     else Some (conv_fail mode src mb buf))"

definition u32_got_char :: "32 word uloop \<Rightarrow> nat \<Rightarrow> nat \<Rightarrow> nat \<Rightarrow> 32 word \<Rightarrow> 32 word uloop" where
  "u32_got_char loop mode dst_end src_size ch src mb dst buf =
    (let ch = ch - utf8_offsets ! src_size in
     if ch > UNI_MAX_LEGAL_UTF32 then u32_err loop mode dst_end src mb dst buf
     else if UNI_SURROGATE_HIGH_BEGIN \<le> ch \<and> ch \<le> UNI_SURROGATE_LOW_END then u32_err loop mode dst_end src mb dst buf
     else u32_put_char loop mode dst_end ch src mb dst buf)"

lemma u32_mono [partial_function_mono]:
  fixes k :: "('b \<Rightarrow> 'c option) \<Rightarrow> 32 word uloop"
  assumes "\<And>a b c d. mono_option (\<lambda>f. k f a b c d)"
  shows "mono_option (\<lambda>f. u32_put_char (k f) mode dst_end ch src mb dst buf)"
    and "mono_option (\<lambda>f. u32_err (k f) mode dst_end src mb dst buf)"
    and "mono_option (\<lambda>f. u32_got_char (k f) mode dst_end n ch src mb dst buf)"
proof -
  show p: "mono_option (\<lambda>f. u32_put_char (k f) mode dst_end ch src mb dst buf)" for ch
    unfolding u32_put_char_def by (intro assms partial_function_mono)
  show e: "mono_option (\<lambda>f. u32_err (k f) mode dst_end src mb dst buf)"
    unfolding u32_err_def by (intro p partial_function_mono)
  show "mono_option (\<lambda>f. u32_got_char (k f) mode dst_end n ch src mb dst buf)"
    unfolding u32_got_char_def Let_def by (intro p e partial_function_mono)
qed

partial_function (option) utf8to32_loop :: "nat \<Rightarrow> nat \<Rightarrow> 32 word uloop" where
  "utf8to32_loop mode dst_end src mb dst buf =
    (if src = [] \<or> (flag mode UNICODE_F_STOPONNUL \<and> hd src = 0) then Some (conv_end mode dst_end src mb dst buf)
     else
       let src_size = utf8_trailing_bytes ! unat (hd src) in
       if src_size + 1 > length src then
         Some (GOTO_DONE mode dst_end []
           ((MBSTATE_SETCOUNT mb (src_size + 1 - length src) src_size)\<lparr>mb_wch := fst (read_bytes (length src) 0 src)\<rparr>) dst buf)
       else if \<not> libc_utf8_check (take (src_size + 1) src) then
         u32_err (\<lambda>a b c d. utf8to32_loop mode dst_end a b c d) mode dst_end src mb dst buf
       else
         u32_got_char (\<lambda>a b c d. utf8to32_loop mode dst_end a b c d) mode dst_end src_size
           (fst (read_bytes (src_size + 1) 0 src)) (snd (read_bytes (src_size + 1) 0 src)) mb dst buf)"

definition libc_utf8to32 :: "8 word list \<Rightarrow> nat \<Rightarrow> mbstate \<Rightarrow> nat \<Rightarrow> (nat \<Rightarrow> 32 word) \<Rightarrow> (8 word, 32 word) conv option" where
  "libc_utf8to32 utf8 buflen32 state mode buf =
    (if \<not> MBSTATE_ISEMPTY state then
       if length utf8 < MBSTATE_GETMISSING state then Some (GOTO_DONE mode buflen32 utf8 state 0 buf)
       else
         let n = (if MBSTATE_GETMISSING state \<le> 5 then MBSTATE_GETMISSING state else 0);
             (ch, src) = read_bytes n (mb_wch state) utf8 in
         u32_got_char (utf8to32_loop mode buflen32) mode buflen32 (MBSTATE_GETSRCSIZE state) ch src (state\<lparr>mb_count := 0\<rparr>) 0 buf
     else utf8to32_loop mode buflen32 utf8 state 0 buf)"


text \<open>\<open>utf8to16\<close> differs in what it stores.\<close>
definition u16_put_char :: "16 word uloop \<Rightarrow> nat \<Rightarrow> nat \<Rightarrow> 32 word \<Rightarrow> 16 word uloop" where
  "u16_put_char loop mode dst_end ch src mb dst buf =
    (if flag mode UNICODE_F_DOSINGLE then Some (conv_end mode dst_end src mb (dst + 1) (put dst_end dst (ucast ch) buf))
     else loop src mb (dst + 1) (put dst_end dst (ucast ch) buf))"

definition u16_err :: "16 word uloop \<Rightarrow> nat \<Rightarrow> nat \<Rightarrow> 16 word uloop" where
  "u16_err loop mode dst_end src mb dst buf =
    (if flag mode UNICODE_F_NOFAIL then u16_put_char loop mode dst_end (word_of_nat UNICODE_REPLACEMENT) src mb dst buf
     else Some (conv_fail mode src mb buf))"

definition u16_put_pair :: "16 word uloop \<Rightarrow> nat \<Rightarrow> nat \<Rightarrow> nat \<Rightarrow> 32 word \<Rightarrow> 16 word uloop" where
  "u16_put_pair loop mode dst_end src_size ch src mb dst buf =
    (let ch = ch - UNI_HALF_BASE;
         buf = put dst_end dst (ucast (drop_bit UNI_HALF_SHIFT ch + UNI_SURROGATE_HIGH_BEGIN)) buf;
         dst = dst + 1 in
     if \<not> dst < dst_end \<and> flag mode UNICODE_F_UTF16HALF then
       let buf = (if \<not> flag mode UNICODE_F_NOZEROTERM then put dst_end dst 0 buf else buf) in
       Some \<lparr>cv_res = UNI_HALF, cv_src = src,
         cv_mb = (MBSTATE_SETCOUNT mb 0 src_size)\<lparr>mb_wch := ((ch AND UNI_HALF_MASK) + UNI_HALF_BASE) + utf8_offsets ! src_size\<rparr>, cv_buf = buf\<rparr>
     else
       let buf = put dst_end dst (ucast ((ch AND UNI_HALF_MASK) + UNI_SURROGATE_LOW_BEGIN)) buf; dst = dst + 1 in
       if flag mode UNICODE_F_DOSINGLE then Some (conv_end mode dst_end src mb dst buf) else loop src mb dst buf)"

definition u16_got_char :: "16 word uloop \<Rightarrow> nat \<Rightarrow> nat \<Rightarrow> nat \<Rightarrow> 32 word \<Rightarrow> 16 word uloop" where
  "u16_got_char loop mode dst_end src_size ch src mb dst buf =
    (let ch = ch - utf8_offsets ! src_size in
     if ch \<le> UNI_MAX_BMP then
       if UNI_SURROGATE_HIGH_BEGIN \<le> ch \<and> ch \<le> UNI_SURROGATE_LOW_END then u16_err loop mode dst_end src mb dst buf
       else u16_put_char loop mode dst_end ch src mb dst buf
     else if ch > UNI_MAX_UTF16 then u16_err loop mode dst_end src mb dst buf
     else u16_put_pair loop mode dst_end src_size ch src mb dst buf)"

lemma u16_mono [partial_function_mono]:
  fixes k :: "('b \<Rightarrow> 'c option) \<Rightarrow> 16 word uloop"
  assumes "\<And>a b c d. mono_option (\<lambda>f. k f a b c d)"
  shows "mono_option (\<lambda>f. u16_err (k f) mode dst_end src mb dst buf)"
    and "mono_option (\<lambda>f. u16_got_char (k f) mode dst_end n ch src mb dst buf)"
proof -
  have p: "mono_option (\<lambda>f. u16_put_char (k f) mode dst_end ch src mb dst buf)" for ch
    unfolding u16_put_char_def by (intro assms partial_function_mono)
  have q: "mono_option (\<lambda>f. u16_put_pair (k f) mode dst_end n ch src mb dst buf)" for ch
    unfolding u16_put_pair_def Let_def by (intro assms partial_function_mono)
  show e: "mono_option (\<lambda>f. u16_err (k f) mode dst_end src mb dst buf)"
    unfolding u16_err_def by (intro p partial_function_mono)
  show "mono_option (\<lambda>f. u16_got_char (k f) mode dst_end n ch src mb dst buf)"
    unfolding u16_got_char_def Let_def by (intro p q e partial_function_mono)
qed

partial_function (option) utf8to16_loop :: "nat \<Rightarrow> nat \<Rightarrow> 16 word uloop" where
  "utf8to16_loop mode dst_end src mb dst buf =
    (if src = [] \<or> (flag mode UNICODE_F_STOPONNUL \<and> hd src = 0) then Some (conv_end mode dst_end src mb dst buf)
     else
       let src_size = utf8_trailing_bytes ! unat (hd src) in
       if src_size + 1 > length src then
         Some (GOTO_DONE mode dst_end []
           ((MBSTATE_SETCOUNT mb (src_size + 1 - length src) src_size)\<lparr>mb_wch := fst (read_bytes (length src) 0 src)\<rparr>) dst buf)
       else if \<not> libc_utf8_check (take (src_size + 1) src) then
         u16_err (\<lambda>a b c d. utf8to16_loop mode dst_end a b c d) mode dst_end src mb dst buf
       else
         u16_got_char (\<lambda>a b c d. utf8to16_loop mode dst_end a b c d) mode dst_end src_size
           (fst (read_bytes (src_size + 1) 0 src)) (snd (read_bytes (src_size + 1) 0 src)) mb dst buf)"

definition libc_utf8to16 :: "8 word list \<Rightarrow> nat \<Rightarrow> mbstate \<Rightarrow> nat \<Rightarrow> (nat \<Rightarrow> 16 word) \<Rightarrow> (8 word, 16 word) conv option" where
  "libc_utf8to16 utf8 buflen16 state mode buf =
    (if \<not> MBSTATE_ISEMPTY state then
       if length utf8 < MBSTATE_GETMISSING state then Some (GOTO_DONE mode buflen16 utf8 state 0 buf)
       else
         let n = (if MBSTATE_GETMISSING state \<le> 5 then MBSTATE_GETMISSING state else 0);
             (ch, src) = read_bytes n (mb_wch state) utf8 in
         u16_got_char (utf8to16_loop mode buflen16) mode buflen16 (MBSTATE_GETSRCSIZE state) ch src (state\<lparr>mb_count := 0\<rparr>) 0 buf
     else utf8to16_loop mode buflen16 utf8 state 0 buf)"

subsection \<open>To UTF-8\<close>

definition cont_byte :: "32 word \<Rightarrow> 8 word" where "cont_byte ch = ucast ((ch OR 0x80) AND 0xBF)"
definition lead_byte :: "nat \<Rightarrow> 32 word \<Rightarrow> 8 word" where "lead_byte dst_size ch = ucast (ch OR word_of_nat (uni_bytemarks ! dst_size))"

definition utf8_size :: "32 word \<Rightarrow> nat option" where
  "utf8_size ch = (if ch < 0x80 then Some 1 else if ch < 0x800 then Some 2 else if ch < 0x10000 then Some 3
    else if ch \<le> UNI_MAX_LEGAL_UTF32 then Some 4 else None)"

text \<open>The switch of \<open>utf32to8\<close>; note that a stored byte advances \<open>dst\<close> twice.\<close>
fun u32_emit :: "nat \<Rightarrow> nat \<Rightarrow> nat \<Rightarrow> 32 word \<Rightarrow> nat \<Rightarrow> (nat \<Rightarrow> 8 word) \<Rightarrow> nat \<times> (nat \<Rightarrow> 8 word)" where
  "u32_emit dst_end dst_size 0 ch dst buf = (dst, buf)"
| "u32_emit dst_end dst_size (Suc 0) ch dst buf = (dst + 1, put dst_end dst (lead_byte dst_size ch) buf)"
| "u32_emit dst_end dst_size (Suc (Suc n)) ch dst buf =
    (let (dst', buf') = (if dst < dst_end then (dst + 1, buf(dst := cont_byte ch)) else (dst, buf)) in
     u32_emit dst_end dst_size (Suc n) (drop_bit 6 ch) (dst' + 1) buf')"

fun utf32to8_loop :: "nat \<Rightarrow> nat \<Rightarrow> mbstate \<Rightarrow> 32 word list \<Rightarrow> nat \<Rightarrow> (nat \<Rightarrow> 8 word) \<Rightarrow> (32 word, 8 word) conv" where
  "utf32to8_loop mode dst_end mb [] dst buf = conv_end mode dst_end [] mb dst buf"
| "utf32to8_loop mode dst_end mb (ch # src) dst buf =
    (if ch = 0 \<and> flag mode UNICODE_F_STOPONNUL then conv_end mode dst_end src mb dst buf
     else
       case (if UNI_SURROGATE_HIGH_BEGIN \<le> ch \<and> ch \<le> UNI_SURROGATE_LOW_END then None else utf8_size ch) of
         None \<Rightarrow>
           if flag mode UNICODE_F_NOFAIL then
             let buf = put dst_end dst (word_of_nat UNICODE_REPLACEMENT) buf in
             if flag mode UNICODE_F_DOSINGLE then conv_end mode dst_end src mb (dst + 1) buf
             else utf32to8_loop mode dst_end mb src (dst + 1) buf
           else conv_fail mode src mb buf
       | Some dst_size \<Rightarrow>
           let (dst, buf) = u32_emit dst_end dst_size dst_size ch dst buf in
           if flag mode UNICODE_F_DOSINGLE then conv_end mode dst_end src mb dst buf
           else utf32to8_loop mode dst_end mb src dst buf)"

definition libc_utf32to8 :: "32 word list \<Rightarrow> nat \<Rightarrow> mbstate \<Rightarrow> nat \<Rightarrow> (nat \<Rightarrow> 8 word) \<Rightarrow> (32 word, 8 word) conv" where
  "libc_utf32to8 utf32 buflen8 state mode buf = utf32to8_loop mode buflen8 state utf32 0 buf"

text \<open>The switch of \<open>utf16to8\<close> stores backwards from \<open>temp\<close>.\<close>
fun u16_emit :: "nat \<Rightarrow> nat \<Rightarrow> nat \<Rightarrow> 32 word \<Rightarrow> nat \<Rightarrow> (nat \<Rightarrow> 8 word) \<Rightarrow> nat \<Rightarrow> 8 word" where
  "u16_emit dst_end dst_size 0 ch temp buf = buf"
| "u16_emit dst_end dst_size (Suc 0) ch temp buf = (if temp < dst_end then buf(temp - 1 := lead_byte dst_size ch) else buf)"
| "u16_emit dst_end dst_size (Suc (Suc n)) ch temp buf =
    u16_emit dst_end dst_size (Suc n) (drop_bit 6 ch) (temp - 1) (if temp < dst_end then buf(temp - 1 := cont_byte ch) else buf)"

definition high_surrogate :: "32 word \<Rightarrow> bool" where
  "high_surrogate ch \<longleftrightarrow> \<not> (ch < UNI_SURROGATE_HIGH_BEGIN \<or> ch > UNI_SURROGATE_HIGH_END)"
definition low_surrogate :: "32 word \<Rightarrow> bool" where
  "low_surrogate ch \<longleftrightarrow> \<not> (ch < UNI_SURROGATE_LOW_BEGIN \<or> ch > UNI_SURROGATE_LOW_END)"
definition join_pair :: "32 word \<Rightarrow> 32 word \<Rightarrow> 32 word" where
  "join_pair ch ch2 = push_bit UNI_HALF_SHIFT (ch - UNI_SURROGATE_HIGH_BEGIN) + (ch2 - UNI_SURROGATE_LOW_BEGIN) + UNI_HALF_BASE"

definition utf16_size :: "32 word \<Rightarrow> nat option" where
  "utf16_size ch = (if ch < 0x80 then Some 1 else if ch < 0x800 then Some 2 else if ch < 0x10000 then Some 3
    else if ch < 0x110000 then Some 4 else None)"

text \<open>
  One round of the loop of \<open>utf16to8\<close> from \<open>second_char\<close> on: the code point, or None for \<open>err\<close>, and the unread source.
\<close>
definition second_char :: "32 word \<Rightarrow> 16 word list \<Rightarrow> 32 word option \<times> 16 word list" where
  "second_char ch src = (if low_surrogate (ucast (hd src)) then (Some (join_pair ch (ucast (hd src))), tl src) else (None, src))"

type_synonym wloop = "16 word list \<Rightarrow> nat \<Rightarrow> (nat \<Rightarrow> 8 word) \<Rightarrow> (16 word, 8 word) conv option"

definition utf16to8_char :: "wloop \<Rightarrow> nat \<Rightarrow> nat \<Rightarrow> mbstate \<Rightarrow> 32 word option \<times> 16 word list \<Rightarrow> nat \<Rightarrow> (nat \<Rightarrow> 8 word) \<Rightarrow> (16 word, 8 word) conv option" where
  "utf16to8_char loop mode dst_end mb x dst buf = (case x of (cp, src) \<Rightarrow>
    (case Option.bind cp (\<lambda>ch. map_option (Pair ch) (utf16_size ch)) of
       None \<Rightarrow>
         if flag mode UNICODE_F_NOFAIL then
           let buf = put dst_end dst (word_of_nat UNICODE_REPLACEMENT) buf in
           if flag mode UNICODE_F_DOSINGLE then Some (conv_end mode dst_end src mb (dst + 1) buf)
           else loop src (dst + 1) buf
         else Some (conv_fail mode src mb buf)
     | Some (ch, dst_size) \<Rightarrow>
         let dst = dst + dst_size; buf = u16_emit dst_end dst_size dst_size ch dst buf in
         if flag mode UNICODE_F_DOSINGLE then Some (conv_end mode dst_end src mb dst buf)
         else loop src dst buf))"

lemma utf16to8_char_mono [partial_function_mono]:
  fixes k :: "('b \<Rightarrow> 'c option) \<Rightarrow> wloop"
  assumes "\<And>a b c. mono_option (\<lambda>f. k f a b c)"
  shows "mono_option (\<lambda>f. utf16to8_char (k f) mode dst_end mb x dst buf)"
proof -
  obtain cp src where x: "x = (cp, src)" by (cases x)
  show ?thesis
  proof (cases "Option.bind cp (\<lambda>ch. map_option (Pair ch) (utf16_size ch))")
    case None
    show ?thesis unfolding utf16to8_char_def Let_def x prod.case None option.case by (intro assms partial_function_mono)
  next
    case (Some p)
    obtain ch n where p: "p = (ch, n)" by (cases p)
    show ?thesis unfolding utf16to8_char_def Let_def x prod.case Some p option.case by (intro assms partial_function_mono)
  qed
qed

partial_function (option) utf16to8_loop :: "nat \<Rightarrow> nat \<Rightarrow> mbstate \<Rightarrow> wloop" where
  "utf16to8_loop mode dst_end mb src dst buf =
    (case src of
       [] \<Rightarrow> Some (conv_end mode dst_end [] mb dst buf)
     | c # src \<Rightarrow>
         if c = 0 \<and> flag mode UNICODE_F_STOPONNUL then Some (conv_end mode dst_end src mb dst buf)
         else if \<not> high_surrogate (ucast c) then
           utf16to8_char (\<lambda>a b c. utf16to8_loop mode dst_end mb a b c) mode dst_end mb (None, src) dst buf
         else if src \<noteq> [] then
           utf16to8_char (\<lambda>a b c. utf16to8_loop mode dst_end mb a b c) mode dst_end mb (second_char (ucast c) src) dst buf
         else Some (GOTO_DONE mode dst_end [] \<lparr>mb_count = 2, mb_wch = ucast c\<rparr> dst buf))"

definition libc_utf16to8 :: "16 word list \<Rightarrow> nat \<Rightarrow> mbstate \<Rightarrow> nat \<Rightarrow> (nat \<Rightarrow> 8 word) \<Rightarrow> (16 word, 8 word) conv option" where
  "libc_utf16to8 utf16 buflen8 state mode buf =
    (if mb_count state \<noteq> 0 then
       if utf16 = [] then Some (GOTO_DONE mode buflen8 [] state 0 buf)
       else
         let state = state\<lparr>mb_count := 0\<rparr> in
         utf16to8_char (utf16to8_loop mode buflen8 state) mode buflen8 state (second_char (mb_wch state) utf16) 0 buf
     else utf16to8_loop mode buflen8 state utf16 0 buf)"


subsection \<open>Conversion into a printer\<close>

text \<open>The bytes of the local buffer: from its start up to \<open>iter\<close>, which the 16-bit version moves backwards.\<close>
fun emit_forward :: "nat \<Rightarrow> nat \<Rightarrow> 32 word \<Rightarrow> 8 word list" where
  "emit_forward dst_size 0 ch = []"
| "emit_forward dst_size (Suc 0) ch = [lead_byte dst_size ch]"
| "emit_forward dst_size (Suc (Suc n)) ch = cont_byte ch # emit_forward dst_size (Suc n) (drop_bit 6 ch)"

fun emit_backward :: "nat \<Rightarrow> nat \<Rightarrow> 32 word \<Rightarrow> 8 word list \<times> nat" where
  "emit_backward dst_size 0 ch = ([], 0)"
| "emit_backward dst_size (Suc 0) ch = ([lead_byte dst_size ch], 0)"
| "emit_backward dst_size (Suc (Suc n)) ch =
    (let (l, iter) = emit_backward dst_size (Suc n) (drop_bit 6 ch) in (l @ [cont_byte ch], iter))"

type_synonym 's printer = "8 word list \<Rightarrow> 's \<Rightarrow> int \<times> 's"

fun format_32_loop :: "'s printer \<Rightarrow> nat \<Rightarrow> 32 word list \<Rightarrow> int \<Rightarrow> 's \<Rightarrow> int \<times> 's" where
  "format_32_loop printer mode [] result closure = (result, closure)"
| "format_32_loop printer mode (ch # c32) result closure =
    (case (if UNI_SURROGATE_HIGH_BEGIN \<le> ch \<and> ch \<le> UNI_SURROGATE_LOW_END then None else utf8_size ch) of
       None \<Rightarrow>
         if flag mode UNICODE_F_NOFAIL then
           let (temp, closure) = printer [word_of_nat UNICODE_REPLACEMENT] closure in
           if temp < 0 then (temp, closure) else format_32_loop printer mode c32 (result + temp) closure
         else (-1, closure)
     | Some dst_size \<Rightarrow>
         let (temp, closure) = printer (emit_forward dst_size dst_size ch) closure in
         if temp < 0 then (temp, closure) else format_32_loop printer mode c32 (result + temp) closure)"

definition libc_format_32wsztomb :: "'s printer \<Rightarrow> 's \<Rightarrow> 32 word list \<Rightarrow> mbstate \<Rightarrow> nat \<Rightarrow> int \<times> 's" where
  "libc_format_32wsztomb printer closure c32 ps mode = format_32_loop printer mode c32 0 closure"

text \<open>One character of the 16-bit version; None is \<open>err\<close>.\<close>
definition print16 :: "'s printer \<Rightarrow> nat \<Rightarrow> 32 word option \<Rightarrow> 's \<Rightarrow> (int \<times> 's) option" where
  "print16 printer mode cp closure =
    (case Option.bind cp (\<lambda>ch. map_option (Pair ch) (utf16_size ch)) of
       None \<Rightarrow> if flag mode UNICODE_F_NOFAIL then Some (printer [word_of_nat UNICODE_REPLACEMENT] closure) else None
     | Some (ch, dst_size) \<Rightarrow> (let (b, iter) = emit_backward dst_size dst_size ch in Some (printer (take iter b) closure)))"

function format_16_loop :: "'s printer \<Rightarrow> nat \<Rightarrow> mbstate \<Rightarrow> 16 word list \<Rightarrow> int \<Rightarrow> 's \<Rightarrow> int \<times> 's \<times> mbstate" where
  "format_16_loop printer mode ps [] result closure = (result, closure, ps)"
| "format_16_loop printer mode ps (c # c16) result closure =
    (if high_surrogate (ucast c) \<and> c16 = [] then (result, closure, \<lparr>mb_count = 2, mb_wch = ucast c\<rparr>)
     else
       let (cp, c16') = (if high_surrogate (ucast c) then second_char (ucast c) c16 else (None, c16)) in
       case print16 printer mode cp closure of
         None \<Rightarrow> (-1, closure, ps)
       | Some (temp, closure) \<Rightarrow>
           if temp < 0 then (temp, closure, ps) else format_16_loop printer mode ps c16' (result + temp) closure)"
  by pat_completeness auto
termination
  by (relation "measure (\<lambda>(_, _, _, c16, _, _). length c16)") (auto simp: second_char_def split: if_splits)

definition libc_format_16wsztomb :: "'s printer \<Rightarrow> 's \<Rightarrow> 16 word list \<Rightarrow> mbstate \<Rightarrow> nat \<Rightarrow> int \<times> 's \<times> mbstate" where
  "libc_format_16wsztomb printer closure c16 ps mode =
    (if mb_count ps \<noteq> 0 then
       if c16 = [] then (0, closure, ps)
       else
         let ps = ps\<lparr>mb_count := 0\<rparr>; (cp, c16) = second_char (mb_wch ps) c16 in
         case print16 printer mode cp closure of
           None \<Rightarrow> (-1, closure, ps)
         | Some (temp, closure) \<Rightarrow> if temp < 0 then (temp, closure, ps) else format_16_loop printer mode ps c16 temp closure
     else format_16_loop printer mode ps c16 0 closure)"

definition libc_format_16wsntomb :: "'s printer \<Rightarrow> 's \<Rightarrow> 16 word list \<Rightarrow> nat \<Rightarrow> mbstate \<Rightarrow> nat \<Rightarrow> int \<times> 's \<times> mbstate" where
  "libc_format_16wsntomb printer closure c16 c16max ps mode =
    libc_format_16wsztomb printer closure (takeWhile (\<lambda>c. c \<noteq> 0) (take c16max c16)) ps mode"
definition libc_format_32wsntomb :: "'s printer \<Rightarrow> 's \<Rightarrow> 32 word list \<Rightarrow> nat \<Rightarrow> mbstate \<Rightarrow> nat \<Rightarrow> int \<times> 's" where
  "libc_format_32wsntomb printer closure c32 c32max ps mode =
    libc_format_32wsztomb printer closure (takeWhile (\<lambda>c. c \<noteq> 0) (take c32max c32)) ps mode"

subsection \<open>Conversion into fresh memory\<close>

text \<open>\<open>fits\<close> is the success of \<open>realloc\<close>; the outer None is a call that does not return, the inner one NULL.\<close>
partial_function (option) ms_again :: "(nat \<Rightarrow> ('s, 'd) conv option) \<Rightarrow> (nat \<Rightarrow> bool) \<Rightarrow> nat \<Rightarrow> 'd list option option" where
  "ms_again convert fits buflen =
    do { r \<leftarrow> convert buflen;
         case cv_res r of
           UNI_LEN reqlen \<Rightarrow>
             if reqlen \<noteq> buflen then
               if \<not> fits reqlen then Some None
               else if reqlen > buflen then ms_again convert fits reqlen
               else Some (Some (map (cv_buf r) [0..<reqlen]))
             else Some (Some (map (cv_buf r) [0..<reqlen]))
         | _ \<Rightarrow> Some None }"

abbreviation (input) MBSTATE_INIT :: mbstate where "MBSTATE_INIT \<equiv> \<lparr>mb_count = 0, mb_wch = 0\<rparr>"

definition libc_utf8to16ms :: "(nat \<Rightarrow> bool) \<Rightarrow> (nat \<Rightarrow> 16 word) \<Rightarrow> 8 word list \<Rightarrow> 16 word list option option" where
  "libc_utf8to16ms fits junk utf8 = (let buflen = length utf8 + length utf8 div 3 + 1 in
    if \<not> fits buflen then Some None else ms_again (\<lambda>n. libc_utf8to16 utf8 n MBSTATE_INIT 0 junk) fits buflen)"
definition libc_utf8to32ms :: "(nat \<Rightarrow> bool) \<Rightarrow> (nat \<Rightarrow> 32 word) \<Rightarrow> 8 word list \<Rightarrow> 32 word list option option" where
  "libc_utf8to32ms fits junk utf8 = (let buflen = length utf8 + length utf8 div 3 + 1 in
    if \<not> fits buflen then Some None else ms_again (\<lambda>n. libc_utf8to32 utf8 n MBSTATE_INIT 0 junk) fits buflen)"
definition libc_utf16to8ms :: "(nat \<Rightarrow> bool) \<Rightarrow> (nat \<Rightarrow> 8 word) \<Rightarrow> 16 word list \<Rightarrow> 8 word list option option" where
  "libc_utf16to8ms fits junk utf16 = (let buflen = length utf16 + 1 in
    if \<not> fits buflen then Some None else ms_again (\<lambda>n. libc_utf16to8 utf16 n MBSTATE_INIT 0 junk) fits buflen)"
definition libc_utf32to8ms :: "(nat \<Rightarrow> bool) \<Rightarrow> (nat \<Rightarrow> 8 word) \<Rightarrow> 32 word list \<Rightarrow> 8 word list option option" where
  "libc_utf32to8ms fits junk utf32 = (let buflen = length utf32 + 1 in
    if \<not> fits buflen then Some None else ms_again (\<lambda>n. Some (libc_utf32to8 utf32 n MBSTATE_INIT 0 junk)) fits buflen)"


subsection \<open>The encoding\<close>

definition scalar :: "nat \<Rightarrow> bool" where
  "scalar c \<longleftrightarrow> c < 0x110000 \<and> \<not> (0xD800 \<le> c \<and> c \<le> 0xDFFF)"

definition utf8_nats :: "nat \<Rightarrow> nat list" where
  "utf8_nats c = (if c < 0x80 then [c]
    else if c < 0x800 then [0xC0 + c div 64, 0x80 + c mod 64]
    else if c < 0x10000 then [0xE0 + c div 4096, 0x80 + c div 64 mod 64, 0x80 + c mod 64]
    else [0xF0 + c div 262144, 0x80 + c div 4096 mod 64, 0x80 + c div 64 mod 64, 0x80 + c mod 64])"

definition utf8_bytes :: "nat \<Rightarrow> 8 word list" where
  "utf8_bytes c = map word_of_nat (utf8_nats c)"

lemma unat_byte: "n < 256 \<Longrightarrow> unat (word_of_nat n :: 8 word) = n"
  by (simp add: unsigned_of_nat take_bit_nat_eq_self)

lemma ucast_byte: "n < 256 \<Longrightarrow> (ucast (word_of_nat n :: 8 word) :: 32 word) = word_of_nat n"
  by (metis unat_byte of_nat_unat)

lemma byte_less: "n < 256 \<Longrightarrow> (word_of_nat n :: 8 word) < b \<longleftrightarrow> n < unat b" "n < 256 \<Longrightarrow> b < (word_of_nat n :: 8 word) \<longleftrightarrow> unat b < n"
  by (simp_all add: word_less_nat_alt unat_byte)

lemma byte_le: "n < 256 \<Longrightarrow> b \<le> (word_of_nat n :: 8 word) \<longleftrightarrow> unat b \<le> n"
  by (simp add: word_le_nat_alt unat_byte)

lemma byte_eq: "n < 256 \<Longrightarrow> (word_of_nat n :: 8 word) = b \<longleftrightarrow> n = unat b"
  by (metis unat_byte of_nat_unat ucast_id)

lemma trailing_table:
  "n < 192 \<Longrightarrow> utf8_trailing_bytes ! n = 0"
  "192 \<le> n \<Longrightarrow> n < 224 \<Longrightarrow> utf8_trailing_bytes ! n = 1"
  "224 \<le> n \<Longrightarrow> n < 240 \<Longrightarrow> utf8_trailing_bytes ! n = 2"
  "240 \<le> n \<Longrightarrow> n < 248 \<Longrightarrow> utf8_trailing_bytes ! n = 3"
  by (auto simp: utf8_trailing_bytes_def nth_append)

lemma digits64:
  fixes c :: nat
  shows "c = 64 * (c div 64) + c mod 64" "c div 64 = 64 * (c div 4096) + c div 64 mod 64"
    "c div 4096 = 64 * (c div 262144) + c div 4096 mod 64"
  using div_mult2_eq [of c 64 64] div_mult2_eq [of c 4096 64] by simp_all

lemma utf8_bytes_decode:
  assumes "scalar c"
  shows "\<exists>n. length (utf8_bytes c) = Suc n \<and> utf8_trailing_bytes ! unat (hd (utf8_bytes c)) = n \<and> libc_utf8_check (utf8_bytes c) \<and>
    fst (read_bytes (Suc n) 0 (utf8_bytes c @ rest)) - utf8_offsets ! n = word_of_nat c \<and> snd (read_bytes (Suc n) 0 (utf8_bytes c @ rest)) = rest"
proof -
  define z where "z = c mod 64"
  define y where "y = c div 64 mod 64"
  define x where "x = c div 4096 mod 64"
  define w where "w = c div 262144"
  have lt: "z < 64" "y < 64" "x < 64" by (simp_all add: z_def y_def x_def)
  have c1: "c div 64 = 64 * (c div 4096) + y" "c = 64 * (c div 64) + z" "c div 4096 = 64 * w + x"
    using digits64 [of c] by (simp_all add: x_def y_def z_def w_def)
  consider "c < 0x80" | "0x80 \<le> c" "c < 0x800" | "0x800 \<le> c" "c < 0x10000" | "0x10000 \<le> c" "c < 0x110000"
    using assms by (force simp: scalar_def)
  thus ?thesis
  proof cases
    case 1
    thus ?thesis by (simp add: utf8_bytes_def utf8_nats_def unat_byte ucast_byte trailing_table libc_utf8_check_def lead_ok_def byte_less byte_le
        utf8_offsets_def)
  next
    case 2
    have q: "c div 64 < 32" "2 \<le> c div 64" using 2 by simp_all
    have b: "utf8_bytes c = [word_of_nat (192 + c div 64), word_of_nat (128 + z)]" using 2 by (simp add: utf8_bytes_def utf8_nats_def z_def)
    have "push_bit 6 (word_of_nat (192 + c div 64)) + word_of_nat (128 + z) - 0x3080 = (word_of_nat c :: 32 word)"
      using arg_cong [OF c1(2), of "word_of_nat :: nat \<Rightarrow> 32 word"] by (simp add: push_bit_eq_mult algebra_simps)
    thus ?thesis using q lt unfolding b
      by (simp add: unat_byte ucast_byte trailing_table libc_utf8_check_def lead_ok_def contb_def second_ok_def byte_less byte_le byte_eq
          utf8_offsets_def del: of_nat_add)
  next
    case 3
    have q: "c div 4096 < 16" using 3 by simp
    have b: "utf8_bytes c = [word_of_nat (224 + c div 4096), word_of_nat (128 + y), word_of_nat (128 + z)]"
      using 3 by (simp add: utf8_bytes_def utf8_nats_def y_def z_def)
    have e: "c = 4096 * (c div 4096) + 64 * y + z" using c1 by linarith
    have "push_bit 6 (push_bit 6 (word_of_nat (224 + c div 4096)) + word_of_nat (128 + y)) + word_of_nat (128 + z) - 0xE2080 = (word_of_nat c :: 32 word)"
      using arg_cong [OF e, of "word_of_nat :: nat \<Rightarrow> 32 word"] by (simp add: push_bit_eq_mult algebra_simps)
    moreover have "c div 4096 = 0 \<longrightarrow> \<not> y < 32" "c div 4096 = 13 \<longrightarrow> \<not> 31 < y"
      using e lt 3 assms by (auto simp: scalar_def)
    ultimately show ?thesis using q lt unfolding b
      by (simp add: unat_byte ucast_byte trailing_table libc_utf8_check_def lead_ok_def contb_def second_ok_def byte_less byte_le byte_eq
          utf8_offsets_def del: of_nat_add)
  next
    case 4
    have e: "c = 262144 * w + 4096 * x + 64 * y + z" using c1 by linarith
    have q: "w < 5" using e 4 by linarith
    have b: "utf8_bytes c = [word_of_nat (240 + w), word_of_nat (128 + x), word_of_nat (128 + y), word_of_nat (128 + z)]"
      using 4 by (simp add: utf8_bytes_def utf8_nats_def w_def x_def y_def z_def)
    have "push_bit 6 (push_bit 6 (push_bit 6 (word_of_nat (240 + w)) + word_of_nat (128 + x)) + word_of_nat (128 + y)) + word_of_nat (128 + z) - 0x3C82080
      = (word_of_nat c :: 32 word)"
      using arg_cong [OF e, of "word_of_nat :: nat \<Rightarrow> 32 word"] by (simp add: push_bit_eq_mult algebra_simps)
    moreover have "w = 0 \<longrightarrow> \<not> x < 16" "w = 4 \<longrightarrow> \<not> 15 < x"
      using e lt 4 by linarith+
    ultimately show ?thesis using q lt unfolding b
      by (simp add: unat_byte ucast_byte trailing_table libc_utf8_check_def lead_ok_def contb_def second_ok_def byte_less byte_le byte_eq
          utf8_offsets_def numeral_3_eq_3 del: of_nat_add)
  qed
qed


definition plain_mode :: "nat \<Rightarrow> bool" where
  "plain_mode mode \<longleftrightarrow> \<not> flag mode UNICODE_F_DOSINGLE \<and> \<not> flag mode UNICODE_F_STOPONNUL"

lemma scalar_word:
  assumes "scalar c"
  shows "\<not> word_of_nat c > UNI_MAX_LEGAL_UTF32" "\<not> (UNI_SURROGATE_HIGH_BEGIN \<le> word_of_nat c \<and> word_of_nat c \<le> UNI_SURROGATE_LOW_END)"
proof -
  have "unat (word_of_nat c :: 32 word) = c" using assms by (simp add: scalar_def unsigned_of_nat take_bit_nat_eq_self)
  thus "\<not> word_of_nat c > UNI_MAX_LEGAL_UTF32" "\<not> (UNI_SURROGATE_HIGH_BEGIN \<le> word_of_nat c \<and> word_of_nat c \<le> UNI_SURROGATE_LOW_END)"
    using assms by (simp_all add: scalar_def uni_defs word_less_nat_alt word_le_nat_alt)
qed

lemma utf8to32_step:
  assumes "scalar c" "plain_mode mode"
  shows "utf8to32_loop mode e (utf8_bytes c @ rest) mb dst buf = utf8to32_loop mode e rest mb (dst + 1) (put e dst (word_of_nat c) buf)"
proof -
  obtain n where n: "length (utf8_bytes c) = Suc n" "utf8_trailing_bytes ! unat (hd (utf8_bytes c)) = n" "libc_utf8_check (utf8_bytes c)"
    "fst (read_bytes (Suc n) 0 (utf8_bytes c @ rest)) - utf8_offsets ! n = word_of_nat c" "snd (read_bytes (Suc n) 0 (utf8_bytes c @ rest)) = rest"
    using utf8_bytes_decode [OF assms(1)] by blast
  have ne: "utf8_bytes c \<noteq> []" "hd (utf8_bytes c @ rest) = hd (utf8_bytes c)" using n(1) by (auto simp: hd_append)
  show ?thesis
    using assms(2) n ne scalar_word [OF assms(1)]
    by (subst utf8to32_loop.simps) (auto simp: plain_mode_def u32_got_char_def u32_put_char_def Let_def)
qed

lemma utf8to32_loop_decodes:
  "\<forall>c \<in> set cs. scalar c \<Longrightarrow> plain_mode mode \<Longrightarrow>
    utf8to32_loop mode e (concat (map utf8_bytes cs)) mb dst buf =
      Some (conv_end mode e [] mb (dst + length cs) (\<lambda>i. if dst \<le> i \<and> i < dst + length cs \<and> i < e then word_of_nat (cs ! (i - dst)) else buf i))"
proof (induction cs arbitrary: dst buf)
  case Nil
  have "(\<lambda>i. if dst \<le> i \<and> i < dst \<and> i < e then word_of_nat ([] ! (i - dst)) else buf i) = buf" by (auto simp: fun_eq_iff)
  thus ?case by (subst utf8to32_loop.simps) simp
next
  case (Cons c cs)
  have "put e dst (word_of_nat c) buf = (\<lambda>i. if i = dst \<and> i < e then word_of_nat c else buf i)" by (auto simp: put_def fun_eq_iff)
  moreover have "(\<lambda>i. if dst + 1 \<le> i \<and> i < dst + 1 + length cs \<and> i < e then word_of_nat (cs ! (i - (dst + 1)))
      else if i = dst \<and> i < e then word_of_nat c else buf i) =
    (\<lambda>i. if dst \<le> i \<and> i < dst + length (c # cs) \<and> i < e then word_of_nat ((c # cs) ! (i - dst)) else buf i)"
    by (auto simp: fun_eq_iff nth_Cons' le_Suc_eq)
  ultimately show ?case using Cons.IH [of "dst + 1"] Cons.prems by (simp add: utf8to32_step)
qed

lemma ms_again_fits:
  assumes "convert n = Some r" "cv_res r = UNI_LEN len" "len \<le> n" "fits len"
  shows "ms_again convert fits n = Some (Some (map (cv_buf r) [0..<len]))"
  using assms by (subst ms_again.simps) simp

lemma length_utf8_bytes: "length (concat (map utf8_bytes cs)) \<ge> length cs"
  by (induction cs) (auto simp: utf8_bytes_def utf8_nats_def)

text \<open>A continuation byte where a character should start, with \<open>UNICODE_F_NOFAIL\<close>.\<close>
definition stray :: "nat \<Rightarrow> 8 word list \<Rightarrow> bool" where
  "stray mode src \<longleftrightarrow> flag mode UNICODE_F_NOFAIL \<and> \<not> flag mode UNICODE_F_DOSINGLE \<and> src \<noteq> [] \<and> 0x80 \<le> hd src \<and> hd src < 0xC0"

lemma strayD: "stray mode src \<Longrightarrow> src \<noteq> [] \<and> flag mode UNICODE_F_NOFAIL \<and> \<not> flag mode UNICODE_F_DOSINGLE"
  by (simp add: stray_def)

lemma stray_check:
  assumes "stray mode src"
  shows "utf8_trailing_bytes ! unat (hd src) = 0" "\<not> libc_utf8_check (take (Suc 0) src)" "hd src \<noteq> 0"
proof -
  obtain a l where s: "src = a # l" using assms by (cases src) (simp_all add: stray_def)
  have "unat a < 192" using assms s by (simp add: stray_def word_less_nat_alt)
  thus "utf8_trailing_bytes ! unat (hd src) = 0" using s by (simp add: trailing_table)
  show "\<not> libc_utf8_check (take (Suc 0) src)" "hd src \<noteq> 0"
    using assms s by (auto simp: stray_def libc_utf8_check_def lead_ok_def word_less_nat_alt word_le_nat_alt)
qed

lemma utf8to32_returns_not_stray:
  assumes "utf8to32_loop mode e src mb dst buf = Some y"
  shows "\<not> stray mode src"
  by (rule utf8to32_loop.raw_induct [where P = "\<lambda>mode e src mb dst buf y. \<not> stray mode src", OF _ assms])
    (auto simp: u32_err_def u32_put_char_def stray_check Let_def dest: strayD split: if_splits)


lemma flag_0 [simp]: "\<not> flag 0 f"
  by simp

subsection \<open>Properties\<close>



text \<open>
  With \<open>UNICODE_F_NOFAIL\<close> the conversion does not return once a continuation byte stands where a character
  should start: the replacement is emitted without consuming the byte. And a character that is split between two calls is not
  put together: the second call reports an error for the two bytes of U+00E9.
\<close>
theorem utf8to32_stray_byte_diverges:
  assumes "flag mode UNICODE_F_NOFAIL" "\<not> flag mode UNICODE_F_DOSINGLE" "0x80 \<le> b" "b < 0xC0"
  shows "libc_utf8to32 (b # src) n MBSTATE_INIT mode buf = None \<and>
    (\<exists>r r'. libc_utf8to32 [0xC3] 1 MBSTATE_INIT UNICODE_F_NOZEROTERM (\<lambda>_. 0) = Some r \<and> cv_res r = UNI_LEN 0 \<and>
      libc_utf8to32 [0xA9] 1 (cv_mb r) UNICODE_F_NOZEROTERM (\<lambda>_. 0) = Some r' \<and> cv_res r' = UNI_ERROR False)"
proof (rule conjI)
  have "stray mode (b # src)" using assms by (simp add: stray_def)
  hence "utf8to32_loop mode n (b # src) MBSTATE_INIT 0 buf = None" using utf8to32_returns_not_stray by (metis not_None_eq)
  thus "libc_utf8to32 (b # src) n MBSTATE_INIT mode buf = None" by (simp add: libc_utf8to32_def MBSTATE_ISEMPTY_def)
  have t: "utf8_trailing_bytes ! 195 = Suc 0" using trailing_table(2) [of 195] by simp
  show "\<exists>r r'. libc_utf8to32 [0xC3] 1 MBSTATE_INIT UNICODE_F_NOZEROTERM (\<lambda>_. 0) = Some r \<and> cv_res r = UNI_LEN 0 \<and>
      libc_utf8to32 [0xA9] 1 (cv_mb r) UNICODE_F_NOZEROTERM (\<lambda>_. 0) = Some r' \<and> cv_res r' = UNI_ERROR False"
    by (simp add: libc_utf8to32_def MBSTATE_ISEMPTY_def utf8to32_loop.simps t GOTO_DONE_def conv_done_def MBSTATE_SETCOUNT_def
        MBSTATE_GETMISSING_def MBSTATE_GETSRCSIZE_def mode_defs u32_got_char_def utf8_offsets_def uni_defs u32_err_def conv_fail_def Let_def)
qed

theorem utf8to32_stray_byte_diverges_witness:
  "libc_utf8to32 [0x80] 10 MBSTATE_INIT UNICODE_F_NOFAIL (\<lambda>_. 0) = None"
  using utf8to32_stray_byte_diverges [where mode = UNICODE_F_NOFAIL and b = "0x80" and src = "[]" and n = 10 and buf = "\<lambda>_. 0"]
  by (simp add: mode_defs)


lemma ascii_emit:
  assumes "c < (0x80 :: 32 word)"
  shows "u32_emit e 1 1 c dst buf = (dst + 1, put e dst (ucast c) buf)" "utf8_size c = Some 1"
    "\<not> (UNI_SURROGATE_HIGH_BEGIN \<le> c \<and> c \<le> UNI_SURROGATE_LOW_END)"
  using assms by (auto simp: lead_byte_def uni_bytemarks_def utf8_size_def uni_defs word_le_nat_alt word_less_nat_alt)

lemma utf32to8_loop_ascii:
  "\<forall>c \<in> set cs. c < 0x80 \<Longrightarrow> plain_mode mode \<Longrightarrow>
    utf32to8_loop mode e mb cs dst buf =
      conv_end mode e [] mb (dst + length cs) (\<lambda>i. if dst \<le> i \<and> i < dst + length cs \<and> i < e then ucast (cs ! (i - dst)) else buf i)"
proof (induction cs arbitrary: dst buf)
  case Nil
  have "(\<lambda>i. if dst \<le> i \<and> i < dst \<and> i < e then ucast (([] :: 32 word list) ! (i - dst)) else buf i) = buf" by (auto simp: fun_eq_iff)
  thus ?case by simp
next
  case (Cons c cs)
  have st: "utf32to8_loop mode e mb (c # cs) dst buf = utf32to8_loop mode e mb cs (dst + 1) (put e dst (ucast c) buf)"
    using Cons.prems ascii_emit [of c] by (auto simp: plain_mode_def simp del: One_nat_def)
  have f: "(\<lambda>i. if dst + 1 \<le> i \<and> i < dst + 1 + length cs \<and> i < e then ucast (cs ! (i - (dst + 1))) else put e dst (ucast c) buf i) =
    (\<lambda>i. if dst \<le> i \<and> i < dst + length (c # cs) \<and> i < e then ucast ((c # cs) ! (i - dst)) else buf i)"
    by (auto simp: fun_eq_iff put_def nth_Cons' le_Suc_eq)
  have "utf32to8_loop mode e mb cs (dst + 1) (put e dst (ucast c) buf) = conv_end mode e [] mb (dst + 1 + length cs)
      (\<lambda>i. if dst + 1 \<le> i \<and> i < dst + 1 + length cs \<and> i < e then ucast (cs ! (i - (dst + 1))) else put e dst (ucast c) buf i)"
    by (rule Cons.IH) (use Cons.prems in simp_all)
  thus ?case unfolding st f by simp
qed

text \<open>
  \<open>utf32to8ms\<close> converts ASCII text. But \<open>utf32to8\<close> stores the two bytes of a character above it in reverse
  order with a gap between them, and \<open>utf16to8\<close> rejects every text that does not start with a surrogate pair.
\<close>
theorem utf8_encoders_restricted:
  assumes "\<forall>c \<in> set cs. c < 0x80" "\<forall>n. fits n" "0x80 \<le> d" "d < 0x800" "3 \<le> n"
    "\<not> high_surrogate (ucast u)" "u \<noteq> 0" "\<not> flag mode UNICODE_F_NOFAIL"
  shows "libc_utf32to8ms fits junk cs = Some (Some (map ucast cs @ [0])) \<and>
    libc_utf32to8 [d] n MBSTATE_INIT UNICODE_F_NOZEROTERM buf =
      \<lparr>cv_res = UNI_LEN 3, cv_src = [], cv_mb = MBSTATE_INIT, cv_buf = buf(0 := cont_byte d, 2 := lead_byte 2 (drop_bit 6 d))\<rparr> \<and>
    libc_utf16to8 (u # us) n MBSTATE_INIT mode buf = Some (conv_fail mode us MBSTATE_INIT buf)"
proof (intro conjI)
  define k where "k = length cs + 1"
  let ?b = "\<lambda>i. if 0 \<le> i \<and> i < 0 + length cs \<and> i < k then ucast (cs ! (i - 0)) else junk i"
  have c: "libc_utf32to8 cs k MBSTATE_INIT 0 junk = conv_done [] MBSTATE_INIT (Suc (length cs)) (put k (length cs) 0 ?b)"
    using utf32to8_loop_ascii [OF assms(1), of 0 k MBSTATE_INIT 0 junk]
    by (simp add: libc_utf32to8_def plain_mode_def conv_end_def conv_done2_def)
  have "map (put k (length cs) 0 ?b) [0..<Suc (length cs)] = map ucast cs @ [0]"
    by (rule nth_equalityI) (auto simp: k_def nth_append put_def less_Suc_eq simp del: upt_Suc)
  moreover have "libc_utf32to8ms fits junk cs = ms_again (\<lambda>n. Some (libc_utf32to8 cs n MBSTATE_INIT 0 junk)) fits k"
    using assms(2) by (simp add: libc_utf32to8ms_def Let_def k_def)
  ultimately show "libc_utf32to8ms fits junk cs = Some (Some (map ucast cs @ [0]))"
    using ms_again_fits [of "\<lambda>n. Some (libc_utf32to8 cs n MBSTATE_INIT 0 junk)" k, OF _ , of _ "Suc (length cs)" fits] c assms(2)
    by (simp add: conv_done_def k_def del: upt_Suc)
next
  have s: "utf8_size d = Some 2" "\<not> (UNI_SURROGATE_HIGH_BEGIN \<le> d \<and> d \<le> UNI_SURROGATE_LOW_END)" "d \<noteq> 0"
    using assms(3,4) by (auto simp: utf8_size_def uni_defs word_le_nat_alt word_less_nat_alt)
  show "libc_utf32to8 [d] n MBSTATE_INIT UNICODE_F_NOZEROTERM buf =
      \<lparr>cv_res = UNI_LEN 3, cv_src = [], cv_mb = MBSTATE_INIT, cv_buf = buf(0 := cont_byte d, 2 := lead_byte 2 (drop_bit 6 d))\<rparr>"
    using s assms(5) by (auto simp: libc_utf32to8_def numeral_2_eq_2 put_def conv_end_def conv_done_def mode_defs)
next
  show "libc_utf16to8 (u # us) n MBSTATE_INIT mode buf = Some (conv_fail mode us MBSTATE_INIT buf)"
    using assms(6-8) by (simp add: libc_utf16to8_def utf16to8_loop.simps utf16to8_char_def)
qed

theorem utf8_encoders_restricted_witness:
  "libc_utf32to8ms (\<lambda>_. True) (\<lambda>_. 0) [0x48, 0x69] = Some (Some [0x48, 0x69, 0]) \<and>
    cv_res (libc_utf32to8 [0xE9] 4 MBSTATE_INIT UNICODE_F_NOZEROTERM (\<lambda>_. 0)) = UNI_LEN 3 \<and>
    libc_utf16to8 [0x41] 4 MBSTATE_INIT 0 (\<lambda>_. 0) = Some (conv_fail 0 [] MBSTATE_INIT (\<lambda>_. 0))"
  using utf8_encoders_restricted [where cs = "[0x48, 0x69]" and fits = "\<lambda>_. True" and d = "0xE9" and n = 4 and u = "0x41" and us = "[]" and mode = 0
      and junk = "\<lambda>_. 0" and buf = "\<lambda>_. 0"]
  by (simp add: high_surrogate_def uni_defs)

text \<open>A printer for wide text only ever gets empty strings from the 16-bit version.\<close>
lemma emit_backward_empty: "snd (emit_backward n k ch) = 0"
  by (induction n k ch rule: emit_backward.induct) (auto split: prod.splits)

lemma print16_nothing:
  "print16 (\<lambda>text out. (int (length text), out @ text)) mode cp out = Some (temp, out') \<Longrightarrow> \<not> flag mode UNICODE_F_NOFAIL \<Longrightarrow> out' = out"
  by (auto simp: print16_def split: option.splits prod.splits dest: arg_cong [where f = snd] simp: emit_backward_empty)

lemma format_16_prints_nothing:
  "\<not> flag mode UNICODE_F_NOFAIL \<Longrightarrow>
    fst (snd (format_16_loop (\<lambda>text out. (int (length text), out @ text)) mode ps c16 result out)) = out"
  by (induction "\<lambda>text out :: 8 word list. (int (length text), out @ text)" mode ps c16 result out rule: format_16_loop.induct)
    (auto simp: Let_def split: option.splits prod.splits dest!: print16_nothing)

end
