(* ===== verification/Libc_Printer.thy ===== *)
theory Libc_Printer
  imports Libc_Mem Libc_Ctype "HOL-Library.Monad_Syntax"
begin

text \<open>
  The format printers of \<open>src/libs/libc/format-printer.c\<close>: the functions that print through a \<open>pformatprinter\<close>
  (\<open>libc_format_quote\<close>, \<open>print_space\<close>, \<open>libc_format_hexdump\<close>) and the ones that are printers themselves. A printer takes the
  text and its closure, and gives its \<open>ssize_t\<close> and the closure after the call, or None when it does not return.
  \<open>libc_format_vprintf\<close> appears as the list of the texts it hands to its printer.
\<close>

unbundle bit_operations_syntax

type_synonym byte = "8 word"
type_synonym 's printer = "byte list \<Rightarrow> 's \<Rightarrow> (int \<times> 's) option"

subsection \<open>Calling a printer\<close>

text \<open>
  The macro \<open>print\<close>: \<open>temp = call; if (temp < 0) return temp; result += temp\<close>, with the code behind it as \<open>k\<close>.
\<close>

definition checked :: "('s \<Rightarrow> (int \<times> 's) option) \<Rightarrow> (int \<Rightarrow> 's \<Rightarrow> (int \<times> 's) option) \<Rightarrow> int \<Rightarrow> 's \<Rightarrow> (int \<times> 's) option" where
  "checked f k result s = (case f s of None \<Rightarrow> None
     | Some (temp, s') \<Rightarrow> if temp < 0 then Some (temp, s') else k (result + temp) s')"

abbreviation print :: "'s printer \<Rightarrow> byte list \<Rightarrow> (int \<Rightarrow> 's \<Rightarrow> (int \<times> 's) option) \<Rightarrow> int \<Rightarrow> 's \<Rightarrow> (int \<times> 's) option" where
  "print printer d \<equiv> checked (printer d)"

abbreviation return :: "int \<Rightarrow> 's \<Rightarrow> (int \<times> 's) option" where
  "return result s \<equiv> Some (result, s)"

fun print_all :: "'s printer \<Rightarrow> byte list list \<Rightarrow> (int \<Rightarrow> 's \<Rightarrow> (int \<times> 's) option) \<Rightarrow> int \<Rightarrow> 's \<Rightarrow> (int \<times> 's) option" where
  "print_all printer [] k result s = k result s"
| "print_all printer (d # ds) k result s = print printer d (print_all printer ds k) result s"

definition vprintf_calls :: "'s printer \<Rightarrow> byte list list \<Rightarrow> 's \<Rightarrow> (int \<times> 's) option" where
  "vprintf_calls printer chunks s = print_all printer chunks return 0 s"

subsection \<open>Quoting text\<close>

definition decimals :: "byte list list" where
  "decimals = [[48, 49, 50, 51, 52, 53, 54, 55, 56, 57, 97, 98, 99, 100, 101, 102, 120],
               [48, 49, 50, 51, 52, 53, 54, 55, 56, 57, 65, 66, 67, 68, 69, 70, 88]]"

definition FORMAT_QUOTE_FLAG_PRINTRAW :: nat where "FORMAT_QUOTE_FLAG_PRINTRAW = 0x00000001"
definition FORMAT_QUOTE_FLAG_FORCEHEX :: nat where "FORMAT_QUOTE_FLAG_FORCEHEX = 0x00000002"
definition FORMAT_QUOTE_FLAG_FORCEOCT :: nat where "FORMAT_QUOTE_FLAG_FORCEOCT = 0x00000004"
definition FORMAT_QUOTE_FLAG_NOCTRL :: nat where "FORMAT_QUOTE_FLAG_NOCTRL = 0x00000008"
definition FORMAT_QUOTE_FLAG_NOASCII :: nat where "FORMAT_QUOTE_FLAG_NOASCII = 0x00000010"
definition FORMAT_QUOTE_FLAG_UPPERHEX :: nat where "FORMAT_QUOTE_FLAG_UPPERHEX = 0x00000020"

lemmas quote_flag_defs = FORMAT_QUOTE_FLAG_PRINTRAW_def FORMAT_QUOTE_FLAG_FORCEHEX_def FORMAT_QUOTE_FLAG_FORCEOCT_def
  FORMAT_QUOTE_FLAG_NOCTRL_def FORMAT_QUOTE_FLAG_NOASCII_def FORMAT_QUOTE_FLAG_UPPERHEX_def

definition fset :: "nat \<Rightarrow> nat \<Rightarrow> bool" where "fset flags f \<longleftrightarrow> flags AND f \<noteq> 0"

definition tooct :: "byte \<Rightarrow> byte" where "tooct c = 48 + c"

definition encode_oct :: "byte \<Rightarrow> byte list" where
  "encode_oct ch = (if ch \<le> 0x07 then [92, tooct (ch AND 0x07)]
     else if ch \<le> 0x38 then [92, tooct (drop_bit 3 (ch AND 0x38)), tooct (ch AND 0x07)]
     else [92, tooct (drop_bit 6 (ch AND 0xC0)), tooct (drop_bit 3 (ch AND 0x38)), tooct (ch AND 0x07)])"

definition encode_hex :: "nat \<Rightarrow> byte \<Rightarrow> byte list" where
  "encode_hex flags ch = (let c_hex = decimals ! (if fset flags FORMAT_QUOTE_FLAG_UPPERHEX then 0 else 1) in
     if ch \<le> 0xf then [92, 120, c_hex ! unat ch]
     else [92, 120, c_hex ! unat (drop_bit 4 (ch AND 0xf0)), c_hex ! unat (ch AND 0xf)])"

definition default_ctrl :: "nat \<Rightarrow> byte \<Rightarrow> byte list" where
  "default_ctrl flags ch = (if fset flags FORMAT_QUOTE_FLAG_FORCEHEX then encode_hex flags ch else encode_oct ch)"

definition special_control :: "nat \<Rightarrow> byte \<Rightarrow> byte list" where
  "special_control flags ch = (if ch = 7 then [92, 97] else if ch = 8 then [92, 98] else if ch = 12 then [92, 102]
     else if ch = 10 then [92, 110] else if ch = 13 then [92, 114] else if ch = 9 then [92, 116]
     else if ch = 11 then [92, 118] else if ch = 27 then [92, 101]
     else if ch = 92 \<or> ch = 39 \<or> ch = 34 then [92, ch] else default_ctrl flags ch)"

definition encoded_text :: "nat \<Rightarrow> byte \<Rightarrow> byte list" where
  "encoded_text flags ch =
     (if ch < 32 then (if fset flags FORMAT_QUOTE_FLAG_NOCTRL then default_ctrl flags ch else special_control flags ch)
      else if (ch = 92 \<or> ch = 39 \<or> ch = 34) \<and> \<not> fset flags FORMAT_QUOTE_FLAG_NOCTRL then special_control flags ch
      else if fset flags FORMAT_QUOTE_FLAG_FORCEOCT then encode_oct ch
      else encode_hex flags ch)"

definition needs_encoding :: "nat \<Rightarrow> byte \<Rightarrow> bool" where
  "needs_encoding flags ch \<longleftrightarrow> ch < 32 \<or> ch \<ge> 127 \<or> ch = 39 \<or> ch = 34 \<or> ch = 92 \<or> fset flags FORMAT_QUOTE_FLAG_NOASCII"

definition print_unless_empty :: "'s printer \<Rightarrow> byte list \<Rightarrow> (int \<Rightarrow> 's \<Rightarrow> (int \<times> 's) option) \<Rightarrow> int \<Rightarrow> 's \<Rightarrow> (int \<times> 's) option" where
  "print_unless_empty printer d k result s = (if d \<noteq> [] then print printer d k result s else k result s)"

text \<open>\<open>flushed\<close> is the text from \<open>flush_start\<close> to \<open>iter\<close>, the last argument list the text from \<open>iter\<close> to \<open>end\<close>.\<close>

fun quote_loop :: "'s printer \<Rightarrow> nat \<Rightarrow> byte list \<Rightarrow> byte list \<Rightarrow> int \<Rightarrow> 's \<Rightarrow> (int \<times> 's) option" where
  "quote_loop printer flags flushed [] result s =
     print_unless_empty printer flushed
       (\<lambda>result s. if fset flags FORMAT_QUOTE_FLAG_PRINTRAW then return result s else print printer [34] return result s) result s"
| "quote_loop printer flags flushed (ch # iter) result s =
     (if needs_encoding flags ch
      then print_unless_empty printer flushed
             (print printer (encoded_text flags ch) (quote_loop printer flags [] iter)) result s
      else quote_loop printer flags (flushed @ [ch]) iter result s)"

definition libc_format_quote :: "'s printer \<Rightarrow> byte list \<Rightarrow> nat \<Rightarrow> 's \<Rightarrow> (int \<times> 's) option" where
  "libc_format_quote printer str flags s =
     (if fset flags FORMAT_QUOTE_FLAG_PRINTRAW then quote_loop printer flags [] str 0 s
      else print printer [34] (quote_loop printer flags [] str) 0 s)"

subsection \<open>Hex dumps\<close>

definition MAX_SPACE_SIZE :: nat where "MAX_SPACE_SIZE = 64"
definition MAX_ASCII_SIZE :: nat where "MAX_ASCII_SIZE = 64"

text \<open>\<open>bufsize\<close> is only 0 when \<open>count\<close> is, and then the first round is the last one.\<close>

function space_loop :: "'s printer \<Rightarrow> nat \<Rightarrow> nat \<Rightarrow> int \<Rightarrow> 's \<Rightarrow> (int \<times> 's) option" where
  "space_loop printer bufsize cnt result s =
     (let used_size = min cnt bufsize in
      print printer (replicate used_size 32)
        (\<lambda>result s. if used_size = cnt \<or> bufsize = 0 then return result s
                    else space_loop printer bufsize (cnt - used_size) result s) result s)"
  by auto
termination by (relation "measure (\<lambda>(_, _, n, _). n)") auto

definition print_space :: "'s printer \<Rightarrow> nat \<Rightarrow> 's \<Rightarrow> (int \<times> 's) option" where
  "print_space printer cnt s = space_loop printer (min cnt MAX_SPACE_SIZE) cnt 0 s"

definition FORMAT_HEXDUMP_FLAG_ADDRESS :: nat where "FORMAT_HEXDUMP_FLAG_ADDRESS = 0x00000001"
definition FORMAT_HEXDUMP_FLAG_OFFSETS :: nat where "FORMAT_HEXDUMP_FLAG_OFFSETS = 0x00000002"
definition FORMAT_HEXDUMP_FLAG_NOHEX :: nat where "FORMAT_HEXDUMP_FLAG_NOHEX = 0x00000004"
definition FORMAT_HEXDUMP_FLAG_NOASCII :: nat where "FORMAT_HEXDUMP_FLAG_NOASCII = 0x00000008"
definition FORMAT_HEXDUMP_FLAG_HEXLOWER :: nat where "FORMAT_HEXDUMP_FLAG_HEXLOWER = 0x00000010"

lemmas dump_flag_defs = FORMAT_HEXDUMP_FLAG_ADDRESS_def FORMAT_HEXDUMP_FLAG_OFFSETS_def FORMAT_HEXDUMP_FLAG_NOHEX_def
  FORMAT_HEXDUMP_FLAG_NOASCII_def FORMAT_HEXDUMP_FLAG_HEXLOWER_def

text \<open>\<open>while (!(linesize&i)) --offset_size,i >>= 1\<close>: the index of the highest bit of \<open>linesize\<close>, looked for from \<open>n\<close> down.\<close>

fun highest_bit :: "nat \<Rightarrow> nat \<Rightarrow> nat" where
  "highest_bit linesize 0 = 0"
| "highest_bit linesize (Suc n) = (if linesize AND 2 ^ Suc n = 0 then highest_bit linesize n else Suc n)"

definition offset_size :: "nat \<Rightarrow> nat" where
  "offset_size linesize = (highest_bit linesize 31 + 3) div 4"

definition hex_buf :: "nat \<Rightarrow> byte \<Rightarrow> byte list" where
  "hex_buf flags b = (let hex_translate = decimals ! (if fset flags FORMAT_HEXDUMP_FLAG_HEXLOWER then 1 else 0) in
     [hex_translate ! unat (drop_bit 4 (b AND 0xf0)), hex_translate ! unat (b AND 0xf), 32])"

definition ascii_filter :: "byte \<Rightarrow> byte" where
  "ascii_filter c = (if libc_isprint (sint c) = 0 then 46 else c)"

text \<open>The text is printed in pieces that fit into \<open>ascii_line\<close>; \<open>ascii_size\<close> is never 0, as \<open>linesize\<close> is not.\<close>

function ascii_pieces :: "nat \<Rightarrow> byte list \<Rightarrow> byte list list" where
  "ascii_pieces ascii_size iter = (if iter = [] \<or> ascii_size = 0 then []
     else (let textcount = min ascii_size (length iter) in
           map ascii_filter (take textcount iter) # ascii_pieces ascii_size (drop textcount iter)))"
  by auto
termination by (relation "measure (\<lambda>(_, xs). length xs)") auto

definition dump_prefix :: "'s printer \<Rightarrow> (nat \<Rightarrow> byte list list) \<Rightarrow> (nat \<Rightarrow> nat \<Rightarrow> byte list list) \<Rightarrow> nat \<Rightarrow> nat \<Rightarrow> nat \<Rightarrow> nat
    \<Rightarrow> (int \<Rightarrow> 's \<Rightarrow> (int \<times> 's) option) \<Rightarrow> int \<Rightarrow> 's \<Rightarrow> (int \<times> 's) option" where
  "dump_prefix printer fmt_p fmt_Ix flags linesize base line k =
     (let offsets = (if fset flags FORMAT_HEXDUMP_FLAG_OFFSETS
            then checked (vprintf_calls printer (fmt_Ix (offset_size linesize) (sub32 line base))) k else k) in
      if fset flags FORMAT_HEXDUMP_FLAG_ADDRESS then checked (vprintf_calls printer (fmt_p line)) offsets else offsets)"

definition dump_hex :: "'s printer \<Rightarrow> nat \<Rightarrow> nat \<Rightarrow> byte list \<Rightarrow> (int \<Rightarrow> 's \<Rightarrow> (int \<times> 's) option) \<Rightarrow> int \<Rightarrow> 's \<Rightarrow> (int \<times> 's) option" where
  "dump_hex printer flags overflow bs k =
     (if fset flags FORMAT_HEXDUMP_FLAG_NOHEX then k
      else print_all printer (map (hex_buf flags) bs)
             (if overflow \<noteq> 0 then checked (print_space printer (overflow * 3)) k else k))"

definition dump_ascii :: "'s printer \<Rightarrow> nat \<Rightarrow> nat \<Rightarrow> nat \<Rightarrow> byte list \<Rightarrow> (int \<Rightarrow> 's \<Rightarrow> (int \<times> 's) option) \<Rightarrow> int \<Rightarrow> 's \<Rightarrow> (int \<times> 's) option" where
  "dump_ascii printer flags linesize overflow bs k =
     (if fset flags FORMAT_HEXDUMP_FLAG_NOASCII then k
      else print_all printer (ascii_pieces (min MAX_ASCII_SIZE linesize) bs)
             (if overflow \<noteq> 0 then checked (print_space printer overflow) k else k))"

function dump_loop :: "'s printer \<Rightarrow> (nat \<Rightarrow> byte list list) \<Rightarrow> (nat \<Rightarrow> nat \<Rightarrow> byte list list) \<Rightarrow> nat \<Rightarrow> nat \<Rightarrow> nat \<Rightarrow> nat \<Rightarrow> byte list
    \<Rightarrow> int \<Rightarrow> 's \<Rightarrow> (int \<times> 's) option" where
  "dump_loop printer fmt_p fmt_Ix flags linesize base line bs result s =
     (let size = length bs; lineuse = (if linesize \<le> size then linesize else size);
          overflow = (if linesize \<le> size then 0 else linesize - size) in
      dump_prefix printer fmt_p fmt_Ix flags linesize base line
       (dump_hex printer flags overflow (take lineuse bs)
         (dump_ascii printer flags linesize overflow (take lineuse bs)
           (\<lambda>result s. if size = lineuse \<or> linesize = 0 then return result s
              else print printer [10]
                (dump_loop printer fmt_p fmt_Ix flags linesize base (line + lineuse) (drop lineuse bs)) result s))) result s)"
  by auto
termination by (relation "measure (\<lambda>(_, _, _, _, _, _, _, bs, _). length bs)") auto

definition libc_format_hexdump :: "'s printer \<Rightarrow> (nat \<Rightarrow> byte list list) \<Rightarrow> (nat \<Rightarrow> nat \<Rightarrow> byte list list) \<Rightarrow> nat \<Rightarrow> byte list
    \<Rightarrow> nat \<Rightarrow> nat \<Rightarrow> 's \<Rightarrow> (int \<times> 's) option" where
  "libc_format_hexdump printer fmt_p fmt_Ix data bs linesize flags s =
     (if bs = [] then Some (0, s)
      else dump_loop printer fmt_p fmt_Ix flags (if linesize = 0 then 16 else linesize) data data bs 0 s)"

declare space_loop.simps [simp del] ascii_pieces.simps [simp del] dump_loop.simps [simp del]

subsection \<open>The heap\<close>

text \<open>
  The allocator is a parameter: for a size and the state of the heap it gives the bytes found in the fresh block, or None
  when there is no memory. \<open>libc_realloc\<close> keeps the old bytes; it leaves the old block alone when it fails.
\<close>

type_synonym 'h heap = "nat \<Rightarrow> 'h \<Rightarrow> (nat \<Rightarrow> byte) option \<times> 'h"

definition libc_realloc :: "'h heap \<Rightarrow> byte list \<Rightarrow> nat \<Rightarrow> 'h \<Rightarrow> byte list option \<times> 'h" where
  "libc_realloc heap old n h = (case heap n h of (None, h') \<Rightarrow> (None, h')
     | (Some fresh, h') \<Rightarrow> (Some (take n old @ map fresh [length old..<n]), h'))"

text \<open>A copy of \<open>xs\<close> into the block, at an offset.\<close>

definition put_at :: "nat \<Rightarrow> 'a list \<Rightarrow> 'a list \<Rightarrow> 'a list" where
  "put_at i xs blk = take i blk @ xs @ drop (i + length xs) blk"

subsection \<open>The string printer\<close>

text \<open>Positions are offsets into the block \<open>sp_buffer\<close>, which is None for a NULL pointer.\<close>

record stringprinter =
  sp_bufpos :: nat
  sp_buffer :: "byte list option"
  sp_bufend :: nat

definition libc_stringprinter_init :: "'h heap \<Rightarrow> nat \<Rightarrow> 'h \<Rightarrow> int \<times> stringprinter \<times> 'h" where
  "libc_stringprinter_init heap hint h =
     (let hint = (if hint = 0 then 4 * 4 else hint) in
      case libc_realloc heap [] (add32 hint 1) h of
        (None, h') \<Rightarrow> (-1, \<lparr>sp_bufpos = 0, sp_buffer = None, sp_bufend = 0\<rparr>, h')
      | (Some blk, h') \<Rightarrow> (0, \<lparr>sp_bufpos = 0, sp_buffer = Some (put_at hint [0] blk), sp_bufend = hint\<rparr>, h'))"

definition libc_stringprinter_pack :: "'h heap \<Rightarrow> stringprinter \<Rightarrow> 'h \<Rightarrow> byte list \<times> nat \<times> stringprinter \<times> 'h" where
  "libc_stringprinter_pack heap self h =
     (let blk = the (sp_buffer self); result_size = sp_bufpos self;
          (result, h') = (if sp_bufpos self \<noteq> sp_bufend self
            then (case libc_realloc heap blk (add32 result_size 1) h of (None, h') \<Rightarrow> (blk, h') | (Some blk', h') \<Rightarrow> (blk', h'))
            else (blk, h)) in
      (put_at result_size [0] result, result_size, self\<lparr>sp_buffer := None\<rparr>, h'))"

partial_function (option) double_size :: "nat \<Rightarrow> nat \<Rightarrow> nat option" where
  "double_size newsize reqsize =
     (let newsize = u32 (newsize * 2) in if newsize < reqsize then double_size newsize reqsize else Some newsize)"

definition libc_stringprinter_print :: "'h heap \<Rightarrow> (stringprinter \<times> 'h) printer" where
  "libc_stringprinter_print heap data = (\<lambda>(self, h).
     (let blk = the (sp_buffer self); datalen = length data;
          size_avail = sub32 (sp_bufend self) (sp_bufpos self);
          copy = (\<lambda>(blk :: byte list) end h. Some (int datalen,
             self\<lparr>sp_buffer := Some (put_at (sp_bufpos self) data blk), sp_bufend := end, sp_bufpos := sp_bufpos self + datalen\<rparr>, h)) in
      if size_avail < datalen then
        do {
          let newsize = sp_bufend self;
          let reqsize = add32 newsize (datalen - size_avail);
          newsize \<leftarrow> double_size newsize reqsize;
          (case libc_realloc heap blk (add32 newsize 1) h of
             (None, h') \<Rightarrow> Some (-1, self, h')
           | (Some new_buffer, h') \<Rightarrow> copy new_buffer newsize h')
        }
      else copy blk (sp_bufend self) h))"

subsection \<open>The print buffer\<close>

definition BUFFER_FLUSHTRUNC :: nat where "BUFFER_FLUSHTRUNC = 256"
definition BUFFER_PRINTLIMIT :: nat where "BUFFER_PRINTLIMIT = 4096"
definition BUFFER_SIZEALIGN :: nat where "BUFFER_SIZEALIGN = 64"

lemmas buffer_limits = BUFFER_FLUSHTRUNC_def BUFFER_PRINTLIMIT_def BUFFER_SIZEALIGN_def

text \<open>
  Positions are offsets into the block \<open>b_buffer\<close> (the empty list for NULL). The printer under the buffer and its
  closure \<open>b_closure\<close>, the state of the heap and the record form the state of the operations.
\<close>

record 's buffer =
  b_closure :: 's
  b_state :: int
  b_buffer :: "byte list"
  b_bufpos :: nat
  b_bufend :: nat

definition BUFFER_USED :: "'s buffer \<Rightarrow> nat" where "BUFFER_USED x = b_bufpos x"
definition BUFFER_SIZE :: "'s buffer \<Rightarrow> nat" where "BUFFER_SIZE x = b_bufend x"
definition BUFFER_UNUSED :: "'s buffer \<Rightarrow> nat" where "BUFFER_UNUSED x = sub32 (b_bufend x) (b_bufpos x)"
definition BUFFER_REMAIN :: "'s buffer \<Rightarrow> nat" where "BUFFER_REMAIN x = sub32 BUFFER_PRINTLIMIT (BUFFER_SIZE x)"

lemmas buffer_macros = BUFFER_USED_def BUFFER_SIZE_def BUFFER_UNUSED_def BUFFER_REMAIN_def

definition BUFFER_ADDSTATE :: "'s buffer \<Rightarrow> int \<Rightarrow> 's buffer" where
  "BUFFER_ADDSTATE x y = (if y < 0 then x\<lparr>b_state := y\<rparr>
     else if b_state x + y \<ge> 2 ^ 31 then x\<lparr>b_state := 2 ^ 31 - 1\<rparr>
     else x\<lparr>b_state := b_state x + y\<rparr>)"

definition libc_buffer_init :: "'s \<Rightarrow> 's buffer" where
  "libc_buffer_init closure = \<lparr>b_closure = closure, b_state = 0, b_buffer = [], b_bufpos = 0, b_bufend = 0\<rparr>"

text \<open>A call of \<open>b_printer\<close> on the first bytes of the block; reading behind the block has no defined result.\<close>

definition call_printer :: "'s printer \<Rightarrow> byte list \<Rightarrow> 's buffer \<Rightarrow> (int \<times> 's buffer) option" where
  "call_printer b_printer d buf = do {
     (temp, s) \<leftarrow> b_printer d (b_closure buf);
     Some (temp, buf\<lparr>b_closure := s\<rparr>) }"

definition print_used :: "'s printer \<Rightarrow> nat \<Rightarrow> 's buffer \<Rightarrow> (int \<times> 's buffer) option" where
  "print_used b_printer n buf =
     (if n \<le> length (b_buffer buf) then call_printer b_printer (take n (b_buffer buf)) buf else None)"

definition libc_buffer_fini :: "'s printer \<Rightarrow> 's buffer \<Rightarrow> (int \<times> 's) option" where
  "libc_buffer_fini b_printer buf =
     (let result = int (BUFFER_USED buf) in
      if result \<noteq> 0 \<and> b_state buf \<ge> 0 then do {
        (result, buf) \<leftarrow> print_used b_printer (BUFFER_USED buf) buf;
        Some (if result \<ge> 0 then result + b_state buf else result, b_closure buf) }
      else Some (result, b_closure buf))"

definition libc_buffer_flush :: "'s printer \<Rightarrow> 's buffer \<Rightarrow> (int \<times> 's buffer) option" where
  "libc_buffer_flush b_printer buf =
     (if b_state buf < 0 then Some (b_state buf, buf)
      else do {
        (result, buf) \<leftarrow> (if BUFFER_USED buf \<noteq> 0 then do {
            (result, buf) \<leftarrow> print_used b_printer (BUFFER_USED buf) buf;
            Some (result, BUFFER_ADDSTATE buf result) }
          else Some (0, buf));
        let buf = buf\<lparr>b_bufpos := 0\<rparr>;
        Some (result, if BUFFER_SIZE buf > BUFFER_FLUSHTRUNC then buf\<lparr>b_buffer := [], b_bufpos := 0, b_bufend := 0\<rparr> else buf) })"

text \<open>A copy into the block at an offset; writing behind the block has no defined result.\<close>

definition fill_at :: "nat \<Rightarrow> byte list \<Rightarrow> 's buffer \<Rightarrow> 's buffer option" where
  "fill_at i d buf = (if i + length d \<le> length (b_buffer buf)
     then Some (buf\<lparr>b_buffer := put_at i d (b_buffer buf), b_bufpos := b_bufpos buf + length d\<rparr>) else None)"

definition buffer_full :: "'s printer \<Rightarrow> int \<Rightarrow> byte list \<Rightarrow> 's buffer \<Rightarrow> 'h \<Rightarrow> (int \<times> 's buffer \<times> 'h) option" where
  "buffer_full b_printer result data buf h =
     (if data = [] then Some (result, buf, h)
      else if b_state buf < 0 then Some (b_state buf, buf, h)
      else do {
        (temp, buf) \<leftarrow> print_used b_printer BUFFER_PRINTLIMIT buf;
        let buf = BUFFER_ADDSTATE buf temp;
        if temp < 0 then Some (temp, buf, h)
        else do {
          buf \<leftarrow> fill_at 0 data buf;
          Some (result, buf, h) } })"

text \<open>The label \<open>again\<close>; a heap that never has memory keeps it running.\<close>

partial_function (option) buffer_again ::
  "'s printer \<Rightarrow> 'h heap \<Rightarrow> int \<Rightarrow> byte list \<Rightarrow> 's buffer \<Rightarrow> 'h \<Rightarrow> (int \<times> 's buffer \<times> 'h) option" where
  "buffer_again b_printer heap result data buf h = do {
     let copy_size = min (BUFFER_UNUSED buf) (length data);
     buf \<leftarrow> fill_at (b_bufpos buf) (take copy_size data) buf;
     let data = drop copy_size data;
     let copy_size = min (BUFFER_REMAIN buf) (length data);
     if copy_size = 0 then buffer_full b_printer result data buf h
     else do {
       let new_size = CEIL_ALIGN (BUFFER_SIZE buf + copy_size) BUFFER_SIZEALIGN;
       (case libc_realloc heap (b_buffer buf) new_size h of
          (None, h) \<Rightarrow> do {
            (temp, buf) \<leftarrow> libc_buffer_flush b_printer buf;
            if temp < 0 then Some (temp, buf, h)
            else if length data < BUFFER_UNUSED buf then do {
              buf \<leftarrow> fill_at (b_bufpos buf) data buf;
              Some (result, buf, h) }
            else buffer_again b_printer heap result data buf h }
        | (Some new_buffer, h) \<Rightarrow> do {
            let buf = buf\<lparr>b_buffer := new_buffer, b_bufend := new_size\<rparr>;
            buf \<leftarrow> fill_at (b_bufpos buf) (take copy_size data) buf;
            buffer_full b_printer result (drop copy_size data) buf h }) } }"

definition libc_buffer_print :: "'s printer \<Rightarrow> 'h heap \<Rightarrow> ('s buffer \<times> 'h) printer" where
  "libc_buffer_print b_printer heap data = (\<lambda>(buf, h).
     if length data \<ge> BUFFER_PRINTLIMIT then do {
       (temp, buf) \<leftarrow> libc_buffer_flush b_printer buf;
       if temp < 0 then Some (temp, buf, h)
       else do {
         (temp, buf) \<leftarrow> call_printer b_printer data buf;
         let buf = BUFFER_ADDSTATE buf temp;
         Some (if temp < 0 then temp else int (length data), buf, h) } }
     else buffer_again b_printer heap (int (length data)) data buf h)"

definition libc_format_vbprintf :: "'s printer \<Rightarrow> 'h heap \<Rightarrow> byte list list \<Rightarrow> 's \<Rightarrow> 'h \<Rightarrow> (int \<times> 's) option" where
  "libc_format_vbprintf printer heap chunks closure h = do {
     (r, buf, h) \<leftarrow> vprintf_calls (libc_buffer_print printer heap) chunks (libc_buffer_init closure, h);
     libc_buffer_fini printer buf }"

subsection \<open>Printing into memory\<close>

text \<open>\<open>libc_memcpy\<close> from a text outside the buffer.\<close>

fun put_bytes :: "nat \<Rightarrow> byte list \<Rightarrow> bmem \<Rightarrow> bmem" where
  "put_bytes a [] m = m"
| "put_bytes a (x # xs) m = put_bytes (a + 1) xs (m(a := x))"

definition libc_sprintf_callback :: "(nat \<times> bmem) printer" where
  "libc_sprintf_callback data = (\<lambda>(buffer, m).
     Some (int (length data), add32 buffer (length data), put_bytes buffer data m))"

definition libc_vsprintf :: "nat \<Rightarrow> byte list list \<Rightarrow> bmem \<Rightarrow> (int \<times> bmem) option" where
  "libc_vsprintf buf chunks m = do {
     (result, buf, m) \<leftarrow> vprintf_calls libc_sprintf_callback chunks (buf, m);
     Some (result, m(buf := 0)) }"

record snprintf_data =
  bufpos :: nat
  bufend :: nat

definition snprintf_callback :: "(snprintf_data \<times> bmem) printer" where
  "snprintf_callback data = (\<lambda>(b, m).
     (let m' = (if bufpos b < bufend b
                then put_bytes (bufpos b) (take (min (bufend b - bufpos b) (length data)) data) m else m) in
      Some (int (length data), b\<lparr>bufpos := add32 (bufpos b) (length data)\<rparr>, m')))"

definition libc_vsnprintf :: "nat \<Rightarrow> nat \<Rightarrow> byte list list \<Rightarrow> bmem \<Rightarrow> (nat \<times> bmem) option" where
  "libc_vsnprintf buf buflen chunks m = do {
     let data = \<lparr>bufpos = buf, bufend = (if buf + buflen \<ge> U32 then U32 - 1 else buf + buflen)\<rparr>;
     (_, data, m) \<leftarrow> vprintf_calls snprintf_callback chunks (data, m);
     let m = (if bufpos data < bufend data then m(bufpos data := 0) else m);
     Some (sub32 (bufpos data) buf, m) }"

subsection \<open>What a printer has been given\<close>

text \<open>
  The contract of the code that prints: \<open>got t s\<close> says that the closure \<open>s\<close> has been given the text \<open>t\<close>. A call returns, and
  either fails with a negative value, which \<open>fails\<close> admits, or counts the text it was given and has it.
\<close>

definition calls :: "(byte list \<Rightarrow> 's \<Rightarrow> bool) \<Rightarrow> nat \<Rightarrow> bool \<Rightarrow> ('s \<Rightarrow> (int \<times> 's) option) \<Rightarrow> byte list \<Rightarrow> bool" where
  "calls got lim fails f w \<longleftrightarrow> (\<forall>t s. got t s \<longrightarrow> length t + length w < lim \<longrightarrow>
     (\<exists>n s'. f s = Some (n, s') \<and> (n < 0 \<and> fails \<or> n = int (length w) \<and> got (t @ w) s')))"

definition delivers :: "(byte list \<Rightarrow> 's \<Rightarrow> bool) \<Rightarrow> nat \<Rightarrow> bool \<Rightarrow> (int \<Rightarrow> 's \<Rightarrow> (int \<times> 's) option) \<Rightarrow> byte list \<Rightarrow> bool" where
  "delivers got lim fails k w \<longleftrightarrow> (\<forall>r t s. 0 \<le> r \<longrightarrow> got t s \<longrightarrow> length t + length w < lim \<longrightarrow>
     (\<exists>n s'. k r s = Some (n, s') \<and> (n < 0 \<and> fails \<or> n = r + int (length w) \<and> got (t @ w) s')))"

named_theorems deliver_intros "what a piece of printing code delivers"

lemma delivers_return [deliver_intros]: "delivers got lim fails return []"
  by (auto simp: delivers_def)

lemma delivers_eta [deliver_intros]: "delivers got lim fails k w \<Longrightarrow> delivers got lim fails (\<lambda>r s. k r s) w"
  by simp

lemma calls_delivers: "delivers got lim fails k w \<Longrightarrow> calls got lim fails (k 0) w"
  by (auto simp: calls_def delivers_def)

lemma delivers_checked [deliver_intros]:
  assumes f: "calls got lim fails f v" and k: "delivers got lim fails k w"
  shows "delivers got lim fails (checked f k) (v @ w)"
  unfolding delivers_def
proof (intro allI impI)
  fix r :: int and t s
  assume r: "0 \<le> r" and g: "got t s" and l: "length t + length (v @ w) < lim"
  have lv: "length t + length v < lim" using l by simp
  obtain n s' where f1: "f s = Some (n, s')" and c: "n < 0 \<and> fails \<or> n = int (length v) \<and> got (t @ v) s'"
    using f g lv unfolding calls_def by blast
  show "\<exists>n s'. checked f k r s = Some (n, s') \<and>
      (n < 0 \<and> fails \<or> n = r + int (length (v @ w)) \<and> got (t @ v @ w) s')"
  proof (cases "n < 0")
    case True
    then show ?thesis using f1 c by (auto simp: checked_def)
  next
    case False
    then have c2: "n = int (length v)" "got (t @ v) s'" using c by auto
    have "\<exists>m s2. k (r + n) s' = Some (m, s2) \<and> (m < 0 \<and> fails \<or> m = r + n + int (length w) \<and> got ((t @ v) @ w) s2)"
      using k [unfolded delivers_def, rule_format, of "r + n" "t @ v" s'] r c2 l by simp
    then show ?thesis using f1 False c2 by (auto simp: checked_def)
  qed
qed

locale text_sink =
  fixes printer :: "'s printer" and got :: "byte list \<Rightarrow> 's \<Rightarrow> bool" and lim :: nat and fails :: bool
  assumes sink: "calls got lim fails (printer d) d"
begin

lemma delivers_print: "delivers got lim fails k w \<Longrightarrow> delivers got lim fails (print printer d k) (d @ w)"
  by (rule delivers_checked [OF sink])

lemma delivers_print_unless_empty:
  assumes "delivers got lim fails k w"
  shows "delivers got lim fails (print_unless_empty printer d k) (d @ w)"
proof (cases "d = []")
  case True
  then have "print_unless_empty printer d k = k" by (simp add: fun_eq_iff print_unless_empty_def)
  then show ?thesis using True assms by simp
next
  case False
  then have "print_unless_empty printer d k = print printer d k" by (simp add: fun_eq_iff print_unless_empty_def)
  then show ?thesis using delivers_print [OF assms, of d] by simp
qed

lemma delivers_print_all:
  "delivers got lim fails k w \<Longrightarrow> delivers got lim fails (print_all printer ds k) (concat ds @ w)"
proof (induction ds)
  case Nil
  have "print_all printer [] k = k" by (simp add: fun_eq_iff)
  then show ?case using Nil by simp
next
  case (Cons d ds)
  have "print_all printer (d # ds) k = print printer d (print_all printer ds k)" by (simp add: fun_eq_iff)
  then show ?case using delivers_print [OF Cons.IH [OF Cons.prems], of d] by simp
qed

lemma calls_vprintf: "calls got lim fails (vprintf_calls printer ds) (concat ds)"
  using calls_delivers [OF delivers_print_all [OF delivers_return]]
  by (simp add: vprintf_calls_def [abs_def])

end

definition quote_char :: "nat \<Rightarrow> byte \<Rightarrow> byte list" where
  "quote_char flags ch = (if needs_encoding flags ch then encoded_text flags ch else [ch])"

definition quote_mark :: "nat \<Rightarrow> byte list" where
  "quote_mark flags = (if fset flags FORMAT_QUOTE_FLAG_PRINTRAW then [] else [34])"

definition quote_text :: "nat \<Rightarrow> byte list \<Rightarrow> byte list" where
  "quote_text flags str = quote_mark flags @ concat (map (quote_char flags) str) @ quote_mark flags"

definition dump_line :: "nat \<Rightarrow> nat \<Rightarrow> byte list \<Rightarrow> byte list" where
  "dump_line flags linesize bs =
     (if fset flags FORMAT_HEXDUMP_FLAG_NOHEX then []
      else concat (map (hex_buf flags) bs) @ replicate (3 * (linesize - length bs)) 32) @
     (if fset flags FORMAT_HEXDUMP_FLAG_NOASCII then []
      else map ascii_filter bs @ replicate (linesize - length bs) 32)"

definition line_prefix :: "(nat \<Rightarrow> byte list list) \<Rightarrow> (nat \<Rightarrow> nat \<Rightarrow> byte list list) \<Rightarrow> nat \<Rightarrow> nat \<Rightarrow> nat \<Rightarrow> nat \<Rightarrow> byte list" where
  "line_prefix fmt_p fmt_Ix flags linesize base line =
     (if fset flags FORMAT_HEXDUMP_FLAG_ADDRESS then concat (fmt_p line) else []) @
     (if fset flags FORMAT_HEXDUMP_FLAG_OFFSETS then concat (fmt_Ix (offset_size linesize) (sub32 line base)) else [])"

function dump_text :: "(nat \<Rightarrow> byte list) \<Rightarrow> nat \<Rightarrow> nat \<Rightarrow> nat \<Rightarrow> byte list \<Rightarrow> byte list" where
  "dump_text prefix flags linesize line bs = prefix line @
     (if length bs \<le> linesize \<or> linesize = 0 then dump_line flags linesize bs
      else dump_line flags linesize (take linesize bs) @ [10] @ dump_text prefix flags linesize (line + linesize) (drop linesize bs))"
  by auto
termination by (relation "measure (\<lambda>(_, _, _, _, bs). length bs)") auto

declare dump_text.simps [simp del]

lemma concat_ascii_pieces: "0 < n \<Longrightarrow> concat (ascii_pieces n bs) = map ascii_filter bs"
proof (induction n bs rule: ascii_pieces.induct)
  case (1 n bs)
  show ?case
  proof (cases "bs = []")
    case False
    then have "concat (ascii_pieces n bs) =
        map ascii_filter (take (min n (length bs)) bs) @ map ascii_filter (drop (min n (length bs)) bs)"
      using 1 by (subst ascii_pieces.simps) (simp add: Let_def)
    then show ?thesis by (simp flip: map_append)
  qed (simp add: ascii_pieces.simps)
qed

context text_sink
begin

lemma delivers_quote_loop:
  "delivers got lim fails (quote_loop printer flags fl str) (fl @ concat (map (quote_char flags) str) @ quote_mark flags)"
proof (induction str arbitrary: fl)
  case Nil
  have e: "quote_loop printer flags fl [] = print_unless_empty printer fl
      (if fset flags FORMAT_QUOTE_FLAG_PRINTRAW then return else print printer [34] return)"
    by (simp add: fun_eq_iff print_unless_empty_def)
  have "delivers got lim fails (if fset flags FORMAT_QUOTE_FLAG_PRINTRAW then return else print printer [34] return)
      (quote_mark flags)"
    using delivers_return [of got lim fails] delivers_print [OF delivers_return, of "[34]"]
    by (cases "fset flags FORMAT_QUOTE_FLAG_PRINTRAW") (simp_all add: quote_mark_def)
  then show ?case unfolding e by (simp add: delivers_print_unless_empty)
next
  case (Cons ch str)
  show ?case
  proof (cases "needs_encoding flags ch")
    case True
    then have e: "quote_loop printer flags fl (ch # str) =
        print_unless_empty printer fl (print printer (encoded_text flags ch) (quote_loop printer flags [] str))"
      by (simp add: fun_eq_iff)
    show ?thesis
      using delivers_print_unless_empty [OF delivers_print [OF Cons.IH [of "[]"]], of fl "encoded_text flags ch"] True
      unfolding e by (simp add: quote_char_def)
  next
    case False
    then have e: "quote_loop printer flags fl (ch # str) = quote_loop printer flags (fl @ [ch]) str"
      by (simp add: fun_eq_iff)
    show ?thesis using Cons.IH [of "fl @ [ch]"] False unfolding e by (simp add: quote_char_def)
  qed
qed

lemma calls_quote: "calls got lim fails (libc_format_quote printer str flags) (quote_text flags str)"
proof -
  have "delivers got lim fails (print printer [34] (quote_loop printer flags [] str))
      ([34] @ concat (map (quote_char flags) str) @ quote_mark flags)"
    using delivers_print [OF delivers_quote_loop [of flags "[]" str], of "[34]"] by simp
  then show ?thesis
    using calls_delivers [OF delivers_quote_loop [of flags "[]" str]] calls_delivers
    by (fastforce simp: libc_format_quote_def [abs_def] quote_text_def quote_mark_def)
qed

lemma delivers_space_loop:
  "0 < b \<or> c = 0 \<Longrightarrow> delivers got lim fails (space_loop printer b c) (replicate c 32)"
proof (induction c rule: less_induct)
  case (less c)
  let ?k = "if min c b = c \<or> b = 0 then return else space_loop printer b (c - min c b)"
  have e: "space_loop printer b c = print printer (replicate (min c b) 32) ?k"
    by (simp add: fun_eq_iff space_loop.simps [of _ b c] Let_def checked_def split: option.split prod.split)
  have "delivers got lim fails ?k (replicate (c - min c b) 32)"
    using less delivers_return by (auto simp: min_def split: if_splits)
  from delivers_print [OF this, of "replicate (min c b) 32"]
  show ?case unfolding e by (simp flip: replicate_add)
qed

lemma calls_print_space: "calls got lim fails (print_space printer c) (replicate c 32)"
proof -
  have "0 < min c MAX_SPACE_SIZE \<or> c = 0" by (auto simp: MAX_SPACE_SIZE_def)
  from calls_delivers [OF delivers_space_loop [OF this]] show ?thesis by (simp add: print_space_def [abs_def])
qed

lemma delivers_pad:
  "delivers got lim fails k w \<Longrightarrow>
   delivers got lim fails (if c \<noteq> 0 then checked (print_space printer (c * i)) k else k) (replicate (i * c) 32 @ w)"
  using delivers_checked [OF calls_print_space] by (auto simp: mult.commute)

lemma delivers_dump_hex:
  assumes "delivers got lim fails k w"
  shows "delivers got lim fails (dump_hex printer flags c bs k)
    ((if fset flags FORMAT_HEXDUMP_FLAG_NOHEX then [] else concat (map (hex_buf flags) bs) @ replicate (3 * c) 32) @ w)"
  using assms delivers_print_all [OF delivers_pad [OF assms, of c 3], of "map (hex_buf flags) bs"]
  by (simp add: dump_hex_def)

lemma delivers_dump_ascii:
  assumes "delivers got lim fails k w" and "0 < linesize"
  shows "delivers got lim fails (dump_ascii printer flags linesize c bs k)
    ((if fset flags FORMAT_HEXDUMP_FLAG_NOASCII then [] else map ascii_filter bs @ replicate c 32) @ w)"
  using assms delivers_print_all [OF delivers_pad [OF assms(1), of c 1], of "ascii_pieces (min MAX_ASCII_SIZE linesize) bs"]
  by (simp add: dump_ascii_def concat_ascii_pieces MAX_ASCII_SIZE_def del: One_nat_def cong: if_cong)

lemma delivers_dump_prefix:
  assumes "delivers got lim fails k w"
  shows "delivers got lim fails (dump_prefix printer fmt_p fmt_Ix flags linesize base line k)
    (line_prefix fmt_p fmt_Ix flags linesize base line @ w)"
  using assms delivers_checked [OF calls_vprintf] by (auto simp: dump_prefix_def line_prefix_def Let_def)

lemma delivers_dump_loop:
  "0 < linesize \<Longrightarrow> delivers got lim fails (dump_loop printer fmt_p fmt_Ix flags linesize base line bs)
     (dump_text (line_prefix fmt_p fmt_Ix flags linesize base) flags linesize line bs)"
proof (induction bs arbitrary: line rule: length_induct)
  case (1 bs)
  let ?u = "if linesize \<le> length bs then linesize else length bs"
  let ?o = "if linesize \<le> length bs then 0 else linesize - length bs"
  let ?d = "dump_loop printer fmt_p fmt_Ix flags linesize base (line + ?u) (drop ?u bs)"
  let ?k = "if length bs = ?u then return else print printer [10] ?d"
  let ?P = "line_prefix fmt_p fmt_Ix flags linesize base"
  let ?w = "if length bs \<le> linesize then [] else [10] @ dump_text ?P flags linesize (line + linesize) (drop linesize bs)"
  have e: "dump_loop printer fmt_p fmt_Ix flags linesize base line bs =
      dump_prefix printer fmt_p fmt_Ix flags linesize base line
        (dump_hex printer flags ?o (take ?u bs) (dump_ascii printer flags linesize ?o (take ?u bs) ?k))"
    using 1(2) by (auto simp: fun_eq_iff dump_loop.simps [of printer fmt_p fmt_Ix flags linesize base line bs] Let_def)
  have "delivers got lim fails ?k ?w"
  proof (cases "length bs \<le> linesize")
    case False
    then have "delivers got lim fails ?d (dump_text ?P flags linesize (line + linesize) (drop linesize bs))"
      using 1 by simp
    then show ?thesis using False delivers_print [where d = "[10]"] by (simp split: if_splits)
  qed (simp add: delivers_return)
  then have d: "delivers got lim fails (dump_prefix printer fmt_p fmt_Ix flags linesize base line
        (dump_hex printer flags ?o (take ?u bs) (dump_ascii printer flags linesize ?o (take ?u bs) ?k)))
      (?P line @ (if fset flags FORMAT_HEXDUMP_FLAG_NOHEX then []
                  else concat (map (hex_buf flags) (take ?u bs)) @ replicate (3 * ?o) 32) @
        (if fset flags FORMAT_HEXDUMP_FLAG_NOASCII then [] else map ascii_filter (take ?u bs) @ replicate ?o 32) @ ?w)"
    by (intro delivers_dump_prefix delivers_dump_hex delivers_dump_ascii 1(2))
  have "dump_text ?P flags linesize line bs =
      ?P line @ (if fset flags FORMAT_HEXDUMP_FLAG_NOHEX then []
                  else concat (map (hex_buf flags) (take ?u bs)) @ replicate (3 * ?o) 32) @
        (if fset flags FORMAT_HEXDUMP_FLAG_NOASCII then [] else map ascii_filter (take ?u bs) @ replicate ?o 32) @ ?w"
    using 1(2) by (subst dump_text.simps) (simp add: dump_line_def)
  then show ?case using d unfolding e by (simp only:)
qed

lemma calls_hexdump:
  "calls got lim fails (libc_format_hexdump printer fmt_p fmt_Ix data bs linesize flags)
     (if bs = [] then [] else let linesize = (if linesize = 0 then 16 else linesize) in
        dump_text (line_prefix fmt_p fmt_Ix flags linesize data) flags linesize data bs)"
proof (cases "bs = []")
  case True
  then show ?thesis by (auto simp: libc_format_hexdump_def calls_def)
next
  case False
  have "0 < (if linesize = 0 then 16 else linesize)" by simp
  from calls_delivers [OF delivers_dump_loop [OF this]] show ?thesis
    using False by (simp add: libc_format_hexdump_def [abs_def] Let_def)
qed

end

subsection \<open>The string printer holds what it was given\<close>

definition heap_serves :: "'h heap \<Rightarrow> bool" where
  "heap_serves heap \<longleftrightarrow> (\<forall>n h. fst (heap n h) \<noteq> None)"

definition sp_holds :: "byte list \<Rightarrow> stringprinter \<times> 'h \<Rightarrow> bool" where
  "sp_holds t = (\<lambda>(sp, h). sp_bufpos sp = length t \<and> length t \<le> sp_bufend sp \<and> 0 < sp_bufend sp \<and> sp_bufend sp < U32 - 1 \<and>
     (\<exists>blk. sp_buffer sp = Some blk \<and> length blk = sp_bufend sp + 1 \<and> take (length t) blk = t))"

lemma length_put_at [simp]: "i + length xs \<le> length blk \<Longrightarrow> length (put_at i xs blk) = length blk"
  by (simp add: put_at_def)

lemma take_put_at: "i \<le> length blk \<Longrightarrow> take (i + length xs) (put_at i xs blk) = take i blk @ xs"
  by (simp add: put_at_def)

lemma take_put_at_same [simp]: "i \<le> length blk \<Longrightarrow> take i (put_at i xs blk) = take i blk"
  by (simp add: put_at_def)

lemma length_realloc:
  "libc_realloc heap old n h = (Some blk, h') \<Longrightarrow> length blk = n"
  by (auto simp: libc_realloc_def split: prod.splits option.splits)

lemma take_realloc:
  "libc_realloc heap old n h = (Some blk, h') \<Longrightarrow> k \<le> n \<Longrightarrow> k \<le> length old \<Longrightarrow> take k blk = take k old"
  by (auto simp: libc_realloc_def min_def split: prod.splits option.splits)

lemma realloc_serves: "heap_serves heap \<Longrightarrow> \<exists>blk h'. libc_realloc heap old n h = (Some blk, h')"
  by (cases "heap n h"; cases "fst (heap n h)") (auto simp: heap_serves_def libc_realloc_def dest!: spec [of _ n] spec [of _ h])

lemma double_size_ok:
  "0 < n \<Longrightarrow> n < 2 ^ 31 \<Longrightarrow> req \<le> 2 ^ 31 \<Longrightarrow> \<exists>m. double_size n req = Some m \<and> req \<le> m \<and> m < U32 - 1 \<and> n < m"
proof (induction "2 ^ 31 - n" arbitrary: n rule: less_induct)
  case less
  have u: "u32 (n * 2) = n * 2" using less.prems by (simp add: u32_def)
  show ?case
  proof (cases "n * 2 < req")
    case True
    then obtain m where "double_size (n * 2) req = Some m" "req \<le> m" "m < U32 - 1" "n * 2 < m"
      using less.hyps [of "n * 2"] less.prems by fastforce
    then show ?thesis using True by (subst double_size.simps) (simp add: u Let_def)
  next
    case False
    then show ?thesis using less.prems by (subst double_size.simps) (simp add: u Let_def)
  qed
qed

lemma sp_print_step:
  assumes h: "sp_holds t (sp, h)" and l: "length t + length d < 2 ^ 31"
  shows "\<exists>n s'. libc_stringprinter_print heap d (sp, h) = Some (n, s') \<and>
    (n < 0 \<and> \<not> heap_serves heap \<or> n = int (length d) \<and> sp_holds (t @ d) s')"
proof -
  obtain blk where b: "sp_buffer sp = Some blk" "length blk = sp_bufend sp + 1" "take (length t) blk = t"
    and p: "sp_bufpos sp = length t" "length t \<le> sp_bufend sp" "0 < sp_bufend sp" "sp_bufend sp < U32 - 1"
    using h by (auto simp: sp_holds_def)
  have av: "sub32 (sp_bufend sp) (length t) = sp_bufend sp - length t" using p by (simp add: u32_simps)
  show ?thesis
  proof (cases "sp_bufend sp - length t < length d")
    case False
    then show ?thesis using b p
      by (simp add: libc_stringprinter_print_def Let_def av sp_holds_def put_at_def)
  next
    case True
    then have s: "sp_bufend sp < 2 ^ 31" using l p by simp
    have r: "add32 (sp_bufend sp) (length d - (sp_bufend sp - length t)) = length t + length d"
      using True l p by (simp add: add32_def)
    obtain m where m: "double_size (sp_bufend sp) (length t + length d) = Some m" "length t + length d \<le> m" "m < U32 - 1"
        "sp_bufend sp < m"
      using double_size_ok [OF p(3) s, of "length t + length d"] l by auto
    have m1: "add32 m 1 = m + 1" using m(3) by (simp add: add32_def)
    show ?thesis
    proof (cases "libc_realloc heap blk (m + 1) h")
      case (Pair ob h')
      show ?thesis
      proof (cases ob)
        case None
        then have "\<not> heap_serves heap" using realloc_serves [of heap blk "m + 1" h] Pair by auto
        then show ?thesis using True Pair None b
          by (simp add: libc_stringprinter_print_def Let_def p(1) av r m m1 del: One_nat_def)
      next
        case (Some nb)
        have nl: "length nb = m + 1" using length_realloc [of heap blk "m + 1" h nb h'] Pair Some by simp
        have nt: "take (length t) nb = t"
          using take_realloc [of heap blk "m + 1" h nb h' "length t"] Pair Some b m(2) p(2) by simp
        have "libc_stringprinter_print heap d (sp, h) = Some (int (length d), sp\<lparr>sp_buffer := Some (put_at (length t) d nb),
            sp_bufend := m, sp_bufpos := length t + length d\<rparr>, h')"
          using True Pair Some by (simp add: libc_stringprinter_print_def Let_def b(1) p(1) av r m(1) m1 del: One_nat_def)
        moreover have "take (length t + length d) (put_at (length t) d nb) = t @ d"
          using take_put_at [of "length t" nb d] nl m(2) unfolding nt by simp
        ultimately show ?thesis using nl m p(3) by (simp add: sp_holds_def)
      qed
    qed
  qed
qed

interpretation sp_sink: text_sink "libc_stringprinter_print heap" sp_holds "2 ^ 31" "\<not> heap_serves heap" for heap :: "'h heap"
proof (unfold_locales, unfold calls_def, intro allI impI)
  fix d t :: "byte list" and s :: "stringprinter \<times> 'h"
  assume "sp_holds t s" and "length t + length d < 2 ^ 31"
  then show "\<exists>n s'. libc_stringprinter_print heap d s = Some (n, s') \<and>
      (n < 0 \<and> \<not> heap_serves heap \<or> n = int (length d) \<and> sp_holds (t @ d) s')"
    using sp_print_step [of t "fst s" "snd s" d heap] by simp
qed

lemma sp_init_holds:
  assumes "hint < U32 - 1" and "libc_stringprinter_init heap hint h = (0, sp, h')"
  shows "sp_holds [] (sp, h')"
proof -
  define k where "k = (if hint = 0 then 16 else hint)"
  have k: "0 < k" "k < U32 - 1" "add32 k 1 = k + 1" using assms(1) by (simp_all add: k_def add32_def)
  have i: "libc_stringprinter_init heap hint h = (case libc_realloc heap [] (k + 1) h of
        (None, h') \<Rightarrow> (-1, \<lparr>sp_bufpos = 0, sp_buffer = None, sp_bufend = 0\<rparr>, h')
      | (Some blk, h') \<Rightarrow> (0, \<lparr>sp_bufpos = 0, sp_buffer = Some (put_at k [0] blk), sp_bufend = k\<rparr>, h'))"
    by (simp only: libc_stringprinter_init_def Let_def k(3) k_def [symmetric] mult_numeral_1 arith_simps)
  show ?thesis
    using assms(2) k length_realloc [of heap "[]" "k + 1" h] unfolding i
    by (auto simp: sp_holds_def split: prod.splits option.splits)
qed

lemma sp_pack_holds:
  assumes "sp_holds t (sp, h)" and "libc_stringprinter_pack heap sp h = (result, len, sp', h')"
  shows "take (len + 1) result = t @ [0] \<and> len = length t \<and> len < length result \<and> sp_buffer sp' = None"
proof -
  obtain blk where b: "sp_buffer sp = Some blk" "length blk = sp_bufend sp + 1" "take (length t) blk = t"
    and p: "sp_bufpos sp = length t" "length t \<le> sp_bufend sp" "sp_bufend sp < U32 - 1"
    using assms(1) by (auto simp: sp_holds_def)
  have a: "add32 (length t) 1 = length t + 1" using p by (simp add: add32_def)
  obtain ob h1 where P: "libc_realloc heap blk (length t + 1) h = (ob, h1)" by fastforce
  define res where "res = (if length t = sp_bufend sp then blk else case ob of None \<Rightarrow> blk | Some nb \<Rightarrow> nb)"
  have nb: "length nb = length t + 1 \<and> take (length t) nb = t" if "ob = Some nb" for nb
    using P that b length_realloc [of heap blk "length t + 1" h nb] take_realloc [of heap blk "length t + 1" h nb h1 "length t"] p
    by simp
  have l: "length t < length res" using b(2) p nb by (auto simp: res_def split: option.split)
  have k: "take (length t) res = t" using b(3) nb by (auto simp: res_def split: option.split)
  have "\<exists>h2. libc_stringprinter_pack heap sp h = (put_at (length t) [0] res, length t, sp\<lparr>sp_buffer := None\<rparr>, h2)"
    unfolding libc_stringprinter_pack_def Let_def p(1) a b(1) option.sel P res_def
    by (cases ob; cases "length t = sp_bufend sp") simp_all
  then have e: "result = put_at (length t) [0] res" "len = length t" "sp' = sp\<lparr>sp_buffer := None\<rparr>"
    using assms(2) by auto
  have "take (length t + 1) (put_at (length t) [0] res) = t @ [0]"
    using take_put_at [of "length t" res "[0]"] l unfolding k by simp
  then show ?thesis unfolding e using l by simp
qed

subsection \<open>The buffer holds what it was given\<close>

text \<open>As long as less than \<open>BUFFER_PRINTLIMIT\<close> bytes have been printed, and the heap has memory.\<close>

definition buf_ok :: "'s buffer \<Rightarrow> bool" where
  "buf_ok buf \<longleftrightarrow> b_bufpos buf \<le> b_bufend buf \<and> b_bufend buf = length (b_buffer buf) \<and> b_bufend buf \<le> 4096 \<and> 64 dvd b_bufend buf"

definition buf_holds :: "'h heap \<Rightarrow> 's \<Rightarrow> byte list \<Rightarrow> 's buffer \<times> 'h \<Rightarrow> bool" where
  "buf_holds heap closure t = (\<lambda>(buf, h). heap_serves heap \<and> buf_ok buf \<and> b_closure buf = closure \<and> b_state buf = 0 \<and>
     b_bufpos buf = length t \<and> take (length t) (b_buffer buf) = t)"

lemma CEIL_ALIGN_64: "x \<le> 4096 \<Longrightarrow> CEIL_ALIGN x BUFFER_SIZEALIGN = (x + 63) div 64 * 64"
  using CEIL_ALIGN_pow2 [of 6 x] by (simp add: buffer_limits add32_def)

text \<open>A buffer into which the text fits takes it.\<close>

lemma fill_at_pos:
  assumes "buf_ok buf" and "b_bufpos buf + length d \<le> b_bufend buf"
  shows "\<exists>buf'. fill_at (b_bufpos buf) d buf = Some buf' \<and> buf_ok buf' \<and> b_closure buf' = b_closure buf \<and> b_state buf' = b_state buf \<and>
    b_bufpos buf' = b_bufpos buf + length d \<and> b_bufend buf' = b_bufend buf \<and>
    take (b_bufpos buf') (b_buffer buf') = take (b_bufpos buf) (b_buffer buf) @ d"
  using assms by (auto simp: fill_at_def buf_ok_def take_put_at)

text \<open>A full block grows to take the text.\<close>

lemma fill_grown:
  assumes ok: "buf_ok buf" and hs: "heap_serves heap" and f: "b_bufpos buf = b_bufend buf" and l: "b_bufend buf + length d \<le> 4096"
  shows "\<exists>nb h1 buf'. libc_realloc heap (b_buffer buf) (CEIL_ALIGN (BUFFER_SIZE buf + length d) BUFFER_SIZEALIGN) h = (Some nb, h1) \<and>
    fill_at (b_bufpos buf) d (buf\<lparr>b_buffer := nb, b_bufend := CEIL_ALIGN (BUFFER_SIZE buf + length d) BUFFER_SIZEALIGN\<rparr>) = Some buf' \<and>
    buf_ok buf' \<and> b_closure buf' = b_closure buf \<and> b_state buf' = b_state buf \<and> b_bufpos buf' = b_bufpos buf + length d \<and>
    take (b_bufpos buf') (b_buffer buf') = take (b_bufpos buf) (b_buffer buf) @ d"
proof -
  define z where "z = (b_bufend buf + length d + 63) div 64 * 64"
  have z: "CEIL_ALIGN (BUFFER_SIZE buf + length d) BUFFER_SIZEALIGN = z"
    using l by (simp add: CEIL_ALIGN_64 z_def buffer_macros)
  have zl: "b_bufend buf + length d \<le> z" "z \<le> 4096" "64 dvd z" using l by (auto simp: z_def)
  obtain nb h1 where r: "libc_realloc heap (b_buffer buf) z h = (Some nb, h1)" using realloc_serves [OF hs] by blast
  define b2 where "b2 = buf\<lparr>b_buffer := nb, b_bufend := z\<rparr>"
  have nb: "length nb = z" "take (b_bufpos buf) nb = take (b_bufpos buf) (b_buffer buf)"
    using length_realloc [OF r] take_realloc [OF r, of "b_bufpos buf"] ok f zl by (auto simp: buf_ok_def)
  have "buf_ok b2" "b_bufpos b2 + length d \<le> b_bufend b2" using nb zl f by (auto simp: buf_ok_def b2_def)
  from fill_at_pos [OF this] show ?thesis
    using r nb(2) unfolding z by (auto simp: b2_def)
qed

text \<open>One round of \<open>again\<close> on a heap with memory: the buffer grows to take the whole text, up to the limit.\<close>

lemma buffer_again_grows:
  assumes ok: "buf_ok buf" and hs: "heap_serves heap"
  shows "\<exists>buf' h'. buffer_again pr heap result data buf h =
      buffer_full pr result (drop (4096 - b_bufpos buf) data) buf' h' \<and> buf_ok buf' \<and>
      b_closure buf' = b_closure buf \<and> b_state buf' = b_state buf \<and>
      b_bufpos buf' = min 4096 (b_bufpos buf + length data) \<and>
      take (b_bufpos buf') (b_buffer buf') = take (b_bufpos buf) (b_buffer buf) @ take (4096 - b_bufpos buf) data"
proof -
  have o: "b_bufpos buf \<le> b_bufend buf" "b_bufend buf = length (b_buffer buf)" "b_bufend buf \<le> 4096"
    using ok by (auto simp: buf_ok_def)
  define c where "c = min (b_bufend buf - b_bufpos buf) (length data)"
  have c: "min (BUFFER_UNUSED buf) (length data) = c" using o by (simp add: c_def buffer_macros u32_simps)
  have lc: "length (take c data) = c" "b_bufpos buf + length (take c data) \<le> b_bufend buf" using o(1) by (auto simp: c_def)
  obtain b1 where b1: "fill_at (b_bufpos buf) (take c data) buf = Some b1" "buf_ok b1" "b_closure b1 = b_closure buf"
      "b_state b1 = b_state buf" "b_bufpos b1 = b_bufpos buf + c" "b_bufend b1 = b_bufend buf"
      "take (b_bufpos b1) (b_buffer b1) = take (b_bufpos buf) (b_buffer buf) @ take c data"
    using fill_at_pos [OF ok lc(2)] lc(1) by metis
  define e where "e = min (4096 - b_bufend buf) (length data - c)"
  have e: "min (BUFFER_REMAIN b1) (length (drop c data)) = e" "length (take e (drop c data)) = e"
    using o by (simp_all add: e_def buffer_macros b1(6) buffer_limits u32_simps)
  have ce: "c + e = min (4096 - b_bufpos buf) (length data)" using o by (auto simp: e_def c_def)
  have d: "drop (4096 - b_bufpos buf) data = drop e (drop c data)" "take (4096 - b_bufpos buf) data = take c data @ take e (drop c data)"
    unfolding take_add [symmetric] drop_drop add.commute [of e c] ce by (auto simp: min_def)
  show ?thesis
  proof (cases "e = 0")
    case True
    have a: "buffer_again pr heap result data buf h = buffer_full pr result (drop c data) b1 h"
      by (subst buffer_again.simps) (simp only: Let_def c b1(1) bind.bind_lunit e True refl if_True)
    show ?thesis using a b1 d ce True o by (intro exI [of _ b1] exI [of _ h]) auto
  next
    case False
    then have f: "b_bufpos b1 = b_bufend b1" "b_bufend b1 + length (take e (drop c data)) \<le> 4096"
      using o b1(5,6) by (auto simp: e_def c_def)
    from fill_grown [OF b1(2) hs f] obtain nb h1 b3
      where r: "libc_realloc heap (b_buffer b1) (CEIL_ALIGN (BUFFER_SIZE b1 + e) BUFFER_SIZEALIGN) h = (Some nb, h1)"
        "fill_at (b_bufpos b1) (take e (drop c data)) (b1\<lparr>b_buffer := nb, b_bufend := CEIL_ALIGN (BUFFER_SIZE b1 + e) BUFFER_SIZEALIGN\<rparr>) = Some b3"
      and b3: "buf_ok b3" "b_closure b3 = b_closure b1" "b_state b3 = b_state b1" "b_bufpos b3 = b_bufpos b1 + e"
        "take (b_bufpos b3) (b_buffer b3) = take (b_bufpos b1) (b_buffer b1) @ take e (drop c data)"
      unfolding e(2) by blast
    have a: "buffer_again pr heap result data buf h = buffer_full pr result (drop e (drop c data)) b3 h1"
      by (subst buffer_again.simps, simp only: Let_def c b1(1) bind.bind_lunit e(1)) (use False r in simp)
    show ?thesis using a b3 b1 d ce o by (intro exI [of _ b3] exI [of _ h1]) simp
  qed
qed

lemma buf_print_step:
  assumes "buf_holds heap closure t (buf, h)" and "length t + length d < 4096"
  shows "\<exists>s'. libc_buffer_print pr heap d (buf, h) = Some (int (length d), s') \<and> buf_holds heap closure (t @ d) s'"
proof -
  have h: "heap_serves heap" "buf_ok buf" "b_closure buf = closure" "b_state buf = 0" "b_bufpos buf = length t"
      "take (b_bufpos buf) (b_buffer buf) = t"
    using assms(1) by (simp_all add: buf_holds_def)
  obtain buf' h' where b: "buffer_again pr heap (int (length d)) d buf h =
        buffer_full pr (int (length d)) (drop (4096 - b_bufpos buf) d) buf' h'" "buf_ok buf'" "b_closure buf' = b_closure buf"
      "b_state buf' = b_state buf" "b_bufpos buf' = min 4096 (b_bufpos buf + length d)"
      "take (b_bufpos buf') (b_buffer buf') = take (b_bufpos buf) (b_buffer buf) @ take (4096 - b_bufpos buf) d"
    using buffer_again_grows [OF h(2,1)] by blast
  have "drop (4096 - b_bufpos buf) d = []" "take (4096 - b_bufpos buf) d = d" using assms(2) h(5) by auto
  then have "libc_buffer_print pr heap d (buf, h) = Some (int (length d), buf', h')"
    using b(1) assms(2) by (simp add: libc_buffer_print_def buffer_limits buffer_full_def)
  moreover have "buf_holds heap closure (t @ d) (buf', h')"
    using b h assms(2) by (simp add: buf_holds_def)
  ultimately show ?thesis by blast
qed

interpretation buf_sink: text_sink "libc_buffer_print pr heap" "buf_holds heap closure" 4096 False
  for pr :: "'s printer" and heap :: "'h heap" and closure :: 's
proof (unfold_locales, unfold calls_def, intro allI impI)
  fix d t :: "byte list" and s :: "'s buffer \<times> 'h"
  assume "buf_holds heap closure t s" and "length t + length d < 4096"
  then show "\<exists>n s'. libc_buffer_print pr heap d s = Some (n, s') \<and>
      (n < 0 \<and> False \<or> n = int (length d) \<and> buf_holds heap closure (t @ d) s')"
    using buf_print_step [of heap closure t "fst s" "snd s" d pr] by auto
qed

subsection \<open>Printing into memory\<close>

lemma put_bytes_append: "put_bytes a (xs @ ys) m = put_bytes (a + length xs) ys (put_bytes a xs m)"
  by (induction xs arbitrary: a m) auto

lemma put_bytes_frame [frame_simps]: "b < a \<or> a + length xs \<le> b \<Longrightarrow> put_bytes a xs m b = m b"
  by (induction xs arbitrary: a m) auto

lemma put_bytes_nth: "i < length xs \<Longrightarrow> put_bytes a xs m (a + i) = xs ! i"
proof -
  assume i: "i < length xs"
  have "put_bytes a (take i xs @ xs ! i # drop (Suc i) xs) m (a + i) = xs ! i"
    using i by (simp add: put_bytes_append put_bytes_frame)
  then show ?thesis using i by (simp add: Cons_nth_drop_Suc)
qed

definition sp_at :: "nat \<Rightarrow> bmem \<Rightarrow> byte list \<Rightarrow> nat \<times> bmem \<Rightarrow> bool" where
  "sp_at buf m0 t = (\<lambda>(buffer, m). buffer = buf + length t \<and> m = put_bytes buf t m0)"

definition sn_at :: "nat \<Rightarrow> nat \<Rightarrow> bmem \<Rightarrow> byte list \<Rightarrow> snprintf_data \<times> bmem \<Rightarrow> bool" where
  "sn_at buf end m0 t = (\<lambda>(b, m). bufpos b = buf + length t \<and> bufend b = end \<and> m = put_bytes buf (take (end - buf) t) m0)"

interpretation sprintf_sink: text_sink libc_sprintf_callback "sp_at buf m0" "U32 - buf" False for buf :: nat and m0 :: bmem
  by unfold_locales (auto simp: calls_def libc_sprintf_callback_def sp_at_def put_bytes_append u32_simps add.assoc)

lemma snprintf_step:
  assumes "sn_at buf end m0 t (b, m)" and "length t + length d < U32 - buf"
  shows "\<exists>s'. snprintf_callback d (b, m) = Some (int (length d), s') \<and> sn_at buf end m0 (t @ d) s'"
proof -
  have b: "bufpos b = buf + length t" "bufend b = end" "m = put_bytes buf (take (end - buf) t) m0"
    using assms(1) by (auto simp: sn_at_def)
  have a: "add32 (bufpos b) (length d) = buf + length (t @ d)" using assms(2) b by (simp add: add32_def)
  have "(if bufpos b < bufend b then put_bytes (bufpos b) (take (min (bufend b - bufpos b) (length d)) d) m else m) =
      put_bytes buf (take (end - buf) (t @ d)) m0"
  proof (cases "bufpos b < bufend b")
    case True
    then have "length t \<le> end - buf" using b by simp
    moreover have "take (min (bufend b - bufpos b) (length d)) d = take (end - buf - length t) d"
      using b by (simp add: min_def)
    ultimately show ?thesis using True b by (simp add: put_bytes_append)
  next
    case False
    then show ?thesis using b by simp
  qed
  then show ?thesis using a b(2) by (auto simp: snprintf_callback_def sn_at_def Let_def)
qed

interpretation snprintf_sink: text_sink snprintf_callback "sn_at buf end m0" "U32 - buf" False for buf "end" :: nat and m0 :: bmem
proof (unfold_locales, unfold calls_def, intro allI impI)
  fix d t :: "byte list" and s :: "snprintf_data \<times> bmem"
  assume "sn_at buf end m0 t s" and "length t + length d < U32 - buf"
  then show "\<exists>n s'. snprintf_callback d s = Some (n, s') \<and> (n < 0 \<and> False \<or> n = int (length d) \<and> sn_at buf end m0 (t @ d) s')"
    using snprintf_step [of buf "end" m0 t "fst s" "snd s" d] by auto
qed

lemma vsprintf_eq:
  assumes "buf + length (concat chunks) < U32"
  shows "libc_vsprintf buf chunks m = Some (int (length (concat chunks)), put_bytes buf (concat chunks @ [0]) m)"
proof -
  have "sp_at buf m [] (buf, m)" by (simp add: sp_at_def)
  then obtain s' where "vprintf_calls libc_sprintf_callback chunks (buf, m) = Some (int (length (concat chunks)), s')"
      "sp_at buf m (concat chunks) s'"
    using sprintf_sink.calls_vprintf [of buf m chunks] assms unfolding calls_def by fastforce
  then show ?thesis by (auto simp: libc_vsprintf_def sp_at_def put_bytes_append)
qed

lemma vsnprintf_eq:
  assumes "buf + length (concat chunks) < U32" and "buf + buflen < U32"
  shows "libc_vsnprintf buf buflen chunks m = Some (length (concat chunks),
    put_bytes buf (take buflen (concat chunks) @ (if length (concat chunks) < buflen then [0] else [])) m)"
proof -
  let ?b = "\<lparr>bufpos = buf, bufend = buf + buflen\<rparr>"
  have "sn_at buf (buf + buflen) m [] (?b, m)" by (simp add: sn_at_def)
  then obtain s' where "vprintf_calls snprintf_callback chunks (?b, m) = Some (int (length (concat chunks)), s')"
      "sn_at buf (buf + buflen) m (concat chunks) s'"
    using snprintf_sink.calls_vprintf [of buf "buf + buflen" m chunks] assms(1) unfolding calls_def by fastforce
  then show ?thesis using assms by (cases s') (simp add: libc_vsnprintf_def sn_at_def put_bytes_append Let_def u32_simps)
qed

subsection \<open>Quoted text\<close>

lemma unat_and_mask: "unat (ch AND mask k) = unat ch mod 2 ^ k" for ch :: byte
  by (simp only: take_bit_eq_mask [symmetric] unsigned_take_bit_eq) (simp add: take_bit_eq_mod)

lemma unat_low_nibble: "unat (ch AND 0xf) = unat ch mod 16" for ch :: byte
  using unat_and_mask [of ch 4] by (simp add: mask_eq_exp_minus_1)

lemma unat_low_oct: "unat (ch AND 0x7) = unat ch mod 8" for ch :: byte
  using unat_and_mask [of ch 3] by (simp add: mask_eq_exp_minus_1)

lemma nibbles: "unat ch div 16 < 16" "unat ch mod 16 < 16" for ch :: byte
proof -
  have "unat ch < 2 ^ LENGTH(8)" by (rule unsigned_less)
  then show "unat ch div 16 < 16" "unat ch mod 16 < 16" by simp_all
qed

lemma unat_high_nibble: "unat (drop_bit 4 ch) mod 16 = unat ch div 16" for ch :: byte
  by (simp only: unat_drop_bit_eq) (simp add: drop_bit_eq_div nibbles)

definition printable :: "byte \<Rightarrow> bool" where
  "printable b \<longleftrightarrow> 32 \<le> b \<and> b < 127"

lemma tooct_printable: "printable (tooct (c AND 7))"
proof -
  have "unat (c AND 7) < 8" by (simp add: unat_low_oct)
  then show ?thesis
    by (simp add: tooct_def printable_def word_le_nat_alt word_less_nat_alt unat_word_ariths)
qed

lemma encode_oct_printable: "list_all printable (encode_oct ch)"
proof -
  have "drop_bit 3 (ch AND 0x38) = drop_bit 3 ch AND 7" by (simp add: drop_bit_and)
  moreover have "drop_bit 6 (ch AND 0xC0) = drop_bit 6 ch AND 3" by (simp add: drop_bit_and)
  moreover have "printable (tooct (drop_bit 6 ch AND 3))"
    using tooct_printable [of "drop_bit 6 ch AND 3"] by (simp add: and.assoc)
  ultimately show ?thesis by (simp add: encode_oct_def tooct_printable) (simp add: printable_def)
qed

lemma hex_digits_printable: "list_all printable (decimals ! 0) \<and> list_all printable (decimals ! 1)"
  by (simp add: decimals_def printable_def)

lemma decimals_printable: "n < 16 \<Longrightarrow> i < 2 \<Longrightarrow> printable (decimals ! i ! n)"
  using hex_digits_printable by (auto simp: less_2_cases_iff list_all_length decimals_def)

lemma encode_hex_printable: "list_all printable (encode_hex flags ch)"
proof -
  have "unat ch < 16" if "ch \<le> 0xf" using that by (simp add: word_le_nat_alt)
  then show ?thesis
    by (simp add: encode_hex_def Let_def unat_low_nibble unat_high_nibble decimals_printable nibbles) (simp add: printable_def)
qed

lemma quote_char_printable: "list_all printable (quote_char flags ch)"
proof -
  have "list_all printable (special_control flags ch)"
    using encode_oct_printable [of ch] encode_hex_printable [of flags ch]
    by (simp add: special_control_def default_ctrl_def printable_def)
  then show ?thesis
    using encode_oct_printable [of ch] encode_hex_printable [of flags ch]
    by (auto simp: quote_char_def encoded_text_def default_ctrl_def needs_encoding_def printable_def)
qed

text \<open>A reader of the default quotation: it takes two hex digits behind \<open>\x\<close> and one character behind any other backslash.\<close>

definition hex_value :: "byte \<Rightarrow> byte" where
  "hex_value c = (if c \<ge> 65 then c - 55 else c - 48)"

definition named_char :: "byte \<Rightarrow> byte" where
  "named_char e = (case map_of [(97, 7), (98, 8), (102, 12), (110, 10), (114, 13), (116, 9), (118, 11), (101, 27)] e of
     Some c \<Rightarrow> c | None \<Rightarrow> e)"

fun unquote1 :: "byte list \<Rightarrow> (byte \<times> byte list) option" where
  "unquote1 [] = None"
| "unquote1 (c # cs) = (if c \<noteq> 92 then Some (c, cs) else
     case cs of [] \<Rightarrow> None
     | e # es \<Rightarrow> if e \<noteq> 120 then Some (named_char e, es) else
         (case es of h # l # rest \<Rightarrow> Some (16 * hex_value h + hex_value l, rest) | _ \<Rightarrow> None))"

definition self_delimiting :: "byte \<Rightarrow> bool" where
  "self_delimiting ch \<longleftrightarrow> 32 \<le> ch \<or> ch \<in> set [7, 8, 9, 10, 11, 12, 13, 27]"

lemma unquote1_append: "unquote1 xs = Some (c, []) \<Longrightarrow> unquote1 (xs @ rest) = Some (c, rest)"
  by (cases xs) (auto split: list.splits if_splits)

lemma hex_value_digit: "n < 16 \<Longrightarrow> hex_value (decimals ! 1 ! n) = word_of_nat n"
proof -
  have "list_all (\<lambda>n. hex_value (decimals ! 1 ! n) = word_of_nat n) [0..<16]" by code_simp
  then show "n < 16 \<Longrightarrow> ?thesis" by (simp add: list_all_iff)
qed

lemma unquote1_quote_char: "self_delimiting ch \<Longrightarrow> unquote1 (quote_char 0 ch) = Some (ch, [])"
proof -
  assume d: "self_delimiting ch"
  have f: "\<not> fset 0 f" for f by (simp add: fset_def)
  consider "ch < 32" | "ch = 92 \<or> ch = 39 \<or> ch = 34" | "127 \<le> ch" | "32 \<le> ch" "ch < 127" "ch \<noteq> 92" "ch \<noteq> 39" "ch \<noteq> 34"
    by fastforce
  then show "unquote1 (quote_char 0 ch) = Some (ch, [])"
  proof cases
    case 1
    then have "ch \<in> set [7, 8, 9, 10, 11, 12, 13, 27]" using d by (simp add: self_delimiting_def not_le [symmetric])
    then show ?thesis
      by (auto simp: quote_char_def needs_encoding_def encoded_text_def special_control_def f named_char_def)
  next
    case 2
    then show ?thesis
      by (auto simp: quote_char_def needs_encoding_def encoded_text_def special_control_def f named_char_def)
  next
    case 3
    then have "\<not> ch < 32" "\<not> ch \<le> 0xf" "ch \<noteq> 92" "ch \<noteq> 39" "ch \<noteq> 34"
      by (auto simp: word_le_nat_alt word_less_nat_alt)
    then have q: "quote_char 0 ch = [92, 120, decimals ! 1 ! (unat ch div 16), decimals ! 1 ! (unat ch mod 16)]"
      using 3 by (simp add: quote_char_def needs_encoding_def encoded_text_def encode_hex_def f Let_def unat_low_nibble unat_high_nibble)
    have "(word_of_nat (16 * (unat ch div 16) + unat ch mod 16) :: byte) = ch" by (simp only: mult_div_mod_eq) simp
    then have "16 * word_of_nat (unat ch div 16) + word_of_nat (unat ch mod 16) = ch"
      by (simp only: of_nat_add of_nat_mult of_nat_numeral)
    then show ?thesis unfolding q by (simp add: hex_value_digit nibbles del: One_nat_def)
  next
    case 4
    then have "\<not> needs_encoding 0 ch" unfolding needs_encoding_def using f leD by blast
    then show ?thesis using 4 by (simp add: quote_char_def)
  qed
qed

lemma quote_chars_inj:
  "list_all self_delimiting s \<Longrightarrow> list_all self_delimiting t \<Longrightarrow>
   concat (map (quote_char 0) s) = concat (map (quote_char 0) t) \<Longrightarrow> s = t"
proof (induction s arbitrary: t)
  case Nil
  then show ?case using unquote1_quote_char by (cases t) fastforce+
next
  case (Cons a s)
  have a: "unquote1 (concat (map (quote_char 0) (a # s))) = Some (a, concat (map (quote_char 0) s))"
    using Cons.prems(1) unquote1_append [OF unquote1_quote_char] by simp
  then have "unquote1 (concat (map (quote_char 0) t)) = Some (a, concat (map (quote_char 0) s))"
    using Cons.prems(3) by (simp only:)
  then obtain b t' where t: "t = b # t'" by (cases t) simp_all
  have "unquote1 (concat (map (quote_char 0) t)) = Some (b, concat (map (quote_char 0) t'))"
    using Cons.prems(2) unquote1_append [OF unquote1_quote_char] t by simp
  then show ?case using a Cons t by simp
qed

subsection \<open>Properties\<close>

text \<open>A heap that always has memory, and fills it with zeros.\<close>

definition zero_heap :: "unit heap" where
  "zero_heap n h = (Some (\<lambda>_. 0), h)"

lemma zero_heap_serves: "heap_serves zero_heap"
  by (simp add: heap_serves_def zero_heap_def)

text \<open>
  Quoting into a string printer: \<open>libc_format_quote\<close> through \<open>libc_stringprinter_print\<close> returns; if it does not fail for
  want of memory, it counts the quoted text, and \<open>libc_stringprinter_pack\<close> gives exactly that text with its terminator,
  however often the buffer was enlarged on the way.
\<close>

theorem stringprinter_quote:
  assumes "hint < U32 - 1" and "libc_stringprinter_init heap hint h = (0, sp, h1)" and "length (quote_text flags str) < 2 ^ 31"
  shows "\<exists>n sp' h2. libc_format_quote (libc_stringprinter_print heap) str flags (sp, h1) = Some (n, sp', h2) \<and>
    (n < 0 \<and> \<not> heap_serves heap \<or> n = int (length (quote_text flags str)) \<and>
     (\<exists>result h3. libc_stringprinter_pack heap sp' h2 =
          (result, length (quote_text flags str), sp'\<lparr>sp_buffer := None\<rparr>, h3) \<and>
        take (length (quote_text flags str) + 1) result = quote_text flags str @ [0]))"
proof -
  obtain n s' where q: "libc_format_quote (libc_stringprinter_print heap) str flags (sp, h1) = Some (n, s')"
    "n < 0 \<and> \<not> heap_serves heap \<or> n = int (length (quote_text flags str)) \<and> sp_holds (quote_text flags str) s'"
    using sp_sink.calls_quote [of heap str flags] sp_init_holds [OF assms(1,2)] assms(3) unfolding calls_def by fastforce
  obtain sp' h2 where s: "s' = (sp', h2)" by fastforce
  obtain result len sp2 h3 where p: "libc_stringprinter_pack heap sp' h2 = (result, len, sp2, h3)" by (metis prod_cases4)
  have k: "sp2 = sp'\<lparr>sp_buffer := None\<rparr>" using p by (auto simp: libc_stringprinter_pack_def Let_def split: prod.splits)
  show ?thesis
  proof (cases "n < 0 \<and> \<not> heap_serves heap")
    case True
    then show ?thesis using q(1) s by blast
  next
    case False
    then have n: "n = int (length (quote_text flags str))" and hd: "sp_holds (quote_text flags str) (sp', h2)" using q(2) s by auto
    from sp_pack_holds [OF hd p] have "len = length (quote_text flags str)" "take (len + 1) result = quote_text flags str @ [0]"
      by blast+
    then have "\<exists>result h3. libc_stringprinter_pack heap sp' h2 =
          (result, length (quote_text flags str), sp'\<lparr>sp_buffer := None\<rparr>, h3) \<and>
        take (length (quote_text flags str) + 1) result = quote_text flags str @ [0]" using p k by (simp only: prod.inject) blast
    then show ?thesis using q(1) n unfolding s by blast
  qed
qed

theorem stringprinter_quote_witness:
  "\<exists>sp' h2. libc_format_quote (libc_stringprinter_print zero_heap) (replicate 20 10) 0
      (\<lparr>sp_bufpos = 0, sp_buffer = Some (replicate 17 0), sp_bufend = 16\<rparr>, ()) = Some (42, sp', h2)"
proof -
  have a: "add32 16 1 = 17" by (simp add: add32_def)
  have r: "put_at 16 [0] (replicate 17 0) = (replicate 17 0 :: byte list)"
    by (simp add: put_at_def numeral_eq_Suc)
  have i: "libc_stringprinter_init zero_heap 0 () = (0, \<lparr>sp_bufpos = 0, sp_buffer = Some (replicate 17 0), sp_bufend = 16\<rparr>, ())"
    by (simp add: libc_stringprinter_init_def zero_heap_def libc_realloc_def map_replicate_const a r del: One_nat_def)
  have "quote_char 0 10 = [92, 110]"
    by (simp add: quote_char_def needs_encoding_def encoded_text_def special_control_def fset_def)
  then have q: "length (quote_text 0 (replicate 20 10)) = 42"
    by (simp add: quote_text_def quote_mark_def fset_def length_concat sum_list_replicate)
  have "0 < U32 - 1" "length (quote_text 0 (replicate 20 10)) < 2 ^ 31" unfolding q by simp_all
  from stringprinter_quote [OF this(1) i this(2)] show ?thesis unfolding q using zero_heap_serves by auto
qed



text \<open>
  C38: Buffered printing is printing: when the heap has memory and the texts stay below \<open>BUFFER_PRINTLIMIT\<close> together,
  \<open>libc_format_vbprintf\<close> calls the printer exactly once, on all of the text in order, and returns what it returns; it does
  not call it at all when there is no text.
\<close>

theorem vbprintf_refines_print:
  assumes "heap_serves heap" and "length (concat chunks) < BUFFER_PRINTLIMIT"
  shows "libc_format_vbprintf printer heap chunks closure h =
    (if concat chunks = [] then Some (0, closure) else printer (concat chunks) closure)"
proof -
  have i: "buf_holds heap closure [] (libc_buffer_init closure, h)"
    using assms(1) by (simp add: buf_holds_def buf_ok_def libc_buffer_init_def)
  from assms(2) have "length [] + length (concat chunks) < 4096" by (simp add: buffer_limits)
  then obtain buf h' where v: "vprintf_calls (libc_buffer_print printer heap) chunks (libc_buffer_init closure, h) =
        Some (int (length (concat chunks)), buf, h')" "buf_holds heap closure (concat chunks) (buf, h')"
    using buf_sink.calls_vprintf [of heap closure printer chunks] i unfolding calls_def by fastforce
  have b: "b_closure buf = closure" "b_state buf = 0" "BUFFER_USED buf = length (concat chunks)"
      "take (length (concat chunks)) (b_buffer buf) = concat chunks" "length (concat chunks) \<le> length (b_buffer buf)"
    using v(2) by (auto simp: buf_holds_def buf_ok_def buffer_macros)
  have "libc_buffer_fini printer buf = (if concat chunks = [] then Some (0, closure) else printer (concat chunks) closure)"
    using b(5) unfolding libc_buffer_fini_def Let_def b(2,3)
    by (simp add: print_used_def call_printer_def b(1,2,4) split: Option.bind_split)
  then show ?thesis by (simp add: libc_format_vbprintf_def v(1))
qed

theorem vbprintf_refines_print_witness:
  "libc_format_vbprintf (\<lambda>d t. Some (int (length d), t @ [d])) zero_heap [[72], [105, 33]] [] () = Some (3, [[72, 105, 33]])"
  using vbprintf_refines_print [where heap = zero_heap and chunks = "[[72], [105, 33]]" and closure = "[]" and h = "()"
      and printer = "\<lambda>d t. Some (int (length d), t @ [d])"] by (simp add: zero_heap_serves buffer_limits)

text \<open>
  A full buffer loses its position: when a second text does not fit into the \<open>BUFFER_PRINTLIMIT\<close> bytes, the full block is
  printed and the rest is copied to its start, but \<open>b_bufpos\<close> is moved on from the end of the block. It then lies behind
  \<open>b_bufend\<close>, and finishing the buffer reads behind its block.
\<close>

theorem buffer_print_overruns:
  assumes "heap_serves heap" and "length d1 < BUFFER_PRINTLIMIT" and "length d2 < BUFFER_PRINTLIMIT"
    and "BUFFER_PRINTLIMIT < length d1 + length d2"
    and "printer (take BUFFER_PRINTLIMIT (d1 @ d2)) closure = Some (n, closure')" and "0 \<le> n" and "n < 2 ^ 31"
  shows "\<exists>s1 buf h'. libc_buffer_print printer heap d1 (libc_buffer_init closure, h) = Some (int (length d1), s1) \<and>
    libc_buffer_print printer heap d2 s1 = Some (int (length d2), buf, h') \<and>
    b_bufpos buf = length d1 + length d2 \<and> b_bufend buf = BUFFER_PRINTLIMIT \<and> libc_buffer_fini printer buf = None"
proof -
  have i: "buf_holds heap closure [] (libc_buffer_init closure, h)"
    using assms(1) by (simp add: buf_holds_def buf_ok_def libc_buffer_init_def)
  then obtain b1 h1 where s1: "libc_buffer_print printer heap d1 (libc_buffer_init closure, h) = Some (int (length d1), b1, h1)"
      "buf_holds heap closure d1 (b1, h1)"
    using buf_print_step [OF i, of d1 printer] assms(2) by (auto simp: buffer_limits)
  then have b1: "buf_ok b1" "b_closure b1 = closure" "b_state b1 = 0" "b_bufpos b1 = length d1" "take (length d1) (b_buffer b1) = d1"
    by (auto simp: buf_holds_def)
  obtain b2 h2 where b2: "buffer_again printer heap (int (length d2)) d2 b1 h1 =
        buffer_full printer (int (length d2)) (drop (4096 - b_bufpos b1) d2) b2 h2" "buf_ok b2" "b_closure b2 = b_closure b1"
      "b_state b2 = b_state b1" "b_bufpos b2 = min 4096 (b_bufpos b1 + length d2)"
      "take (b_bufpos b2) (b_buffer b2) = take (b_bufpos b1) (b_buffer b1) @ take (4096 - b_bufpos b1) d2"
    using buffer_again_grows [OF b1(1) assms(1)] by blast
  define r where "r = drop (4096 - length d1) d2"
  have r: "r \<noteq> []" "length r = length d1 + length d2 - 4096" using assms(2,4) by (auto simp: r_def buffer_limits)
  have p2: "b_bufpos b2 = 4096" "b_bufend b2 = 4096" "length (b_buffer b2) = 4096"
    using b2(2,5) b1(4) assms(4) by (auto simp: buf_ok_def buffer_limits)
  have t2: "take 4096 (b_buffer b2) = take 4096 (d1 @ d2)" using b2(6) b1 p2 assms(2) by (simp add: buffer_limits)
  define b3 where "b3 = b2\<lparr>b_closure := closure', b_state := n, b_buffer := put_at 0 r (b_buffer b2), b_bufpos := 4096 + length r\<rparr>"
  have "buffer_full printer (int (length d2)) r b2 h2 = Some (int (length d2), b3, h2)"
    using r p2 t2 assms(2,3,5-7) b2(3,4) b1
    by (simp add: buffer_full_def print_used_def call_printer_def buffer_limits BUFFER_ADDSTATE_def fill_at_def b3_def Let_def)
  then have "libc_buffer_print printer heap d2 (b1, h1) = Some (int (length d2), b3, h2)"
    using b2(1) b1(4) assms(3) by (simp add: libc_buffer_print_def r_def buffer_limits)
  moreover have "libc_buffer_fini printer b3 = None"
    using r p2 assms(2,3,4,6) by (simp add: libc_buffer_fini_def print_used_def b3_def buffer_macros buffer_limits)
  ultimately show ?thesis using s1(1) r p2 assms(4) by (auto simp: b3_def buffer_limits)
qed

theorem buffer_print_overruns_witness:
  "\<exists>s1 buf h'. libc_buffer_print (\<lambda>d t. Some (int (length d), t)) zero_heap (replicate 4000 65) (libc_buffer_init (), ()) =
      Some (4000, s1) \<and>
    libc_buffer_print (\<lambda>d t. Some (int (length d), t)) zero_heap (replicate 200 66) s1 = Some (200, buf, h') \<and>
    b_bufpos buf = 4200 \<and> b_bufend buf = 4096"
  using buffer_print_overruns [where heap = zero_heap and ?d1.0 = "replicate 4000 65" and ?d2.0 = "replicate 200 66" and h = "()"
      and closure = "()" and closure' = "()" and n = 4096 and printer = "\<lambda>d t. Some (int (length d), t)"]
  by (auto simp: zero_heap_serves buffer_limits)



text \<open>
  A hex dump through a string printer: the printer receives the lines of the dump (prefix, hexadecimal and text columns,
  the last line filled up with spaces) separated by newlines, and nothing else, whatever the flags; the loop ends.
\<close>

theorem hexdump_prints_lines:
  assumes "bs \<noteq> []" and "0 < linesize" and "sp_holds [] (sp, h)"
    and "length (dump_text (line_prefix fmt_p fmt_Ix flags linesize data) flags linesize data bs) < 2 ^ 31"
  shows "\<exists>n s'. libc_format_hexdump (libc_stringprinter_print heap) fmt_p fmt_Ix data bs linesize flags (sp, h) = Some (n, s') \<and>
    (n < 0 \<and> \<not> heap_serves heap \<or>
     sp_holds (dump_text (line_prefix fmt_p fmt_Ix flags linesize data) flags linesize data bs) s')"
proof -
  have "calls sp_holds (2 ^ 31) (\<not> heap_serves heap)
      (libc_format_hexdump (libc_stringprinter_print heap) fmt_p fmt_Ix data bs linesize flags)
      (dump_text (line_prefix fmt_p fmt_Ix flags linesize data) flags linesize data bs)"
    using sp_sink.calls_hexdump [of heap fmt_p fmt_Ix data bs linesize flags] assms(1,2) by simp
  then show ?thesis using assms(3,4) unfolding calls_def by fastforce
qed

theorem hexdump_prints_lines_witness:
  "\<exists>n s'. libc_format_hexdump (libc_stringprinter_print zero_heap) (\<lambda>_. []) (\<lambda>_ _. []) 4096 [0x41, 0xAB, 0x0A] 2
      FORMAT_HEXDUMP_FLAG_NOASCII (\<lparr>sp_bufpos = 0, sp_buffer = Some (replicate 17 0), sp_bufend = 16\<rparr>, ()) = Some (n, s') \<and>
    sp_holds ([52, 49, 32, 97, 98, 32, 10, 48, 97, 32] @ replicate 3 32) s'"
proof -
  have h: "sp_holds [] (\<lparr>sp_bufpos = 0, sp_buffer = Some (replicate 17 0), sp_bufend = 16\<rparr>, ())" by (simp add: sp_holds_def)
  have t: "dump_text (line_prefix (\<lambda>_. []) (\<lambda>_ _. []) FORMAT_HEXDUMP_FLAG_NOASCII 2 4096) FORMAT_HEXDUMP_FLAG_NOASCII 2 4096 [0x41, 0xAB, 0x0A] =
      ([52, 49, 32, 97, 98, 32, 10, 48, 97, 32] @ replicate 3 32)"
    by (simp add: dump_text.simps dump_line_def line_prefix_def hex_buf_def decimals_def dump_flag_defs fset_def drop_bit_and Let_def)
  show ?thesis
    using hexdump_prints_lines [where bs = "[0x41, 0xAB, 0x0A]" and linesize = 2 and flags = FORMAT_HEXDUMP_FLAG_NOASCII and data = 4096
        and heap = zero_heap and fmt_p = "\<lambda>_. []" and fmt_Ix = "\<lambda>_ _. []", OF _ _ h] zero_heap_serves
    unfolding t by auto
qed

text \<open>The tables of digits are the wrong way round for both flags.\<close>

lemma hex_case_swapped:
  "encode_hex FORMAT_QUOTE_FLAG_UPPERHEX 0xAB = [92, 120, 97, 98] \<and> encode_hex 0 0xAB = [92, 120, 65, 66] \<and>
   hex_buf FORMAT_HEXDUMP_FLAG_HEXLOWER 0xAB = [65, 66, 32] \<and> hex_buf 0 0xAB = [97, 98, 32]"
  by (simp add: encode_hex_def hex_buf_def decimals_def fset_def quote_flag_defs dump_flag_defs drop_bit_and Let_def)

text \<open>With nothing left to print, finishing the buffer forgets the sum of the earlier calls.\<close>

lemma fini_forgets_sum: "b_bufpos buf = 0 \<Longrightarrow> libc_buffer_fini printer buf = Some (0, b_closure buf)"
  by (simp add: libc_buffer_fini_def buffer_macros)

end
