(* ===== verification/Rwlock.thy ===== *)
theory Rwlock
  imports Prelude
begin

text \<open>
  The atomic read/write lock of \<open>src/include/hybrid/sync/atomic-rwlock.h\<close>, run by any number of threads. Every function is
  cut at its atomic accesses: a control point of type \<open>loop_pc\<close> names the next one, and one call of the definition performs
  it and gives the control point or the result that follows. \<open>ndebug\<close> selects the build; in the debug build a failed
  assertion is the outcome \<open>Assertion\<close>. \<open>ATOMIC_CMPXCH_WEAK\<close> may fail without reason, which the flag \<open>spurious\<close> decides.
\<close>

unbundle bit_operations_syntax

type_synonym lockword = "32 word"

definition ATOMIC_RWLOCK_RMASK :: lockword where "ATOMIC_RWLOCK_RMASK = 0x7fffffff"
definition ATOMIC_RWLOCK_WFLAG :: lockword where "ATOMIC_RWLOCK_WFLAG = 0x80000000"
definition ATOMIC_RWLOCK_INIT :: lockword where "ATOMIC_RWLOCK_INIT = 0"

lemmas rwlock_words = ATOMIC_RWLOCK_RMASK_def ATOMIC_RWLOCK_WFLAG_def ATOMIC_RWLOCK_INIT_def

definition atomic_rwlock_reading :: "lockword \<Rightarrow> bool" where "atomic_rwlock_reading x \<longleftrightarrow> x \<noteq> 0"
definition atomic_rwlock_writing :: "lockword \<Rightarrow> bool" where "atomic_rwlock_writing x \<longleftrightarrow> x AND ATOMIC_RWLOCK_WFLAG \<noteq> 0"

subsection \<open>The operations\<close>

datatype loop_pc = READ | CMPXCH lockword lockword
datatype ('pc, 'a) outcome = Goto 'pc | Return 'a | Assertion

definition CMPXCH_WEAK :: "bool \<Rightarrow> lockword \<Rightarrow> lockword \<Rightarrow> 'a \<Rightarrow> lockword \<Rightarrow> (loop_pc, 'a) outcome \<times> lockword" where
  "CMPXCH_WEAK spurious old new result l = (if l = old \<and> \<not> spurious then (Return result, new) else (Goto READ, l))"

definition atomic_rwlock_endwrite :: "bool \<Rightarrow> bool \<Rightarrow> loop_pc \<Rightarrow> lockword \<Rightarrow> (loop_pc, unit) outcome \<times> lockword" where
  "atomic_rwlock_endwrite ndebug spurious pc l =
     (if ndebug then (Return (), 0)
      else case pc of
        READ \<Rightarrow> if l AND ATOMIC_RWLOCK_WFLAG = 0 then (Assertion, l) else (Goto (CMPXCH l 0), l)
      | CMPXCH old new \<Rightarrow> CMPXCH_WEAK spurious old new () l)"

definition atomic_rwlock_endread :: "bool \<Rightarrow> bool \<Rightarrow> loop_pc \<Rightarrow> lockword \<Rightarrow> (loop_pc, bool) outcome \<times> lockword" where
  "atomic_rwlock_endread ndebug spurious pc l =
     (if ndebug then (Return (l - 1 = 0), l - 1)
      else case pc of
        READ \<Rightarrow> if l AND ATOMIC_RWLOCK_WFLAG \<noteq> 0 then (Assertion, l)
                else if l = 0 then (Assertion, l)
                else (Goto (CMPXCH l (l - 1)), l)
      | CMPXCH old new \<Rightarrow> CMPXCH_WEAK spurious old new (old = 1) l)"

definition atomic_rwlock_end :: "bool \<Rightarrow> bool \<Rightarrow> loop_pc \<Rightarrow> lockword \<Rightarrow> (loop_pc, bool) outcome \<times> lockword" where
  "atomic_rwlock_end ndebug spurious pc l = (case pc of
       READ \<Rightarrow> if l AND ATOMIC_RWLOCK_WFLAG \<noteq> 0
               then (if \<not> ndebug \<and> l AND ATOMIC_RWLOCK_RMASK \<noteq> 0 then (Assertion, l) else (Goto (CMPXCH l 0), l))
               else (if \<not> ndebug \<and> l = 0 then (Assertion, l) else (Goto (CMPXCH l (l - 1)), l))
     | CMPXCH old new \<Rightarrow> CMPXCH_WEAK spurious old new (new = 0) l)"

definition atomic_rwlock_tryread :: "bool \<Rightarrow> bool \<Rightarrow> loop_pc \<Rightarrow> lockword \<Rightarrow> (loop_pc, bool) outcome \<times> lockword" where
  "atomic_rwlock_tryread ndebug spurious pc l = (case pc of
       READ \<Rightarrow> if l AND ATOMIC_RWLOCK_WFLAG \<noteq> 0 then (Return False, l)
               else if \<not> ndebug \<and> l AND ATOMIC_RWLOCK_RMASK = ATOMIC_RWLOCK_RMASK then (Assertion, l)
               else (Goto (CMPXCH l (l + 1)), l)
     | CMPXCH old new \<Rightarrow> CMPXCH_WEAK spurious old new True l)"

definition atomic_rwlock_trywrite :: "lockword \<Rightarrow> bool \<times> lockword" where
  "atomic_rwlock_trywrite l = (if l = 0 then (True, ATOMIC_RWLOCK_WFLAG) else (False, l))"

definition atomic_rwlock_read :: "bool \<Rightarrow> bool \<Rightarrow> loop_pc \<Rightarrow> lockword \<Rightarrow> (loop_pc, unit) outcome \<times> lockword" where
  "atomic_rwlock_read ndebug spurious pc l = (case atomic_rwlock_tryread ndebug spurious pc l of
       (Goto pc', l') \<Rightarrow> (Goto pc', l')
     | (Return r, l') \<Rightarrow> (if r then Return () else Goto READ, l')
     | (Assertion, l') \<Rightarrow> (Assertion, l'))"

definition atomic_rwlock_write :: "lockword \<Rightarrow> (unit, unit) outcome \<times> lockword" where
  "atomic_rwlock_write l = (let (r, l') = atomic_rwlock_trywrite l in (if r then Return () else Goto (), l'))"

definition atomic_rwlock_tryupgrade :: "bool \<Rightarrow> loop_pc \<Rightarrow> lockword \<Rightarrow> (loop_pc, bool) outcome \<times> lockword" where
  "atomic_rwlock_tryupgrade spurious pc l = (case pc of
       READ \<Rightarrow> if l \<noteq> 1 then (Return False, l) else (Goto (CMPXCH l ATOMIC_RWLOCK_WFLAG), l)
     | CMPXCH old new \<Rightarrow> CMPXCH_WEAK spurious old new True l)"

datatype upgrade_pc = UP_TRY loop_pc | UP_ENDREAD loop_pc | UP_WRITE

definition atomic_rwlock_upgrade :: "bool \<Rightarrow> bool \<Rightarrow> upgrade_pc \<Rightarrow> lockword \<Rightarrow> (upgrade_pc, bool) outcome \<times> lockword" where
  "atomic_rwlock_upgrade ndebug spurious pc l = (case pc of
       UP_TRY p \<Rightarrow> (case atomic_rwlock_tryupgrade spurious p l of
           (Goto p', l') \<Rightarrow> (Goto (UP_TRY p'), l')
         | (Return r, l') \<Rightarrow> (if r then Return True else Goto (UP_ENDREAD READ), l')
         | (Assertion, l') \<Rightarrow> (Assertion, l'))
     | UP_ENDREAD p \<Rightarrow> (case atomic_rwlock_endread ndebug spurious p l of
           (Goto p', l') \<Rightarrow> (Goto (UP_ENDREAD p'), l')
         | (Return _, l') \<Rightarrow> (Goto UP_WRITE, l')
         | (Assertion, l') \<Rightarrow> (Assertion, l'))
     | UP_WRITE \<Rightarrow> (case atomic_rwlock_write l of
           (Goto _, l') \<Rightarrow> (Goto UP_WRITE, l')
         | (Return _, l') \<Rightarrow> (Return False, l')
         | (Assertion, l') \<Rightarrow> (Assertion, l')))"

definition atomic_rwlock_downgrade :: "bool \<Rightarrow> bool \<Rightarrow> loop_pc \<Rightarrow> lockword \<Rightarrow> (loop_pc, unit) outcome \<times> lockword" where
  "atomic_rwlock_downgrade ndebug spurious pc l =
     (if ndebug then (Return (), 1)
      else case pc of
        READ \<Rightarrow> if l \<noteq> ATOMIC_RWLOCK_WFLAG then (Assertion, l) else (Goto (CMPXCH l 1), l)
      | CMPXCH old new \<Rightarrow> CMPXCH_WEAK spurious old new () l)"

lemmas rwlock_ops = atomic_rwlock_endwrite_def atomic_rwlock_endread_def atomic_rwlock_end_def atomic_rwlock_tryread_def
  atomic_rwlock_trywrite_def atomic_rwlock_read_def atomic_rwlock_write_def atomic_rwlock_tryupgrade_def
  atomic_rwlock_upgrade_def atomic_rwlock_downgrade_def CMPXCH_WEAK_def

subsection \<open>Threads\<close>

text \<open>
  A thread holds nothing, a read lock or the write lock, or is inside one of the functions. \<open>calls\<close> is the discipline of the
  callers: only what is held is ended, upgraded or downgraded.
\<close>

datatype rw_thread = Idle | Reading | Writing
  | In_tryread loop_pc | In_read loop_pc | In_trywrite | In_write
  | In_tryupgrade loop_pc | In_upgrade upgrade_pc | In_endread loop_pc | In_end_read loop_pc
  | In_endwrite loop_pc | In_end_write loop_pc | In_downgrade loop_pc
  | Failed

fun may_call :: "rw_thread \<Rightarrow> rw_thread list" where
  "may_call Idle = [In_tryread READ, In_read READ, In_trywrite, In_write]"
| "may_call Reading = [In_tryupgrade READ, In_upgrade (UP_TRY READ), In_endread READ, In_end_read READ]"
| "may_call Writing = [In_endwrite READ, In_end_write READ, In_downgrade READ]"
| "may_call _ = []"

fun goes :: "('pc \<Rightarrow> rw_thread) \<Rightarrow> ('a \<Rightarrow> rw_thread) \<Rightarrow> ('pc, 'a) outcome \<times> lockword \<Rightarrow> rw_thread \<times> lockword" where
  "goes inside result (Goto pc, l) = (inside pc, l)"
| "goes inside result (Return r, l) = (result r, l)"
| "goes inside result (Assertion, l) = (Failed, l)"

fun thread_step :: "bool \<Rightarrow> bool \<Rightarrow> rw_thread \<Rightarrow> lockword \<Rightarrow> rw_thread \<times> lockword" where
  "thread_step nd sp (In_tryread pc) l = goes In_tryread (\<lambda>r. if r then Reading else Idle) (atomic_rwlock_tryread nd sp pc l)"
| "thread_step nd sp (In_read pc) l = goes In_read (\<lambda>_. Reading) (atomic_rwlock_read nd sp pc l)"
| "thread_step nd sp In_trywrite l = (let (r, l') = atomic_rwlock_trywrite l in (if r then Writing else Idle, l'))"
| "thread_step nd sp In_write l = goes (\<lambda>_. In_write) (\<lambda>_. Writing) (atomic_rwlock_write l)"
| "thread_step nd sp (In_tryupgrade pc) l = goes In_tryupgrade (\<lambda>r. if r then Writing else Reading) (atomic_rwlock_tryupgrade sp pc l)"
| "thread_step nd sp (In_upgrade pc) l = goes In_upgrade (\<lambda>_. Writing) (atomic_rwlock_upgrade nd sp pc l)"
| "thread_step nd sp (In_endread pc) l = goes In_endread (\<lambda>_. Idle) (atomic_rwlock_endread nd sp pc l)"
| "thread_step nd sp (In_end_read pc) l = goes In_end_read (\<lambda>_. Idle) (atomic_rwlock_end nd sp pc l)"
| "thread_step nd sp (In_endwrite pc) l = goes In_endwrite (\<lambda>_. Idle) (atomic_rwlock_endwrite nd sp pc l)"
| "thread_step nd sp (In_end_write pc) l = goes In_end_write (\<lambda>_. Idle) (atomic_rwlock_end nd sp pc l)"
| "thread_step nd sp (In_downgrade pc) l = goes In_downgrade (\<lambda>_. Reading) (atomic_rwlock_downgrade nd sp pc l)"
| "thread_step nd sp st l = (st, l)"

type_synonym rw_state = "lockword \<times> (nat \<Rightarrow> rw_thread)"

inductive rw_step :: "bool \<Rightarrow> nat \<Rightarrow> rw_state \<Rightarrow> rw_state \<Rightarrow> bool" for nd :: bool and N :: nat where
  call: "t < N \<Longrightarrow> c \<in> set (may_call (ths t)) \<Longrightarrow> rw_step nd N (l, ths) (l, ths(t := c))"
| run: "t < N \<Longrightarrow> thread_step nd sp (ths t) l = (st, l') \<Longrightarrow> rw_step nd N (l, ths) (l', ths(t := st))"

definition rw_init :: rw_state where
  "rw_init = (ATOMIC_RWLOCK_INIT, \<lambda>_. Idle)"

subsection \<open>What the lock promises\<close>

text \<open>The abstract lock: the set of the readers and the writer; a writer excludes everything else.\<close>

record rw_spec =
  readers :: "nat set"
  writers :: "nat set"

inductive spec_step :: "rw_spec \<Rightarrow> rw_spec \<Rightarrow> bool" where
  acquire_read: "writers s = {} \<Longrightarrow> t \<notin> readers s \<Longrightarrow> spec_step s (s\<lparr>readers := insert t (readers s)\<rparr>)"
| release_read: "t \<in> readers s \<Longrightarrow> writers s = {} \<Longrightarrow> spec_step s (s\<lparr>readers := readers s - {t}\<rparr>)"
| acquire_write: "readers s = {} \<Longrightarrow> writers s = {} \<Longrightarrow> spec_step s (s\<lparr>writers := {t}\<rparr>)"
| release_write: "writers s = {t} \<Longrightarrow> readers s = {} \<Longrightarrow> spec_step s (s\<lparr>writers := {}\<rparr>)"
| upgrade: "readers s = {t} \<Longrightarrow> writers s = {} \<Longrightarrow> spec_step s (s\<lparr>readers := {}, writers := {t}\<rparr>)"
| downgrade: "writers s = {t} \<Longrightarrow> readers s = {} \<Longrightarrow> spec_step s (s\<lparr>readers := {t}, writers := {}\<rparr>)"

fun holds_read :: "rw_thread \<Rightarrow> bool" where
  "holds_read Reading = True"
| "holds_read (In_tryupgrade pc) = True"
| "holds_read (In_upgrade pc) = (pc \<noteq> UP_WRITE)"
| "holds_read (In_endread pc) = True"
| "holds_read (In_end_read pc) = True"
| "holds_read st = False"

fun holds_write :: "rw_thread \<Rightarrow> bool" where
  "holds_write Writing = True"
| "holds_write (In_endwrite pc) = True"
| "holds_write (In_end_write pc) = True"
| "holds_write (In_downgrade pc) = True"
| "holds_write st = False"

definition rw_abs :: "nat \<Rightarrow> rw_state \<Rightarrow> rw_spec" where
  "rw_abs N = (\<lambda>(l, ths). \<lparr>readers = {t. t < N \<and> holds_read (ths t)}, writers = {t. t < N \<and> holds_write (ths t)}\<rparr>)"

text \<open>What a thread inside a loop knows: the new value it is about to store belongs to the value it has read.\<close>

fun pc_ok :: "rw_thread \<Rightarrow> bool" where
  "pc_ok (In_tryread (CMPXCH old new)) = (old AND ATOMIC_RWLOCK_WFLAG = 0 \<and> new = old + 1)"
| "pc_ok (In_read (CMPXCH old new)) = (old AND ATOMIC_RWLOCK_WFLAG = 0 \<and> new = old + 1)"
| "pc_ok (In_tryupgrade (CMPXCH old new)) = (old = 1 \<and> new = ATOMIC_RWLOCK_WFLAG)"
| "pc_ok (In_upgrade (UP_TRY (CMPXCH old new))) = (old = 1 \<and> new = ATOMIC_RWLOCK_WFLAG)"
| "pc_ok (In_upgrade (UP_ENDREAD (CMPXCH old new))) = (new = old - 1)"
| "pc_ok (In_endread (CMPXCH old new)) = (new = old - 1)"
| "pc_ok (In_end_read (CMPXCH old new)) = (if old AND ATOMIC_RWLOCK_WFLAG = 0 then new = old - 1 else new = 0)"
| "pc_ok (In_endwrite (CMPXCH old new)) = (new = 0)"
| "pc_ok (In_end_write (CMPXCH old new)) = (if old AND ATOMIC_RWLOCK_WFLAG = 0 then new = old - 1 else new = 0)"
| "pc_ok (In_downgrade (CMPXCH old new)) = (new = 1)"
| "pc_ok Failed = False"
| "pc_ok st = True"


text \<open>The lock word as the abstract state determines it.\<close>

definition word_ok :: "rw_spec \<Rightarrow> lockword \<Rightarrow> bool" where
  "word_ok s l \<longleftrightarrow> (writers s = {} \<and> l = of_nat (card (readers s))) \<or>
     ((\<exists>t. writers s = {t}) \<and> readers s = {} \<and> l = ATOMIC_RWLOCK_WFLAG)"

definition rw_inv :: "nat \<Rightarrow> rw_state \<Rightarrow> bool" where
  "rw_inv N s \<longleftrightarrow> (\<forall>t<N. pc_ok (snd s t)) \<and> word_ok (rw_abs N s) (fst s)"

subsection \<open>The steps of one thread\<close>

inductive effect :: "rw_thread \<Rightarrow> lockword \<Rightarrow> rw_thread \<Rightarrow> lockword \<Rightarrow> bool" where
  same: "holds_read st' = holds_read st \<Longrightarrow> holds_write st' = holds_write st \<Longrightarrow> effect st l st' l"
| ar: "\<not> holds_read st \<Longrightarrow> \<not> holds_write st \<Longrightarrow> holds_read st' \<Longrightarrow> \<not> holds_write st' \<Longrightarrow> l AND ATOMIC_RWLOCK_WFLAG = 0 \<Longrightarrow>
    effect st l st' (l + 1)"
| rr: "holds_read st \<Longrightarrow> \<not> holds_read st' \<Longrightarrow> \<not> holds_write st' \<Longrightarrow> effect st l st' (l - 1)"
| aw: "\<not> holds_read st \<Longrightarrow> \<not> holds_write st \<Longrightarrow> holds_write st' \<Longrightarrow> \<not> holds_read st' \<Longrightarrow> effect st 0 st' ATOMIC_RWLOCK_WFLAG"
| rw: "holds_write st \<Longrightarrow> \<not> holds_read st' \<Longrightarrow> \<not> holds_write st' \<Longrightarrow> effect st l st' 0"
| up: "holds_read st \<Longrightarrow> holds_write st' \<Longrightarrow> \<not> holds_read st' \<Longrightarrow> effect st 1 st' ATOMIC_RWLOCK_WFLAG"
| dn: "holds_write st \<Longrightarrow> holds_read st' \<Longrightarrow> \<not> holds_write st' \<Longrightarrow> effect st l st' 1"

lemma wflag_self [simp]: "ATOMIC_RWLOCK_WFLAG AND ATOMIC_RWLOCK_WFLAG = ATOMIC_RWLOCK_WFLAG" "ATOMIC_RWLOCK_WFLAG \<noteq> 0"
  "ATOMIC_RWLOCK_WFLAG AND ATOMIC_RWLOCK_RMASK = 0"
  by (simp_all add: rwlock_words)

lemma thread_step_effect:
  assumes ok: "pc_ok st" and st: "thread_step nd sp st l = (st', l')"
    and w: "holds_write st \<Longrightarrow> l = ATOMIC_RWLOCK_WFLAG" and r: "holds_read st \<Longrightarrow> l AND ATOMIC_RWLOCK_WFLAG = 0 \<and> l \<noteq> 0"
    and b: "l AND ATOMIC_RWLOCK_RMASK \<noteq> ATOMIC_RWLOCK_RMASK"
  shows "pc_ok st' \<and> effect st l st' l'"
proof -
  have up: "pc_ok st' \<and> effect st l st' l'" if "st = In_upgrade pc" for pc
    using that assms by (cases pc rule: upgrade_pc.exhaust; cases "\<exists>p. pc = UP_TRY p \<or> pc = UP_ENDREAD p")
     (auto simp: rwlock_ops effect.simps split: if_splits loop_pc.splits)
  show ?thesis
    using assms up
    by (cases st) (auto simp: rwlock_ops effect.simps Let_def split: if_splits loop_pc.splits)
qed

subsection \<open>The steps of all threads\<close>

lemma count_word:
  assumes "n < 0x7fffffff"
  shows "(of_nat n :: lockword) AND ATOMIC_RWLOCK_WFLAG = 0" and "(of_nat n :: lockword) AND ATOMIC_RWLOCK_RMASK \<noteq> ATOMIC_RWLOCK_RMASK"
    and "(of_nat n :: lockword) = 0 \<longleftrightarrow> n = 0" and "(of_nat n :: lockword) = 1 \<longleftrightarrow> n = 1"
proof -
  have u: "unat (of_nat n :: lockword) = n" using assms by (simp add: unat_of_nat take_bit_eq_mod)
  have "\<not> bit n 31" using assms by (simp add: bit_iff_odd)
  then have "\<not> bit (of_nat n :: lockword) 31" using bit_unsigned_iff [where ?'a = nat, of "of_nat n :: lockword" 31] u by simp
  then show "(of_nat n :: lockword) AND ATOMIC_RWLOCK_WFLAG = 0"
    using and_exp_eq_0_iff_not_bit [of "of_nat n :: lockword" 31] by (simp add: rwlock_words)
  have m: "ATOMIC_RWLOCK_RMASK = mask 31" by (simp add: rwlock_words mask_eq_exp_minus_1)
  have "unat ((of_nat n :: lockword) AND ATOMIC_RWLOCK_RMASK) = n"
    unfolding m using assms
    by (simp only: take_bit_eq_mask [symmetric] unsigned_take_bit_eq u) (simp add: take_bit_eq_mod)
  then show "(of_nat n :: lockword) AND ATOMIC_RWLOCK_RMASK \<noteq> ATOMIC_RWLOCK_RMASK"
    using assms by (auto simp: rwlock_words)
  have "n = unat l" if "(of_nat n :: lockword) = l" for l using u unfolding that by (rule sym)
  from this [of 0] this [of 1]
  show "(of_nat n :: lockword) = 0 \<longleftrightarrow> n = 0" "(of_nat n :: lockword) = 1 \<longleftrightarrow> n = 1" by fastforce+
qed

lemma abs_upd:
  "t < N \<Longrightarrow> readers (rw_abs N (l', ths(t := st))) =
     (if holds_read st then insert t (readers (rw_abs N (l, ths))) else readers (rw_abs N (l, ths)) - {t})"
  "t < N \<Longrightarrow> writers (rw_abs N (l', ths(t := st))) =
     (if holds_write st then insert t (writers (rw_abs N (l, ths))) else writers (rw_abs N (l, ths)) - {t})"
  by (auto simp: rw_abs_def)

lemma abs_in: "t < N \<Longrightarrow> t \<in> readers (rw_abs N (l, ths)) \<longleftrightarrow> holds_read (ths t)"
  "t < N \<Longrightarrow> t \<in> writers (rw_abs N (l, ths)) \<longleftrightarrow> holds_write (ths t)"
  by (auto simp: rw_abs_def)

lemma card_readers: "finite (readers (rw_abs N s))" "card (readers (rw_abs N s)) \<le> N"
proof -
  have "readers (rw_abs N s) \<subseteq> {..<N}" by (auto simp: rw_abs_def split: prod.split)
  then show "finite (readers (rw_abs N s))" "card (readers (rw_abs N s)) \<le> N"
    using finite_subset card_mono [of "{..<N}"] by auto
qed

text \<open>An effect of one thread on the word is a step of the abstract lock, and keeps the word right.\<close>

lemma effect_spec_step:
  assumes e: "effect st l st' l'" and w: "word_ok s l" and f: "finite (readers s)" and n: "card (readers s) < 0x7fffffff"
    and r: "t \<in> readers s \<longleftrightarrow> holds_read st" and v: "t \<in> writers s \<longleftrightarrow> holds_write st"
    and r': "readers s' = (if holds_read st' then insert t (readers s) else readers s - {t})"
    and v': "writers s' = (if holds_write st' then insert t (writers s) else writers s - {t})"
  shows "word_ok s' l' \<and> (s' = s \<or> spec_step s s')"
proof -
  note c = count_word [OF n]
  have z: "card (readers s) = 0 \<longleftrightarrow> readers s = {}" using f by simp
  have one: "card (readers s) = 1 \<Longrightarrow> t \<in> readers s \<Longrightarrow> readers s = {t}" by (auto simp: card_1_singleton_iff)
  from e show ?thesis
  proof cases
    case same
    then have "s' = s" using r v r' v' by (auto intro!: rw_spec.equality)
    then show ?thesis using w same by simp
  next
    case ar
    then have s: "writers s = {}" "l = of_nat (card (readers s))" using w r v by (auto simp: word_ok_def)
    moreover have "s' = s\<lparr>readers := insert t (readers s)\<rparr>" using r v ar s r' v' by (auto intro!: rw_spec.equality)
    ultimately show ?thesis using r v ar f acquire_read [of s t] by (simp add: word_ok_def)
  next
    case rr
    then have s: "writers s = {}" "l = of_nat (card (readers s))" using w r v by (auto simp: word_ok_def)
    moreover have "s' = s\<lparr>readers := readers s - {t}\<rparr>" using r v rr s r' v' by (auto intro!: rw_spec.equality)
    moreover have "(of_nat (card (readers s)) :: lockword) - 1 = of_nat (card (readers s - {t}))"
      by (subst card.remove [OF f, of t]) (use rr r in simp_all)
    ultimately show ?thesis using r v rr f release_read [of t s] by (simp add: word_ok_def)
  next
    case aw
    then have s: "writers s = {}" "readers s = {}" using w r v c z by (auto simp: word_ok_def)
    moreover have "s' = s\<lparr>writers := {t}\<rparr>" using r v aw s r' v' by (auto intro!: rw_spec.equality)
    ultimately show ?thesis using r v aw acquire_write [of s t] by (simp add: word_ok_def)
  next
    case rw
    then have s: "writers s = {t}" "readers s = {}" using w r v by (auto simp: word_ok_def)
    moreover have "s' = s\<lparr>writers := {}\<rparr>" using r v rw s r' v' by (auto intro!: rw_spec.equality)
    ultimately show ?thesis using r v rw release_write [of s t] by (simp add: word_ok_def)
  next
    case up
    then have s: "writers s = {}" "readers s = {t}" using w r v c one by (auto simp: word_ok_def)
    moreover have "s' = s\<lparr>readers := {}, writers := {t}\<rparr>" using r v up s r' v' by (auto intro!: rw_spec.equality)
    ultimately show ?thesis using r v up upgrade [of s t] by (simp add: word_ok_def)
  next
    case dn
    then have s: "writers s = {t}" "readers s = {}" using w r v by (auto simp: word_ok_def)
    moreover have "s' = s\<lparr>readers := {t}, writers := {}\<rparr>" using r v dn s r' v' by (auto intro!: rw_spec.equality)
    ultimately show ?thesis using r v dn downgrade [of s t] by (simp add: word_ok_def)
  qed
qed

lemma may_call_keeps:
  "c \<in> set (may_call st) \<Longrightarrow> pc_ok c \<and> effect st l c l"
  by (cases st) (auto simp: effect.simps)

lemma thread_effect_sim:
  assumes t: "t < N" and c: "pc_ok c" and e: "effect (ths t) l c l'" and i: "rw_inv N (l, ths)" and N: "N < 0x7fffffff"
  shows "rw_inv N (l', ths(t := c)) \<and> (rw_abs N (l', ths(t := c)) = rw_abs N (l, ths) \<or>
    spec_step (rw_abs N (l, ths)) (rw_abs N (l', ths(t := c))))"
proof -
  have "word_ok (rw_abs N (l, ths)) l" using i by (simp add: rw_inv_def)
  moreover have "card (readers (rw_abs N (l, ths))) < 0x7fffffff" using card_readers [of N "(l, ths)"] N by simp
  ultimately have "word_ok (rw_abs N (l', ths(t := c))) l' \<and> (rw_abs N (l', ths(t := c)) = rw_abs N (l, ths) \<or>
      spec_step (rw_abs N (l, ths)) (rw_abs N (l', ths(t := c))))"
    using effect_spec_step [OF e, where s = "rw_abs N (l, ths)" and t = t] card_readers(1) abs_in [OF t] abs_upd [OF t] by blast
  then show ?thesis using i c by (simp add: rw_inv_def)
qed

lemma rw_step_sim:
  assumes "rw_step nd N s s'" and i: "rw_inv N s" and N: "N < 0x7fffffff"
  shows "rw_inv N s' \<and> (rw_abs N s' = rw_abs N s \<or> spec_step (rw_abs N s) (rw_abs N s'))"
  using assms(1)
proof cases
  case (call t c ths l)
  then have "pc_ok c" "effect (ths t) l c l" using may_call_keeps by auto
  then show ?thesis using thread_effect_sim [OF _ _ _ i [unfolded call] N] call by simp
next
  case (run t sp ths l st l')
  note w = i [unfolded run rw_inv_def, simplified]
  have n: "card (readers (rw_abs N (l, ths))) < 0x7fffffff" using card_readers [of N "(l, ths)"] N by simp
  have "l = ATOMIC_RWLOCK_WFLAG" if "holds_write (ths t)"
    using w that abs_in(2) [OF run(3), of l ths] by (auto simp: word_ok_def)
  moreover have "l AND ATOMIC_RWLOCK_WFLAG = 0 \<and> l \<noteq> 0" if "holds_read (ths t)"
    using w that abs_in(1) [OF run(3), of l ths] count_word [OF n] card_readers(1) [of N "(l, ths)"] by (auto simp: word_ok_def)
  moreover have "l AND ATOMIC_RWLOCK_RMASK \<noteq> ATOMIC_RWLOCK_RMASK"
    using w count_word(2) [OF n] by (auto simp: word_ok_def rwlock_words)
  ultimately have "pc_ok st \<and> effect (ths t) l st l'" using thread_step_effect [OF _ run(4)] w run(3) by blast
  then show ?thesis using thread_effect_sim [OF run(3) _ _ i [unfolded run] N] run by simp
qed

subsection \<open>The interface\<close>

definition spec_ok :: "rw_spec \<Rightarrow> bool" where
  "spec_ok s \<longleftrightarrow> writers s = {} \<or> (\<exists>t. writers s = {t}) \<and> readers s = {}"

lemma spec_step_ok: "spec_step s s' \<Longrightarrow> spec_ok s'"
  by (induction rule: spec_step.induct) (auto simp: spec_ok_def)

text \<open>A lock whose steps are steps of the abstract lock, or invisible to it.\<close>

locale rw_lock =
  fixes init :: 'st and step :: "'st \<Rightarrow> 'st \<Rightarrow> bool" and inv :: "'st \<Rightarrow> bool" and abs :: "'st \<Rightarrow> rw_spec"
  assumes init_inv: "inv init"
    and init_abs: "readers (abs init) = {} \<and> writers (abs init) = {}"
    and sim: "inv s \<Longrightarrow> step s s' \<Longrightarrow> inv s' \<and> (abs s' = abs s \<or> spec_step (abs s) (abs s'))"
begin

lemma reach_inv: "step\<^sup>*\<^sup>* init s \<Longrightarrow> inv s"
  by (induction rule: rtranclp_induct) (use init_inv sim in blast)+

lemma reach_spec: "step\<^sup>*\<^sup>* init s \<Longrightarrow> spec_step\<^sup>*\<^sup>* (abs init) (abs s)"
proof (induction rule: rtranclp_induct)
  case (step s s')
  then show ?case using sim [OF reach_inv [OF step.hyps(1)] step.hyps(2)] rtranclp.rtrancl_into_rtrancl by metis
qed simp

lemma reach_ok: "step\<^sup>*\<^sup>* init s \<Longrightarrow> spec_ok (abs s)"
proof (induction rule: rtranclp_induct)
  case base
  then show ?case using init_abs by (simp add: spec_ok_def)
next
  case (step s s')
  then show ?case using sim [OF reach_inv [OF step.hyps(1)] step.hyps(2)] spec_step_ok by metis
qed

lemma exclusive:
  "step\<^sup>*\<^sup>* init s \<Longrightarrow> t \<in> writers (abs s) \<Longrightarrow> u \<in> readers (abs s) \<or> u \<in> writers (abs s) \<Longrightarrow> u = t"
  using reach_ok [of s] by (auto simp: spec_ok_def)

end

text \<open>The lock word counts at most \<open>2 ^ 31 - 2\<close> readers, so that many threads take part.\<close>

definition MAX_THREADS :: nat where "MAX_THREADS = 0x7ffffffe"

interpretation rwlock: rw_lock rw_init "rw_step nd MAX_THREADS" "rw_inv MAX_THREADS" "rw_abs MAX_THREADS" for nd :: bool
proof unfold_locales
  show "rw_inv MAX_THREADS rw_init" by (simp add: rw_inv_def rw_init_def rw_abs_def word_ok_def rwlock_words)
  show "readers (rw_abs MAX_THREADS rw_init) = {} \<and> writers (rw_abs MAX_THREADS rw_init) = {}"
    by (simp add: rw_init_def rw_abs_def)
  show "rw_inv MAX_THREADS s' \<and> (rw_abs MAX_THREADS s' = rw_abs MAX_THREADS s \<or> spec_step (rw_abs MAX_THREADS s) (rw_abs MAX_THREADS s'))"
    if "rw_inv MAX_THREADS s" "rw_step nd MAX_THREADS s s'" for s s'
    using rw_step_sim [OF that(2,1)] by (simp add: MAX_THREADS_def)
qed

subsection \<open>Properties\<close>

text \<open>One thread alone.\<close>

fun solo :: "bool \<Rightarrow> nat \<Rightarrow> rw_thread \<times> lockword \<Rightarrow> rw_thread \<times> lockword" where
  "solo nd 0 s = s"
| "solo nd (Suc n) (st, l) = solo nd n (thread_step nd False st l)"

lemma free_word:
  assumes i: "rw_inv N (l, ths)" and o: "\<And>u. u < N \<Longrightarrow> u \<noteq> t \<Longrightarrow> \<not> holds_read (ths u) \<and> \<not> holds_write (ths u)" and w: "\<not> holds_write (ths t)"
  shows "t < N \<Longrightarrow> l = (if holds_read (ths t) then 1 else 0)"
proof -
  assume t: "t < N"
  have "writers (rw_abs N (l, ths)) = {}" using o w by (auto simp: rw_abs_def)
  moreover have "readers (rw_abs N (l, ths)) = (if holds_read (ths t) then {t} else {})" using o t by (auto simp: rw_abs_def)
  ultimately show ?thesis using i by (auto simp: rw_inv_def word_ok_def)
qed

lemma word_facts [simp]: "ATOMIC_RWLOCK_RMASK \<noteq> 0" "1 AND ATOMIC_RWLOCK_WFLAG = 0"
  by (simp_all add: rwlock_words)

lemma solo_read: "\<exists>n\<le>3. fst (solo nd n (In_read pc, 0)) = Reading"
proof -
  have r: "fst (solo nd 2 (In_read READ, 0)) = Reading"
    by (simp add: numeral_2_eq_2 rwlock_ops)
  show ?thesis
  proof (cases pc)
    case READ
    then show ?thesis using r by (intro exI [of _ 2]) simp
  next
    case (CMPXCH old new)
    show ?thesis
    proof (cases "old = 0")
      case True
      then show ?thesis using CMPXCH by (intro exI [of _ 1]) (simp add: rwlock_ops)
    next
      case False
      then have "solo nd 3 (In_read pc, 0) = solo nd 2 (In_read READ, 0)"
        using CMPXCH by (simp add: numeral_3_eq_3 numeral_2_eq_2 atomic_rwlock_read_def atomic_rwlock_tryread_def CMPXCH_WEAK_def)
      then show ?thesis using r by (intro exI [of _ 3]) simp
    qed
  qed
qed

lemma solo_upgrade_write: "fst (solo nd 1 (In_upgrade UP_WRITE, 0)) = Writing"
  by (simp add: rwlock_ops)

lemma solo_upgrade_try:
  assumes "pc_ok (In_upgrade (UP_TRY p))"
  shows "\<exists>n\<le>4. fst (solo nd n (In_upgrade (UP_TRY p), 1)) = Writing"
proof (cases p)
  case READ
  then show ?thesis by (intro exI [of _ 2]) (simp add: numeral_2_eq_2 rwlock_ops)
next
  case (CMPXCH old new)
  then show ?thesis using assms by (intro exI [of _ 1]) (simp add: rwlock_ops)
qed

lemma solo_upgrade_endread:
  assumes "pc_ok (In_upgrade (UP_ENDREAD p))"
  shows "\<exists>n\<le>4. fst (solo nd n (In_upgrade (UP_ENDREAD p), 1)) = Writing"
proof (cases nd)
  case True
  then show ?thesis by (intro exI [of _ 2]) (simp add: numeral_2_eq_2 rwlock_ops)
next
  case False
  have r: "fst (solo nd 3 (In_upgrade (UP_ENDREAD READ), 1)) = Writing"
    using False by (simp add: numeral_3_eq_3 rwlock_ops)
  show ?thesis
  proof (cases p)
    case READ
    then show ?thesis using r by (intro exI [of _ 3]) simp
  next
    case (CMPXCH old new)
    show ?thesis
    proof (cases "old = 1")
      case True
      then show ?thesis using CMPXCH False assms by (intro exI [of _ 2]) (simp add: numeral_2_eq_2 rwlock_ops)
    next
      case o: False
      have "solo nd (Suc 3) (In_upgrade (UP_ENDREAD p), 1) = solo nd 3 (In_upgrade (UP_ENDREAD READ), 1)"
        unfolding solo.simps(2) using CMPXCH False o by (simp add: atomic_rwlock_upgrade_def atomic_rwlock_endread_def CMPXCH_WEAK_def)
      then show ?thesis using r by (intro exI [of _ "Suc 3"]) simp
    qed
  qed
qed

text \<open>
  C7: The atomic read/write lock refines the abstract lock: under every interleaving of the atomic accesses of the threads,
  with spurious failures of the weak compare-exchange and in both builds, each step is a step of the lock with a set of
  readers and at most one writer; no thread reads or writes beside a writer, and no assertion fails.
\<close>

theorem rwlock_refines_spec:
  assumes "(rw_step nd MAX_THREADS)\<^sup>*\<^sup>* rw_init (l, ths)"
  shows "spec_step\<^sup>*\<^sup>* \<lparr>readers = {}, writers = {}\<rparr> (rw_abs MAX_THREADS (l, ths)) \<and>
    (\<forall>t u. t < MAX_THREADS \<and> u < MAX_THREADS \<and> holds_write (ths t) \<and> (holds_read (ths u) \<or> holds_write (ths u)) \<longrightarrow> u = t) \<and>
    (\<forall>t. t < MAX_THREADS \<longrightarrow> ths t \<noteq> Failed)"
proof -
  have "rw_abs MAX_THREADS rw_init = \<lparr>readers = {}, writers = {}\<rparr>" by (simp add: rw_abs_def rw_init_def)
  then have "spec_step\<^sup>*\<^sup>* \<lparr>readers = {}, writers = {}\<rparr> (rw_abs MAX_THREADS (l, ths))" using rwlock.reach_spec [OF assms] by simp
  moreover have "u = t" if "t < MAX_THREADS" "u < MAX_THREADS" "holds_write (ths t)" "holds_read (ths u) \<or> holds_write (ths u)" for t u
    using rwlock.exclusive [OF assms, of t u] that by (simp add: rw_abs_def)
  moreover have "ths t \<noteq> Failed" if "t < MAX_THREADS" for t
    using rwlock.reach_inv [OF assms] that by (force simp: rw_inv_def)
  ultimately show ?thesis by blast
qed

theorem rwlock_refines_spec_witness:
  "(rw_step False MAX_THREADS)\<^sup>*\<^sup>* rw_init (ATOMIC_RWLOCK_WFLAG, (\<lambda>_. Idle)(3 := Writing)) \<and>
   spec_step\<^sup>*\<^sup>* \<lparr>readers = {}, writers = {}\<rparr> (rw_abs MAX_THREADS (ATOMIC_RWLOCK_WFLAG, (\<lambda>_. Idle)(3 := Writing)))"
proof -
  have "rw_step False MAX_THREADS rw_init (0, (\<lambda>_. Idle)(3 := In_write))"
    using call [of 3 MAX_THREADS In_write "\<lambda>_. Idle" False 0] by (simp add: MAX_THREADS_def rw_init_def rwlock_words)
  moreover have "rw_step False MAX_THREADS (0, (\<lambda>_. Idle)(3 := In_write)) (ATOMIC_RWLOCK_WFLAG, (\<lambda>_. Idle)(3 := Writing))"
    using run [of 3 MAX_THREADS False False "(\<lambda>_. Idle)(3 := In_write)" 0 Writing ATOMIC_RWLOCK_WFLAG]
    by (simp add: MAX_THREADS_def atomic_rwlock_write_def atomic_rwlock_trywrite_def)
  ultimately have r: "(rw_step False MAX_THREADS)\<^sup>*\<^sup>* rw_init (ATOMIC_RWLOCK_WFLAG, (\<lambda>_. Idle)(3 := Writing))"
    by (meson converse_rtranclp_into_rtranclp rtranclp.rtrancl_refl)
  then show ?thesis using rwlock_refines_spec [OF r] by blast
qed



end
