(* ===== verification/Owner_Rwlock.thy ===== *)
theory Owner_Rwlock
  imports Rwlock
begin

text \<open>
  The atomic read/write lock with an owner of \<open>src/include/hybrid/sync/atomic-owner-rwlock.h\<close>, which the owner of the write
  lock may take again. The word \<open>aorw_lock\<close> and the field \<open>aorw_owner\<close> (None for \<open>THREADID_INVALID\<close>) are two variables, so
  the functions are cut at every access of either: \<open>O_READ\<close> reads the word, \<open>O_OWNER\<close> reads the owner, \<open>O_RESET\<close> and
  \<open>O_SET\<close> write it, \<open>O_CAS\<close> and \<open>O_KEEP\<close> exchange the word. Builds, assertions and spurious failures are as in Rwlock.
\<close>

unbundle bit_operations_syntax

definition ATOMIC_OWNER_RWLOCK_NMASK :: lockword where "ATOMIC_OWNER_RWLOCK_NMASK = 0x7fffffff"
definition ATOMIC_OWNER_RWLOCK_WFLAG :: lockword where "ATOMIC_OWNER_RWLOCK_WFLAG = 0x80000000"

record atomic_owner_rwlock =
  aorw_lock :: lockword
  aorw_owner :: "nat option"

definition ATOMIC_OWNER_RWLOCK_INIT :: atomic_owner_rwlock where
  "ATOMIC_OWNER_RWLOCK_INIT = \<lparr>aorw_lock = 0, aorw_owner = None\<rparr>"

abbreviation wflag :: "lockword \<Rightarrow> bool" where "wflag l \<equiv> l AND ATOMIC_OWNER_RWLOCK_WFLAG \<noteq> 0"
abbreviation nested :: "lockword \<Rightarrow> bool" where "nested l \<equiv> l AND ATOMIC_OWNER_RWLOCK_NMASK \<noteq> 0"

definition atomic_owner_rwlock_writing :: "nat \<Rightarrow> atomic_owner_rwlock \<Rightarrow> bool" where
  "atomic_owner_rwlock_writing self x \<longleftrightarrow> wflag (aorw_lock x) \<and> aorw_owner x = Some self"

subsection \<open>The operations\<close>

datatype owner_pc = O_ENTRY | O_READ | O_OWNER lockword | O_RESET lockword | O_CAS lockword lockword | O_KEEP lockword | O_SET

definition cas :: "bool \<Rightarrow> lockword \<Rightarrow> lockword \<Rightarrow> (owner_pc, 'a) outcome \<Rightarrow> atomic_owner_rwlock \<Rightarrow> (owner_pc, 'a) outcome \<times> atomic_owner_rwlock" where
  "cas spurious old new res x = (if aorw_lock x = old \<and> \<not> spurious then (res, x\<lparr>aorw_lock := new\<rparr>) else (Goto O_READ, x))"

definition atomic_owner_rwlock_endwrite ::
  "bool \<Rightarrow> bool \<Rightarrow> nat \<Rightarrow> owner_pc \<Rightarrow> atomic_owner_rwlock \<Rightarrow> (owner_pc, unit) outcome \<times> atomic_owner_rwlock" where
  "atomic_owner_rwlock_endwrite nd sp self pc x = (case pc of
       O_ENTRY \<Rightarrow> if \<not> nd \<and> aorw_owner x \<noteq> Some self then (Assertion, x) else (Goto O_READ, x)
     | O_READ \<Rightarrow> let f = aorw_lock x in
         if \<not> nd \<and> \<not> wflag f then (Assertion, x)
         else if \<not> nd \<and> \<not> nested f then (Goto (O_RESET f), x)
         else (Goto (O_CAS f (if nested f then f - 1 else 0)), x)
     | O_RESET f \<Rightarrow> (Goto (O_CAS f 0), x\<lparr>aorw_owner := None\<rparr>)
     | O_CAS f new \<Rightarrow> cas sp f new (Return ()) x
     | _ \<Rightarrow> (Goto pc, x))"

definition atomic_owner_rwlock_endread ::
  "bool \<Rightarrow> bool \<Rightarrow> nat \<Rightarrow> owner_pc \<Rightarrow> atomic_owner_rwlock \<Rightarrow> (owner_pc, unit) outcome \<times> atomic_owner_rwlock" where
  "atomic_owner_rwlock_endread nd sp self pc x =
     (if nd then (Return (), x\<lparr>aorw_lock := aorw_lock x - 1\<rparr>)
      else case pc of
        O_ENTRY \<Rightarrow> (Goto O_READ, x)
      | O_READ \<Rightarrow> let f = aorw_lock x in
          if f = 0 then (Assertion, x)
          else if wflag f then (if f = ATOMIC_OWNER_RWLOCK_WFLAG then (Assertion, x) else (Goto (O_OWNER f), x))
          else (Goto (O_CAS f (f - 1)), x)
      | O_OWNER f \<Rightarrow> if aorw_owner x \<noteq> Some self then (Assertion, x) else (Goto (O_CAS f (f - 1)), x)
      | O_CAS f new \<Rightarrow> cas sp f new (Return ()) x
      | _ \<Rightarrow> (Goto pc, x))"

definition atomic_owner_rwlock_end ::
  "bool \<Rightarrow> bool \<Rightarrow> nat \<Rightarrow> owner_pc \<Rightarrow> atomic_owner_rwlock \<Rightarrow> (owner_pc, unit) outcome \<times> atomic_owner_rwlock" where
  "atomic_owner_rwlock_end nd sp self pc x = (case pc of
       O_ENTRY \<Rightarrow> (Goto O_READ, x)
     | O_READ \<Rightarrow> let f = aorw_lock x in
         if \<not> nd \<and> f = 0 then (Assertion, x)
         else if wflag f then (if nd then (Goto (O_CAS f (if nested f then f - 1 else 0)), x) else (Goto (O_OWNER f), x))
         else (Goto (O_CAS f (f - 1)), x)
     | O_OWNER f \<Rightarrow>
         if aorw_owner x \<noteq> Some self \<and> aorw_owner x \<noteq> None then (Assertion, x)
         else if nested f then (Goto (O_CAS f (f - 1)), x) else (Goto (O_RESET f), x)
     | O_RESET f \<Rightarrow> (Goto (O_CAS f 0), x\<lparr>aorw_owner := None\<rparr>)
     | O_CAS f new \<Rightarrow> cas sp f new (Return ()) x
     | _ \<Rightarrow> (Goto pc, x))"

definition atomic_owner_rwlock_tryread ::
  "bool \<Rightarrow> bool \<Rightarrow> nat \<Rightarrow> owner_pc \<Rightarrow> atomic_owner_rwlock \<Rightarrow> (owner_pc, bool) outcome \<times> atomic_owner_rwlock" where
  "atomic_owner_rwlock_tryread nd sp self pc x =
     (let count = (\<lambda>temp. if \<not> nd \<and> temp AND ATOMIC_OWNER_RWLOCK_NMASK = ATOMIC_OWNER_RWLOCK_NMASK
                          then (Assertion, x) else (Goto (O_CAS temp (temp + 1)), x)) in
      case pc of
        O_ENTRY \<Rightarrow> (Goto O_READ, x)
      | O_READ \<Rightarrow> if wflag (aorw_lock x) then (Goto (O_OWNER (aorw_lock x)), x) else count (aorw_lock x)
      | O_OWNER temp \<Rightarrow> if aorw_owner x \<noteq> Some self then (Return False, x) else count temp
      | O_CAS temp new \<Rightarrow> cas sp temp new (Return True) x
      | _ \<Rightarrow> (Goto pc, x))"

definition atomic_owner_rwlock_trywrite ::
  "bool \<Rightarrow> bool \<Rightarrow> nat \<Rightarrow> owner_pc \<Rightarrow> atomic_owner_rwlock \<Rightarrow> (owner_pc, bool) outcome \<times> atomic_owner_rwlock" where
  "atomic_owner_rwlock_trywrite nd sp self pc x = (case pc of
       O_ENTRY \<Rightarrow> (Goto O_READ, x)
     | O_READ \<Rightarrow> let temp = aorw_lock x in
         if wflag temp then (Goto (O_OWNER temp), x)
         else if temp \<noteq> 0 then (Return False, x)
         else (Goto (O_CAS temp ATOMIC_OWNER_RWLOCK_WFLAG), x)
     | O_OWNER temp \<Rightarrow> if aorw_owner x \<noteq> Some self then (Return False, x)
         else if \<not> nd \<and> \<not> wflag (temp + 1) then (Assertion, x)
         else (Goto (O_CAS temp (temp + 1)), x)
     | O_CAS temp newval \<Rightarrow> cas sp temp newval (if newval = ATOMIC_OWNER_RWLOCK_WFLAG then Goto O_SET else Return True) x
     | O_SET \<Rightarrow> (Return True, x\<lparr>aorw_owner := Some self\<rparr>)
     | _ \<Rightarrow> (Goto pc, x))"

definition atomic_owner_rwlock_trywrite_r ::
  "bool \<Rightarrow> bool \<Rightarrow> nat \<Rightarrow> owner_pc \<Rightarrow> atomic_owner_rwlock \<Rightarrow> (owner_pc, bool) outcome \<times> atomic_owner_rwlock" where
  "atomic_owner_rwlock_trywrite_r nd sp self pc x = (case pc of
       O_ENTRY \<Rightarrow> (Goto O_READ, x)
     | O_READ \<Rightarrow> let temp = aorw_lock x in
         if \<not> nd \<and> wflag temp then (Goto (O_OWNER temp), x)
         else if temp \<noteq> 0 then (Return False, x)
         else (Goto (O_CAS temp ATOMIC_OWNER_RWLOCK_WFLAG), x)
     | O_OWNER temp \<Rightarrow> if aorw_owner x = Some self then (Assertion, x) else (Return False, x)
     | O_CAS temp newval \<Rightarrow> cas sp temp newval (Goto O_SET) x
     | O_SET \<Rightarrow> (Return True, x\<lparr>aorw_owner := Some self\<rparr>)
     | _ \<Rightarrow> (Goto pc, x))"

text \<open>\<open>while (!try(self)) SCHED_YIELD();\<close>\<close>

definition until_true :: "(owner_pc, bool) outcome \<times> atomic_owner_rwlock \<Rightarrow> (owner_pc, unit) outcome \<times> atomic_owner_rwlock" where
  "until_true = (\<lambda>(r, x). (case r of Goto pc \<Rightarrow> Goto pc | Return b \<Rightarrow> if b then Return () else Goto O_ENTRY | Assertion \<Rightarrow> Assertion, x))"

definition atomic_owner_rwlock_read ::
  "bool \<Rightarrow> bool \<Rightarrow> nat \<Rightarrow> owner_pc \<Rightarrow> atomic_owner_rwlock \<Rightarrow> (owner_pc, unit) outcome \<times> atomic_owner_rwlock" where
  "atomic_owner_rwlock_read nd sp self pc x = until_true (atomic_owner_rwlock_tryread nd sp self pc x)"

definition atomic_owner_rwlock_write ::
  "bool \<Rightarrow> bool \<Rightarrow> nat \<Rightarrow> owner_pc \<Rightarrow> atomic_owner_rwlock \<Rightarrow> (owner_pc, unit) outcome \<times> atomic_owner_rwlock" where
  "atomic_owner_rwlock_write nd sp self pc x = until_true (atomic_owner_rwlock_trywrite nd sp self pc x)"

definition atomic_owner_rwlock_tryupgrade ::
  "bool \<Rightarrow> nat \<Rightarrow> owner_pc \<Rightarrow> atomic_owner_rwlock \<Rightarrow> (owner_pc, bool) outcome \<times> atomic_owner_rwlock" where
  "atomic_owner_rwlock_tryupgrade sp self pc x = (case pc of
       O_ENTRY \<Rightarrow> (Goto O_READ, x)
     | O_READ \<Rightarrow> let temp = aorw_lock x in
         if temp \<noteq> 1 then (if wflag temp then (Goto (O_OWNER temp), x) else (Return False, x))
         else (Goto (O_CAS temp ATOMIC_OWNER_RWLOCK_WFLAG), x)
     | O_OWNER temp \<Rightarrow> if aorw_owner x = Some self then (Goto (O_KEEP temp), x) else (Return False, x)
     | O_KEEP temp \<Rightarrow> cas sp temp temp (Return True) x
     | O_CAS temp newval \<Rightarrow> cas sp temp newval (Goto O_SET) x
     | O_SET \<Rightarrow> (Return True, x\<lparr>aorw_owner := Some self\<rparr>)
     | _ \<Rightarrow> (Goto pc, x))"

datatype owner_upgrade_pc = OUP_TRY owner_pc | OUP_ENDREAD owner_pc | OUP_WRITE owner_pc

definition atomic_owner_rwlock_upgrade ::
  "bool \<Rightarrow> bool \<Rightarrow> nat \<Rightarrow> owner_upgrade_pc \<Rightarrow> atomic_owner_rwlock \<Rightarrow> (owner_upgrade_pc, bool) outcome \<times> atomic_owner_rwlock" where
  "atomic_owner_rwlock_upgrade nd sp self pc x = (case pc of
       OUP_TRY p \<Rightarrow> (case atomic_owner_rwlock_tryupgrade sp self p x of
           (Goto p', x') \<Rightarrow> (Goto (OUP_TRY p'), x')
         | (Return r, x') \<Rightarrow> (if r then Return True else Goto (OUP_ENDREAD O_ENTRY), x')
         | (Assertion, x') \<Rightarrow> (Assertion, x'))
     | OUP_ENDREAD p \<Rightarrow> (case atomic_owner_rwlock_endread nd sp self p x of
           (Goto p', x') \<Rightarrow> (Goto (OUP_ENDREAD p'), x')
         | (Return _, x') \<Rightarrow> (Goto (OUP_WRITE O_ENTRY), x')
         | (Assertion, x') \<Rightarrow> (Assertion, x'))
     | OUP_WRITE p \<Rightarrow> (case atomic_owner_rwlock_write nd sp self p x of
           (Goto p', x') \<Rightarrow> (Goto (OUP_WRITE p'), x')
         | (Return _, x') \<Rightarrow> (Return False, x')
         | (Assertion, x') \<Rightarrow> (Assertion, x')))"

definition atomic_owner_rwlock_downgrade ::
  "bool \<Rightarrow> bool \<Rightarrow> nat \<Rightarrow> owner_pc \<Rightarrow> atomic_owner_rwlock \<Rightarrow> (owner_pc, unit) outcome \<times> atomic_owner_rwlock" where
  "atomic_owner_rwlock_downgrade nd sp self pc x =
     (if nd then (Return (), x\<lparr>aorw_lock := 1\<rparr>)
      else case pc of
        O_ENTRY \<Rightarrow> if aorw_owner x \<noteq> Some self then (Assertion, x) else (Goto O_READ, x)
      | O_READ \<Rightarrow> let f = aorw_lock x in
          if \<not> wflag f \<or> nested f then (Assertion, x) else (Goto (O_CAS f 1), x)
      | O_CAS f new \<Rightarrow> cas sp f new (Return ()) x
      | _ \<Rightarrow> (Goto pc, x))"

lemmas owner_ops = atomic_owner_rwlock_endwrite_def atomic_owner_rwlock_endread_def atomic_owner_rwlock_end_def
  atomic_owner_rwlock_tryread_def atomic_owner_rwlock_trywrite_def atomic_owner_rwlock_trywrite_r_def
  atomic_owner_rwlock_read_def atomic_owner_rwlock_write_def atomic_owner_rwlock_tryupgrade_def
  atomic_owner_rwlock_upgrade_def atomic_owner_rwlock_downgrade_def until_true_def cas_def

subsection \<open>Threads\<close>

text \<open>
  \<open>Rest w r\<close> is a thread outside the functions that holds the write lock \<open>w\<close> times and \<open>r\<close> read locks; \<open>In c w r\<close> is the same
  thread inside a function. A write lock is the last to be ended, and a thread nests at most \<open>D\<close> locks; \<open>dg\<close> says whether
  the threads use \<open>atomic_owner_rwlock_downgrade\<close>.
\<close>

datatype owner_call = C_tryread owner_pc | C_read owner_pc | C_trywrite owner_pc | C_trywrite_r owner_pc | C_write owner_pc
  | C_tryupgrade owner_pc | C_upgrade owner_upgrade_pc | C_endread owner_pc | C_endwrite owner_pc | C_end owner_pc
  | C_downgrade owner_pc

datatype owner_thread = Rest nat nat | In owner_call nat nat | Asserted

definition owner_calls :: "bool \<Rightarrow> nat \<Rightarrow> nat \<Rightarrow> nat \<Rightarrow> owner_call list" where
  "owner_calls dg D w r =
     (if w + r < D then [C_tryread O_ENTRY, C_read O_ENTRY] else []) @
     (if w + r < D \<and> (w \<noteq> 0 \<or> r = 0) then [C_trywrite O_ENTRY, C_write O_ENTRY] else []) @
     (if 0 < D \<and> w = 0 \<and> r = 0 then [C_trywrite_r O_ENTRY] else []) @
     (if r \<noteq> 0 then [C_tryupgrade O_ENTRY, C_endread O_ENTRY] else []) @
     (if r = 1 \<and> w = 0 \<or> r \<noteq> 0 \<and> w \<noteq> 0 then [C_upgrade (OUP_TRY O_ENTRY)] else []) @
     (if 1 < w \<or> w = 1 \<and> r = 0 then [C_endwrite O_ENTRY] else []) @
     (if w \<noteq> 0 \<or> r \<noteq> 0 then [C_end O_ENTRY] else []) @
     (if dg \<and> w = 1 \<and> r = 0 then [C_downgrade O_ENTRY] else [])"

fun owner_goes :: "('pc \<Rightarrow> owner_thread) \<Rightarrow> ('a \<Rightarrow> owner_thread) \<Rightarrow> ('pc, 'a) outcome \<times> atomic_owner_rwlock \<Rightarrow> owner_thread \<times> atomic_owner_rwlock" where
  "owner_goes inside result (Goto pc, x) = (inside pc, x)"
| "owner_goes inside result (Return r, x) = (result r, x)"
| "owner_goes inside result (Assertion, x) = (Asserted, x)"

definition upgraded :: "nat \<Rightarrow> nat \<Rightarrow> owner_thread" where
  "upgraded w r = Rest (w + 1) (r - 1)"

fun owner_step :: "bool \<Rightarrow> bool \<Rightarrow> nat \<Rightarrow> owner_thread \<Rightarrow> atomic_owner_rwlock \<Rightarrow> owner_thread \<times> atomic_owner_rwlock" where
  "owner_step nd sp self (In (C_tryread pc) w r) x = owner_goes (\<lambda>pc. In (C_tryread pc) w r)
     (\<lambda>b. Rest w (if b then r + 1 else r)) (atomic_owner_rwlock_tryread nd sp self pc x)"
| "owner_step nd sp self (In (C_read pc) w r) x = owner_goes (\<lambda>pc. In (C_read pc) w r)
     (\<lambda>_. Rest w (r + 1)) (atomic_owner_rwlock_read nd sp self pc x)"
| "owner_step nd sp self (In (C_trywrite pc) w r) x = owner_goes (\<lambda>pc. In (C_trywrite pc) w r)
     (\<lambda>b. Rest (if b then w + 1 else w) r) (atomic_owner_rwlock_trywrite nd sp self pc x)"
| "owner_step nd sp self (In (C_trywrite_r pc) w r) x = owner_goes (\<lambda>pc. In (C_trywrite_r pc) w r)
     (\<lambda>b. Rest (if b then w + 1 else w) r) (atomic_owner_rwlock_trywrite_r nd sp self pc x)"
| "owner_step nd sp self (In (C_write pc) w r) x = owner_goes (\<lambda>pc. In (C_write pc) w r)
     (\<lambda>_. Rest (w + 1) r) (atomic_owner_rwlock_write nd sp self pc x)"
| "owner_step nd sp self (In (C_tryupgrade pc) w r) x = owner_goes (\<lambda>pc. In (C_tryupgrade pc) w r)
     (\<lambda>b. if b then upgraded w r else Rest w r) (atomic_owner_rwlock_tryupgrade sp self pc x)"
| "owner_step nd sp self (In (C_upgrade pc) w r) x = owner_goes (\<lambda>pc. In (C_upgrade pc) w r)
     (\<lambda>_. upgraded w r) (atomic_owner_rwlock_upgrade nd sp self pc x)"
| "owner_step nd sp self (In (C_endread pc) w r) x = owner_goes (\<lambda>pc. In (C_endread pc) w r)
     (\<lambda>_. Rest w (r - 1)) (atomic_owner_rwlock_endread nd sp self pc x)"
| "owner_step nd sp self (In (C_endwrite pc) w r) x = owner_goes (\<lambda>pc. In (C_endwrite pc) w r)
     (\<lambda>_. Rest (w - 1) r) (atomic_owner_rwlock_endwrite nd sp self pc x)"
| "owner_step nd sp self (In (C_end pc) w r) x = owner_goes (\<lambda>pc. In (C_end pc) w r)
     (\<lambda>_. if r \<noteq> 0 then Rest w (r - 1) else Rest (w - 1) r) (atomic_owner_rwlock_end nd sp self pc x)"
| "owner_step nd sp self (In (C_downgrade pc) w r) x = owner_goes (\<lambda>pc. In (C_downgrade pc) w r)
     (\<lambda>_. Rest 0 1) (atomic_owner_rwlock_downgrade nd sp self pc x)"
| "owner_step nd sp self st x = (st, x)"

type_synonym owner_state = "atomic_owner_rwlock \<times> (nat \<Rightarrow> owner_thread)"

inductive owner_run :: "bool \<Rightarrow> bool \<Rightarrow> nat \<Rightarrow> nat \<Rightarrow> owner_state \<Rightarrow> owner_state \<Rightarrow> bool"
  for nd :: bool and dg :: bool and N :: nat and D :: nat where
  owner_enter: "t < N \<Longrightarrow> ths t = Rest w r \<Longrightarrow> c \<in> set (owner_calls dg D w r) \<Longrightarrow> owner_run nd dg N D (x, ths) (x, ths(t := In c w r))"
| owner_access: "t < N \<Longrightarrow> owner_step nd sp t (ths t) x = (st, x') \<Longrightarrow> owner_run nd dg N D (x, ths) (x', ths(t := st))"

definition owner_init :: owner_state where
  "owner_init = (ATOMIC_OWNER_RWLOCK_INIT, \<lambda>_. Rest 0 0)"

subsection \<open>Schedules\<close>

text \<open>A schedule names the thread of each step, and the function it enters if it enters one.\<close>

fun schedule :: "bool \<Rightarrow> bool \<Rightarrow> nat \<Rightarrow> (nat \<times> owner_call option) list \<Rightarrow> owner_state \<Rightarrow> owner_state option" where
  "schedule nd dg D [] s = Some s"
| "schedule nd dg D ((t, None) # es) (x, ths) =
     (case owner_step nd False t (ths t) x of (st, x') \<Rightarrow> schedule nd dg D es (x', ths(t := st)))"
| "schedule nd dg D ((t, Some c) # es) (x, ths) =
     (case ths t of Rest w r \<Rightarrow> if c \<in> set (owner_calls dg D w r) then schedule nd dg D es (x, ths(t := In c w r)) else None
      | _ \<Rightarrow> None)"

lemma schedule_reaches:
  "schedule nd dg D es s = Some s' \<Longrightarrow> list_all (\<lambda>e. fst e < N) es \<Longrightarrow> (owner_run nd dg N D)\<^sup>*\<^sup>* s s'"
proof (induction nd dg D es s rule: schedule.induct)
  case (2 nd dg D t es x ths)
  obtain st x' where o: "owner_step nd False t (ths t) x = (st, x')" by fastforce
  then have "owner_run nd dg N D (x, ths) (x', ths(t := st))" using 2(3) by (auto intro: owner_access)
  then show ?case using 2(1) [OF o [symmetric]] 2(2,3) o by (simp add: converse_rtranclp_into_rtranclp)
next
  case (3 nd dg D t c es x ths)
  then obtain w r where w: "ths t = Rest w r" "c \<in> set (owner_calls dg D w r)" by (auto split: owner_thread.splits if_splits)
  then have "owner_run nd dg N D (x, ths) (x, ths(t := In c w r))" using 3(3) by (auto intro: owner_enter)
  then show ?case using 3(1) [OF w] 3(2,3) w by (simp add: converse_rtranclp_into_rtranclp)
qed simp

definition acquire :: "nat \<Rightarrow> (nat \<times> owner_call option) list" where
  "acquire t = [(t, Some (C_trywrite O_ENTRY)), (t, None), (t, None), (t, None)]"

definition stale_owner :: "(nat \<times> owner_call option) list" where
  "stale_owner = acquire 1 @ acquire 0 @ [(0, None), (1, None)]"

lemma release_build_race:
  "\<exists>x ths. schedule True False 2 (acquire 0 @ [(0, None), (0, Some (C_endwrite O_ENTRY)), (0, None), (0, None), (0, None)] @ stale_owner)
     owner_init = Some (x, ths) \<and> ths 0 = Rest 1 0 \<and> ths 1 = Rest 1 0"
  by (simp add: stale_owner_def acquire_def owner_init_def ATOMIC_OWNER_RWLOCK_INIT_def owner_calls_def owner_ops
      ATOMIC_OWNER_RWLOCK_WFLAG_def ATOMIC_OWNER_RWLOCK_NMASK_def)

lemma downgrade_race:
  "\<exists>x ths. schedule False True 2 (acquire 0 @ [(0, None), (0, Some (C_downgrade O_ENTRY)), (0, None), (0, None), (0, None),
       (0, Some (C_endread O_ENTRY)), (0, None), (0, None), (0, None)] @ stale_owner)
     owner_init = Some (x, ths) \<and> ths 0 = Rest 1 0 \<and> ths 1 = Rest 1 0"
  by (simp add: stale_owner_def acquire_def owner_init_def ATOMIC_OWNER_RWLOCK_INIT_def owner_calls_def owner_ops
      ATOMIC_OWNER_RWLOCK_WFLAG_def ATOMIC_OWNER_RWLOCK_NMASK_def)

subsection \<open>The debug build without downgrade\<close>

text \<open>What a thread holds, counted from the moment of the exchange that gives or takes it.\<close>

fun holds :: "owner_thread \<Rightarrow> nat \<times> nat" where
  "holds (Rest w r) = (w, r)"
| "holds (In (C_trywrite O_SET) w r) = (w + 1, r)"
| "holds (In (C_trywrite_r O_SET) w r) = (w + 1, r)"
| "holds (In (C_write O_SET) w r) = (w + 1, r)"
| "holds (In (C_tryupgrade O_SET) w r) = (w + 1, r - 1)"
| "holds (In (C_upgrade (OUP_TRY O_SET)) w r) = (w + 1, r - 1)"
| "holds (In (C_upgrade (OUP_WRITE O_SET)) w r) = (w + 1, r - 1)"
| "holds (In (C_upgrade (OUP_WRITE pc)) w r) = (w, r - 1)"
| "holds (In c w r) = (w, r)"
| "holds Asserted = (0, 0)"

abbreviation hw :: "owner_thread \<Rightarrow> nat" where "hw st \<equiv> fst (holds st)"
abbreviation hr :: "owner_thread \<Rightarrow> nat" where "hr st \<equiv> snd (holds st)"

definition tryread_ok :: "owner_pc \<Rightarrow> nat \<Rightarrow> nat \<Rightarrow> bool" where
  "tryread_ok pc w r \<longleftrightarrow> (case pc of O_CAS old new \<Rightarrow> new = old + 1 \<and> (wflag old \<longrightarrow> w \<noteq> 0)
     | O_ENTRY \<Rightarrow> True | O_READ \<Rightarrow> True
     | O_OWNER f \<Rightarrow> f AND ATOMIC_OWNER_RWLOCK_NMASK \<noteq> ATOMIC_OWNER_RWLOCK_NMASK | _ \<Rightarrow> False)"

definition trywrite_ok :: "owner_pc \<Rightarrow> nat \<Rightarrow> nat \<Rightarrow> bool" where
  "trywrite_ok pc w r \<longleftrightarrow> (w \<noteq> 0 \<or> r = 0) \<and> (case pc of
       O_CAS old new \<Rightarrow> wflag old \<and> new = old + 1 \<and> w \<noteq> 0 \<or> old = 0 \<and> new = ATOMIC_OWNER_RWLOCK_WFLAG
     | O_SET \<Rightarrow> w = 0 \<and> r = 0 | O_ENTRY \<Rightarrow> True | O_READ \<Rightarrow> True
     | O_OWNER f \<Rightarrow> wflag f \<and> f AND ATOMIC_OWNER_RWLOCK_NMASK \<noteq> ATOMIC_OWNER_RWLOCK_NMASK | _ \<Rightarrow> False)"

definition tryupgrade_ok :: "owner_pc \<Rightarrow> nat \<Rightarrow> nat \<Rightarrow> bool" where
  "tryupgrade_ok pc w r \<longleftrightarrow> r \<noteq> 0 \<and> (case pc of
       O_CAS old new \<Rightarrow> old = 1 \<and> new = ATOMIC_OWNER_RWLOCK_WFLAG | O_KEEP f \<Rightarrow> w \<noteq> 0
     | O_SET \<Rightarrow> w = 0 \<and> r = 1 | O_ENTRY \<Rightarrow> True | O_READ \<Rightarrow> True | O_OWNER f \<Rightarrow> True | _ \<Rightarrow> False)"

definition endread_ok :: "owner_pc \<Rightarrow> nat \<Rightarrow> nat \<Rightarrow> bool" where
  "endread_ok pc w r \<longleftrightarrow> r \<noteq> 0 \<and> (case pc of
       O_CAS old new \<Rightarrow> new = old - 1 | O_OWNER f \<Rightarrow> w \<noteq> 0 | O_ENTRY \<Rightarrow> True | O_READ \<Rightarrow> True | _ \<Rightarrow> False)"

definition last_write :: "nat \<Rightarrow> nat \<Rightarrow> bool" where
  "last_write w r \<longleftrightarrow> w = 1 \<and> r = 0"

definition endwrite_ok :: "owner_pc \<Rightarrow> nat \<Rightarrow> nat \<Rightarrow> bool" where
  "endwrite_ok pc w r \<longleftrightarrow> (1 < w \<or> last_write w r) \<and> (case pc of
       O_RESET f \<Rightarrow> last_write w r | O_CAS old new \<Rightarrow> new = 0 \<and> last_write w r \<or> new = old - 1 \<and> \<not> last_write w r
     | O_ENTRY \<Rightarrow> True | O_READ \<Rightarrow> True | _ \<Rightarrow> False)"

definition end_ok :: "owner_pc \<Rightarrow> nat \<Rightarrow> nat \<Rightarrow> bool" where
  "end_ok pc w r \<longleftrightarrow> (w \<noteq> 0 \<or> r \<noteq> 0) \<and> (case pc of
       O_OWNER f \<Rightarrow> w \<noteq> 0 \<and> (nested f \<longleftrightarrow> \<not> last_write w r) | O_RESET f \<Rightarrow> last_write w r
     | O_CAS old new \<Rightarrow> new = 0 \<and> last_write w r \<or> new = old - 1 \<and> \<not> last_write w r
     | O_ENTRY \<Rightarrow> True | O_READ \<Rightarrow> True | _ \<Rightarrow> False)"

fun call_ok :: "nat \<Rightarrow> owner_thread \<Rightarrow> bool" where
  "call_ok D (Rest w r) = (w + r \<le> D)"
| "call_ok D (In (C_tryread pc) w r) = (w + r < D \<and> tryread_ok pc w r)"
| "call_ok D (In (C_read pc) w r) = (w + r < D \<and> tryread_ok pc w r)"
| "call_ok D (In (C_trywrite pc) w r) = (w + r < D \<and> trywrite_ok pc w r)"
| "call_ok D (In (C_write pc) w r) = (w + r < D \<and> trywrite_ok pc w r)"
| "call_ok D (In (C_trywrite_r pc) w r) = (0 < D \<and> w = 0 \<and> r = 0 \<and> trywrite_ok pc w r)"
| "call_ok D (In (C_tryupgrade pc) w r) = (w + r \<le> D \<and> tryupgrade_ok pc w r)"
| "call_ok D (In (C_upgrade (OUP_TRY pc)) w r) = (w + r \<le> D \<and> (w = 0 \<longrightarrow> r = 1) \<and> tryupgrade_ok pc w r)"
| "call_ok D (In (C_upgrade (OUP_ENDREAD pc)) w r) = (w + r \<le> D \<and> w = 0 \<and> r = 1 \<and> endread_ok pc w r)"
| "call_ok D (In (C_upgrade (OUP_WRITE pc)) w r) = (w + r \<le> D \<and> w = 0 \<and> r = 1 \<and> trywrite_ok pc 0 0)"
| "call_ok D (In (C_endread pc) w r) = (w + r \<le> D \<and> endread_ok pc w r)"
| "call_ok D (In (C_endwrite pc) w r) = (w + r \<le> D \<and> endwrite_ok pc w r)"
| "call_ok D (In (C_end pc) w r) = (w + r \<le> D \<and> end_ok pc w r)"
| "call_ok D (In (C_downgrade pc) w r) = False"
| "call_ok D Asserted = False"

lemmas pc_oks = tryread_ok_def trywrite_ok_def tryupgrade_ok_def endread_ok_def endwrite_ok_def end_ok_def last_write_def

text \<open>Where the writer is the owner, where it may no longer be, and where it is not.\<close>

fun owner_sure :: "owner_thread \<Rightarrow> bool" where
  "owner_sure (Rest w r) = (w \<noteq> 0)"
| "owner_sure (In (C_endwrite pc) w r) = (w \<noteq> 0 \<and> (last_write w r \<longrightarrow> pc = O_ENTRY))"
| "owner_sure (In (C_end pc) w r) = (w \<noteq> 0 \<and> \<not> last_write w r)"
| "owner_sure (In c w r) = (w \<noteq> 0)"
| "owner_sure Asserted = False"

fun owner_gone :: "owner_thread \<Rightarrow> bool" where
  "owner_gone (In (C_endwrite (O_CAS f new)) w r) = last_write w r"
| "owner_gone (In (C_end (O_CAS f new)) w r) = last_write w r"
| "owner_gone st = False"

definition owner_ok :: "nat \<Rightarrow> owner_thread \<Rightarrow> nat option \<Rightarrow> bool" where
  "owner_ok t st ow \<longleftrightarrow> (hw st = 0 \<or> owner_gone st \<longrightarrow> ow \<noteq> Some t) \<and> (owner_sure st \<longrightarrow> ow = Some t) \<and>
     (hw st \<noteq> 0 \<longrightarrow> ow = None \<or> ow = Some t)"

text \<open>The word of a writer that holds \<open>n\<close> further locks.\<close>

definition cw :: "nat \<Rightarrow> lockword" where "cw n = ATOMIC_OWNER_RWLOCK_WFLAG + of_nat n"

definition word_view :: "owner_thread \<Rightarrow> lockword \<Rightarrow> nat option \<Rightarrow> bool" where
  "word_view st l ow \<longleftrightarrow> (\<not> wflag l \<longrightarrow> ow = None) \<and> (hw st \<noteq> 0 \<longrightarrow> l = cw (hw st + hr st - 1)) \<and>
     (hw st = 0 \<and> hr st \<noteq> 0 \<longrightarrow> \<not> wflag l \<and> l \<noteq> 0 \<and> (l = 1 \<longrightarrow> hr st = 1)) \<and>
     l AND ATOMIC_OWNER_RWLOCK_NMASK \<noteq> ATOMIC_OWNER_RWLOCK_NMASK"

inductive owner_effect :: "nat \<Rightarrow> nat \<times> nat \<Rightarrow> lockword \<Rightarrow> nat option \<Rightarrow> nat \<times> nat \<Rightarrow> lockword \<Rightarrow> nat option \<Rightarrow> bool" for t :: nat where
  e_keep: "owner_effect t h l ow h l ow"
| e_owner: "w \<noteq> 0 \<Longrightarrow> ow' = None \<or> ow' = Some t \<Longrightarrow> owner_effect t (w, r) l ow (w, r) l ow'"
| e_read: "\<not> wflag l \<Longrightarrow> owner_effect t (0, r) l ow (0, Suc r) (l + 1) ow"
| e_unread: "r = Suc r' \<Longrightarrow> owner_effect t (0, r) l ow (0, r') (l - 1) ow"
| e_write: "owner_effect t (0, 0) 0 ow (Suc 0, 0) ATOMIC_OWNER_RWLOCK_WFLAG ow"
| e_unwrite: "owner_effect t (Suc 0, 0) l ow (0, 0) 0 ow"
| e_nest: "w \<noteq> 0 \<Longrightarrow> w' \<noteq> 0 \<Longrightarrow> w' + r' = Suc (w + r) \<Longrightarrow> owner_effect t (w, r) l ow (w', r') (l + 1) ow"
| e_unnest: "w \<noteq> 0 \<Longrightarrow> w' \<noteq> 0 \<Longrightarrow> Suc (w' + r') = w + r \<Longrightarrow> owner_effect t (w, r) l ow (w', r') (l - 1) ow"
| e_renest: "w \<noteq> 0 \<Longrightarrow> w' \<noteq> 0 \<Longrightarrow> w' + r' = w + r \<Longrightarrow> owner_effect t (w, r) l ow (w', r') l ow"
| e_upgr: "owner_effect t (0, Suc 0) 1 ow (Suc 0, 0) ATOMIC_OWNER_RWLOCK_WFLAG ow"

lemma cw_Suc: "cw (Suc n) = cw n + 1" by (simp add: cw_def)

lemma cw_0: "cw 0 = ATOMIC_OWNER_RWLOCK_WFLAG" by (simp add: cw_def)

lemma count_words:
  assumes "n < 0x7fffffff"
  shows "wflag (cw n)" "nested (cw n) \<longleftrightarrow> n \<noteq> 0" "cw n \<noteq> 0" "cw n \<noteq> 1" "cw n = ATOMIC_OWNER_RWLOCK_WFLAG \<longleftrightarrow> n = 0"
    "cw n AND ATOMIC_OWNER_RWLOCK_NMASK \<noteq> ATOMIC_OWNER_RWLOCK_NMASK"
    "\<not> wflag (of_nat n)" "of_nat n AND ATOMIC_OWNER_RWLOCK_NMASK \<noteq> ATOMIC_OWNER_RWLOCK_NMASK"
proof -
  have w: "ATOMIC_OWNER_RWLOCK_WFLAG = ATOMIC_RWLOCK_WFLAG" "ATOMIC_OWNER_RWLOCK_NMASK = ATOMIC_RWLOCK_RMASK"
    by (simp_all add: rwlock_words ATOMIC_OWNER_RWLOCK_WFLAG_def ATOMIC_OWNER_RWLOCK_NMASK_def)
  note c = count_word [OF assms]
  show "\<not> wflag (of_nat n)" "of_nat n AND ATOMIC_OWNER_RWLOCK_NMASK \<noteq> ATOMIC_OWNER_RWLOCK_NMASK" using c w by simp_all
  have e: "cw n = of_nat (2 ^ 31 + n)" by (simp add: cw_def ATOMIC_OWNER_RWLOCK_WFLAG_def)
  have u0: "unat (of_nat m :: lockword) = m" if "m < 2 ^ 32" for m using that by (simp add: unat_of_nat take_bit_eq_mod)
  have u: "unat (cw n) = 2 ^ 31 + n" unfolding e by (rule u0) (use assms in simp)
  have "bit (2 ^ 31 + n) 31" using assms by (simp add: bit_iff_odd div_add1_eq)
  then have "bit (cw n) 31" using bit_unsigned_iff [where ?'a = nat, of "cw n" 31] u by simp
  then show "wflag (cw n)"
    using and_exp_eq_0_iff_not_bit [of "cw n" 31] by (simp add: ATOMIC_OWNER_RWLOCK_WFLAG_def)
  have m: "ATOMIC_OWNER_RWLOCK_NMASK = mask 31" by (simp add: ATOMIC_OWNER_RWLOCK_NMASK_def mask_eq_exp_minus_1)
  have k: "unat (cw n AND ATOMIC_OWNER_RWLOCK_NMASK) = n"
    unfolding m using assms by (simp only: take_bit_eq_mask [symmetric] unsigned_take_bit_eq u) (simp add: take_bit_eq_mod)
  show "nested (cw n) \<longleftrightarrow> n \<noteq> 0" using k by (metis unsigned_0 unsigned_eq_0_iff)
  show "cw n AND ATOMIC_OWNER_RWLOCK_NMASK \<noteq> ATOMIC_OWNER_RWLOCK_NMASK"
    using k assms by (auto simp: ATOMIC_OWNER_RWLOCK_NMASK_def)
  show "cw n \<noteq> 0" "cw n \<noteq> 1" using u by auto
  show "cw n = ATOMIC_OWNER_RWLOCK_WFLAG \<longleftrightarrow> n = 0" using c(3) by (simp add: cw_def)
qed

lemma wflag_consts [simp]: "wflag ATOMIC_OWNER_RWLOCK_WFLAG" "\<not> wflag 0" "\<not> wflag 1" "ATOMIC_OWNER_RWLOCK_WFLAG \<noteq> 0" "\<not> nested ATOMIC_OWNER_RWLOCK_WFLAG"
  by (simp_all add: ATOMIC_OWNER_RWLOCK_WFLAG_def ATOMIC_OWNER_RWLOCK_NMASK_def)

lemma wflag_add [simp]: "wflag l \<Longrightarrow> l + 1 \<noteq> ATOMIC_OWNER_RWLOCK_WFLAG"
proof
  assume "wflag l" "l + 1 = ATOMIC_OWNER_RWLOCK_WFLAG"
  then have "l = ATOMIC_OWNER_RWLOCK_WFLAG - 1" by (simp add: eq_diff_eq)
  then show False using \<open>wflag l\<close> by (simp add: ATOMIC_OWNER_RWLOCK_WFLAG_def)
qed

lemma wflag_unat: "wflag l \<longleftrightarrow> 0x80000000 \<le> unat l"
proof -
  have "unat l < 2 ^ LENGTH(32)" by (rule unsigned_less)
  then have "unat l div 2147483648 < 2" by simp
  then have "odd (unat l div 2147483648) \<longleftrightarrow> 0x80000000 \<le> unat l" by (auto simp: less_2_cases_iff div_eq_0_iff)
  moreover have "bit l 31 \<longleftrightarrow> bit (unat l) 31" using bit_unsigned_iff [where ?'a = nat, of l 31] by simp
  moreover have "bit (unat l) 31 \<longleftrightarrow> odd (unat l div 2147483648)" by (simp add: bit_iff_odd)
  ultimately show ?thesis
    using and_exp_eq_0_iff_not_bit [of l 31] by (simp add: ATOMIC_OWNER_RWLOCK_WFLAG_def)
qed

lemma wflag_Suc [simp]:
  assumes "wflag l" and "l AND ATOMIC_OWNER_RWLOCK_NMASK \<noteq> ATOMIC_OWNER_RWLOCK_NMASK"
  shows "wflag (l + 1)"
proof -
  have m: "unat (-1 :: lockword) = 0xffffffff" by (simp add: unsigned_minus_1_eq_mask mask_eq_exp_minus_1)
  have "l \<noteq> -1" using assms(2) by auto
  then have "unat l \<noteq> 0xffffffff" using m by (metis word_unat_eq_iff)
  moreover have "unat l < 2 ^ LENGTH(32)" by (rule unsigned_less)
  ultimately have "unat (l + 1) = unat l + 1" by (simp add: unat_word_ariths)
  then show ?thesis using assms(1) by (simp add: wflag_unat)
qed

lemmas wflag_add_sym [simp] = wflag_add [THEN not_sym]

definition step_ok :: "nat \<Rightarrow> nat \<Rightarrow> owner_thread \<Rightarrow> bool" where
  "step_ok D t st \<longleftrightarrow> (\<forall>sp x st' x'. call_ok D st \<longrightarrow> owner_ok t st (aorw_owner x) \<longrightarrow> word_view st (aorw_lock x) (aorw_owner x) \<longrightarrow>
     owner_step False sp t st x = (st', x') \<longrightarrow> call_ok D st' \<and> owner_ok t st' (aorw_owner x') \<and>
     owner_effect t (holds st) (aorw_lock x) (aorw_owner x) (holds st') (aorw_lock x') (aorw_owner x'))"

lemmas step_simps = step_ok_def owner_ops pc_oks owner_ok_def word_view_def Let_def upgraded_def

lemma call_ok_bound: "call_ok D (In c w r) \<Longrightarrow> w + r \<le> D"
  by (cases "(D, In c w r)" rule: call_ok.cases) auto

lemma step_bounded:
  assumes "w + r - 1 < 0x7fffffff \<Longrightarrow> step_ok D t (In c w r)" and "D < 0x7fffffff"
  shows "step_ok D t (In c w r)"
proof (cases "w + r \<le> D")
  case True
  then show ?thesis using assms by simp
next
  case False
  then show ?thesis using call_ok_bound by (auto simp: step_ok_def)
qed

lemma step_tryread: "D < 0x7fffffff \<Longrightarrow> step_ok D t (In (C_tryread pc) w r)"
proof (erule step_bounded [rotated])
  assume "w + r - 1 < 0x7fffffff"
  from count_words [OF this] show "step_ok D t (In (C_tryread pc) w r)"
    by (cases "w = 0"; cases pc) (auto simp: step_simps split: if_splits intro: owner_effect.intros)
qed

lemma step_read: "D < 0x7fffffff \<Longrightarrow> step_ok D t (In (C_read pc) w r)"
proof (erule step_bounded [rotated])
  assume "w + r - 1 < 0x7fffffff"
  from count_words [OF this] show "step_ok D t (In (C_read pc) w r)"
    by (cases "w = 0"; cases pc) (auto simp: step_simps split: if_splits intro: owner_effect.intros)
qed

lemma step_trywrite: "D < 0x7fffffff \<Longrightarrow> step_ok D t (In (C_trywrite pc) w r)"
proof (erule step_bounded [rotated])
  assume "w + r - 1 < 0x7fffffff"
  from count_words [OF this] show "step_ok D t (In (C_trywrite pc) w r)"
    by (cases "w = 0"; cases pc) (auto simp: step_simps split: if_splits intro: owner_effect.intros)
qed

lemma step_trywrite_r: "D < 0x7fffffff \<Longrightarrow> step_ok D t (In (C_trywrite_r pc) w r)"
proof (erule step_bounded [rotated])
  assume "w + r - 1 < 0x7fffffff"
  from count_words [OF this] show "step_ok D t (In (C_trywrite_r pc) w r)"
    by (cases "w = 0"; cases pc) (auto simp: step_simps split: if_splits intro: owner_effect.intros)
qed

lemma step_write: "D < 0x7fffffff \<Longrightarrow> step_ok D t (In (C_write pc) w r)"
proof (erule step_bounded [rotated])
  assume "w + r - 1 < 0x7fffffff"
  from count_words [OF this] show "step_ok D t (In (C_write pc) w r)"
    by (cases "w = 0"; cases pc) (auto simp: step_simps split: if_splits intro: owner_effect.intros)
qed

lemma step_tryupgrade: "D < 0x7fffffff \<Longrightarrow> step_ok D t (In (C_tryupgrade pc) w r)"
proof (erule step_bounded [rotated])
  assume "w + r - 1 < 0x7fffffff"
  from count_words [OF this] show "step_ok D t (In (C_tryupgrade pc) w r)"
    by (cases "w = 0"; cases pc) (auto simp: step_simps split: if_splits intro: owner_effect.intros)
qed

lemma step_endread: "D < 0x7fffffff \<Longrightarrow> step_ok D t (In (C_endread pc) w r)"
proof (erule step_bounded [rotated])
  assume "w + r - 1 < 0x7fffffff"
  from count_words [OF this] show "step_ok D t (In (C_endread pc) w r)"
    by (cases "w = 0"; cases pc) (auto simp: step_simps split: if_splits intro: owner_effect.intros)
qed

lemma step_endwrite: "D < 0x7fffffff \<Longrightarrow> step_ok D t (In (C_endwrite pc) w r)"
proof (erule step_bounded [rotated])
  assume "w + r - 1 < 0x7fffffff"
  from count_words [OF this] show "step_ok D t (In (C_endwrite pc) w r)"
    by (cases "w = 0"; cases pc) (auto simp: step_simps split: if_splits intro: owner_effect.intros)
qed

lemma step_end: "D < 0x7fffffff \<Longrightarrow> step_ok D t (In (C_end pc) w r)"
proof (erule step_bounded [rotated])
  assume "w + r - 1 < 0x7fffffff"
  from count_words [OF this] show "step_ok D t (In (C_end pc) w r)"
    by (cases "w = 0"; cases pc) (auto simp: step_simps split: if_splits intro: owner_effect.intros)
qed


lemma step_upgrade: "D < 0x7fffffff \<Longrightarrow> step_ok D t (In (C_upgrade up) w r)"
proof (erule step_bounded [rotated])
  assume "w + r - 1 < 0x7fffffff"
  note c = count_words [OF this]
  show "step_ok D t (In (C_upgrade up) w r)"
  proof (cases up)
    case (OUP_TRY pc)
    then show ?thesis using c
      by (cases "w = 0"; cases pc) (auto simp: step_simps split: if_splits intro: owner_effect.intros)
  next
    case (OUP_ENDREAD pc)
    then show ?thesis using c
      by (cases pc) (auto simp: step_simps split: if_splits intro: owner_effect.intros)
  next
    case (OUP_WRITE pc)
    then show ?thesis using c
      by (cases pc) (auto simp: step_simps split: if_splits intro: owner_effect.intros)
  qed
qed

lemma step_thread: "D < 0x7fffffff \<Longrightarrow> step_ok D t st"
proof (cases st)
  case (In c w r)
  assume "D < 0x7fffffff"
  then show ?thesis unfolding In
    by (cases c) (simp_all add: step_tryread step_read step_trywrite step_trywrite_r step_write step_tryupgrade step_upgrade
        step_endread step_endwrite step_end, simp add: step_ok_def)
qed (auto simp: step_ok_def intro: e_keep)

subsection \<open>All threads\<close>

definition reads :: "nat \<Rightarrow> (nat \<Rightarrow> nat \<times> nat) \<Rightarrow> nat" where
  "reads N H = (\<Sum>t<N. snd (H t))"

definition owner_word :: "nat \<Rightarrow> (nat \<Rightarrow> nat \<times> nat) \<Rightarrow> lockword \<Rightarrow> bool" where
  "owner_word N H l \<longleftrightarrow> (\<forall>t<N. fst (H t) = 0) \<and> l = of_nat (reads N H) \<or>
     (\<exists>t<N. fst (H t) \<noteq> 0 \<and> (\<forall>u<N. u \<noteq> t \<longrightarrow> H u = (0, 0)) \<and> l = cw (fst (H t) + snd (H t) - 1))"

definition held :: "nat \<Rightarrow> (nat \<Rightarrow> nat \<times> nat) \<Rightarrow> rw_spec" where
  "held N H = \<lparr>readers = {t. t < N \<and> fst (H t) = 0 \<and> snd (H t) \<noteq> 0}, writers = {t. t < N \<and> fst (H t) \<noteq> 0}\<rparr>"

lemma reads_upd: "t < N \<Longrightarrow> reads N (H(t := h)) + snd (H t) = reads N H + snd h"
  by (simp add: reads_def sum.remove [of "{..<N}" t])

lemma reads_ge: "t < N \<Longrightarrow> snd (H t) \<le> reads N H"
  unfolding reads_def by (rule member_le_sum) auto

lemma held_upd:
  "t < N \<Longrightarrow> readers (held N (H(t := h))) = (if fst h = 0 \<and> snd h \<noteq> 0 then insert t (readers (held N H)) else readers (held N H) - {t})"
  "t < N \<Longrightarrow> writers (held N (H(t := h))) = (if fst h \<noteq> 0 then insert t (writers (held N H)) else writers (held N H) - {t})"
  by (auto simp: held_def)

lemma held_in: "t < N \<Longrightarrow> t \<in> readers (held N H) \<longleftrightarrow> fst (H t) = 0 \<and> snd (H t) \<noteq> 0"
  "t < N \<Longrightarrow> t \<in> writers (held N H) \<longleftrightarrow> fst (H t) \<noteq> 0"
  by (auto simp: held_def)

lemma word_free:
  assumes "owner_word N H l" and "\<not> wflag l" and "\<And>u. u < N \<Longrightarrow> fst (H u) + snd (H u) < 0x7fffffff"
  shows "\<And>u. u < N \<Longrightarrow> fst (H u) = 0" and "l = of_nat (reads N H)" and "writers (held N H) = {}"
proof -
  have "\<not> (\<exists>t<N. fst (H t) \<noteq> 0 \<and> l = cw (fst (H t) + snd (H t) - 1))"
    using assms(2,3) count_words(1) by fastforce
  then have "(\<forall>t<N. fst (H t) = 0) \<and> l = of_nat (reads N H)" using assms(1) unfolding owner_word_def by blast
  then show "\<And>u. u < N \<Longrightarrow> fst (H u) = 0" "l = of_nat (reads N H)" "writers (held N H) = {}"
    by (auto simp: held_def)
qed

lemma word_owned:
  assumes "owner_word N H l" and "t < N" and "fst (H t) \<noteq> 0"
  shows "\<And>u. u < N \<Longrightarrow> u \<noteq> t \<Longrightarrow> H u = (0, 0)" and "l = cw (fst (H t) + snd (H t) - 1)"
    and "writers (held N H) = {t}" and "readers (held N H) = {}"
proof -
  have o: "(\<forall>u<N. u \<noteq> t \<longrightarrow> H u = (0, 0)) \<and> l = cw (fst (H t) + snd (H t) - 1)"
    using assms unfolding owner_word_def by (metis fst_conv)
  then show "\<And>u. u < N \<Longrightarrow> u \<noteq> t \<Longrightarrow> H u = (0, 0)" "l = cw (fst (H t) + snd (H t) - 1)" by auto
  have h: "fst (H u) \<noteq> 0 \<longleftrightarrow> u = t" if "u < N" for u using o assms(3) that by (metis fst_conv)
  moreover have "snd (H u) = 0" if "u < N" "u \<noteq> t" for u using o that by simp
  ultimately show "writers (held N H) = {t}" "readers (held N H) = {}"
    using assms(2) by (auto simp: held_def) (metis less_irrefl)+
qed

lemma owned_word: "t < N \<Longrightarrow> fst h \<noteq> 0 \<Longrightarrow> (\<And>u. u < N \<Longrightarrow> u \<noteq> t \<Longrightarrow> H u = (0, 0)) \<Longrightarrow>
    owner_word N (H(t := h)) (cw (fst h + snd h - 1))"
  by (auto simp: owner_word_def)

lemma free_word_upd: "(\<And>u. u < N \<Longrightarrow> fst (H u) = 0) \<Longrightarrow> fst h = 0 \<Longrightarrow> owner_word N (H(t := h)) (of_nat (reads N (H(t := h))))"
  by (auto simp: owner_word_def)

lemma reads_0: "reads N H = 0 \<Longrightarrow> u < N \<Longrightarrow> snd (H u) = 0"
  using reads_ge [of u N H] by simp

lemma word_reading:
  assumes "owner_word N H l" and "t < N" and "fst (H t) = 0" and "snd (H t) \<noteq> 0" and "reads N H < 0x7fffffff"
  shows "\<not> wflag l"
proof -
  have "H t \<noteq> (0, 0)" using assms(4) by auto
  then have "l = of_nat (reads N H)" using assms(1-3) unfolding owner_word_def by metis
  then show ?thesis using count_words(7) [OF assms(5)] by simp
qed

lemma owner_effect_spec:
  assumes e: "owner_effect t (H t) l ow h' l' ow'" and t: "t < N" and o: "owner_word N H l"
    and n: "reads N H < 0x7fffffff" and d: "\<And>u. u < N \<Longrightarrow> fst (H u) + snd (H u) < 0x7fffffff"
  shows "owner_word N (H(t := h')) l' \<and> (held N (H(t := h')) = held N H \<or> spec_step (held N H) (held N (H(t := h'))))"
proof -
  note sum = reads_upd [OF t, of H h'] and f = word_free [OF o _ d] and w = word_owned [OF o t]
    and upd = held_upd [OF t, of H h'] and ins = held_in [OF t, of H]
  have nested: "owner_word N (H(t := h')) l' \<and> held N (H(t := h')) = held N H"
    if "fst (H t) \<noteq> 0" "fst h' \<noteq> 0" "l' = cw (fst h' + snd h' - 1)"
  proof -
    have "held N (H(t := h')) = held N H" using that upd w by (auto intro!: rw_spec.equality)
    then show ?thesis using owned_word [OF t that(2), of H] w that by simp
  qed
  from e show ?thesis
  proof cases
    case e_keep
    then show ?thesis using o by (metis fun_upd_triv)
  next
    case (e_owner w r)
    then show ?thesis using o by (metis fun_upd_triv)
  next
    case (e_read r)
    then have h: "H t = (0, r)" "h' = (0, Suc r)" "l' = l + 1" "\<not> wflag l" by auto
    have "owner_word N (H(t := h')) l'"
      using free_word_upd [of N H h' t] f [OF h(4)] sum h by (simp add: add.commute del: fun_upd_apply)
    moreover have "held N (H(t := h')) = (held N H)\<lparr>readers := insert t (readers (held N H))\<rparr>"
      using upd h ins f(3) [OF h(4)] by (auto intro!: rw_spec.equality)
    moreover have "t \<in> readers (held N H) \<longleftrightarrow> r \<noteq> 0" using ins h by simp
    ultimately show ?thesis using acquire_read [OF f(3) [OF h(4)], of t] by (auto simp: insert_absorb)
  next
    case (e_unread r r')
    then have h: "H t = (0, Suc r')" "h' = (0, r')" "l' = l - 1" by auto
    then have v: "\<not> wflag l" using word_reading [OF o t _ _ n] by simp
    have "reads N H = Suc (reads N (H(t := h')))" using sum h by simp
    then have "owner_word N (H(t := h')) l'"
      using free_word_upd [of N H h' t] f [OF v] h by (simp del: fun_upd_apply)
    moreover have "r' \<noteq> 0 \<Longrightarrow> held N (H(t := h')) = held N H"
      using upd h ins f(3) [OF v] by (auto intro!: rw_spec.equality)
    moreover have "r' = 0 \<Longrightarrow> held N (H(t := h')) = (held N H)\<lparr>readers := readers (held N H) - {t}\<rparr>"
      using upd h ins f(3) [OF v] by (auto intro!: rw_spec.equality)
    ultimately show ?thesis using release_read [of t "held N H"] f(3) [OF v] ins h by (cases "r' = 0") auto
  next
    case e_write
    then have h: "H t = (0, 0)" "h' = (Suc 0, 0)" "l = 0" "l' = ATOMIC_OWNER_RWLOCK_WFLAG" by auto
    then have v: "\<not> wflag l" by simp
    have "reads N H = 0" using f(2) [OF v] count_word(3) [OF n] h by simp
    then have z: "H u = (0, 0)" if "u < N" for u using that f(1) [OF v] reads_0 by (auto simp: prod_eq_iff)
    have "owner_word N (H(t := h')) l'" using owned_word [OF t, of h' H] z h cw_0 by simp
    moreover have "readers (held N H) = {}" "writers (held N H) = {}" using z by (auto simp: held_def)
    moreover have "held N (H(t := h')) = (held N H)\<lparr>writers := {t}\<rparr>" using upd h calculation by (auto intro!: rw_spec.equality)
    ultimately show ?thesis using acquire_write [of "held N H" t] by simp
  next
    case e_unwrite
    then have h: "H t = (Suc 0, 0)" "h' = (0, 0)" "l' = 0" by auto
    then have z: "(H(t := h')) u = (0, 0)" if "u < N" for u using that w(1) by auto
    then have "reads N (H(t := h')) = 0" by (simp add: reads_def del: fun_upd_apply)
    then have "owner_word N (H(t := h')) l'" using z h by (auto simp: owner_word_def simp del: fun_upd_apply)
    moreover have "held N (H(t := h')) = (held N H)\<lparr>writers := {}\<rparr>" using upd h w by (auto intro!: rw_spec.equality)
    ultimately show ?thesis using release_write [of "held N H" t] w h by simp
  next
    case (e_nest v v' r' r)
    then have "cw (v + r) = l + 1" using w(2) cw_Suc [of "v + r - 1"] by simp
    then show ?thesis using e_nest nested by simp
  next
    case (e_unnest v v' r' r)
    then have "v + r - 1 = Suc (v' + r' - 1)" by simp
    then have "cw (v' + r' - 1) = l - 1" using w(2) cw_Suc [of "v' + r' - 1"] e_unnest by simp
    then show ?thesis using e_unnest nested by simp
  next
    case (e_renest v v' r' r)
    then show ?thesis using w(2) nested by simp
  next
    case e_upgr
    then have h: "H t = (0, Suc 0)" "h' = (Suc 0, 0)" "l = 1" "l' = ATOMIC_OWNER_RWLOCK_WFLAG" by auto
    then have v: "\<not> wflag l" by simp
    have "reads N H = 1" using f(2) [OF v] count_word(4) [OF n] h by simp
    then have "reads N (H(t := (0, 0))) = 0" using reads_upd [OF t, of H "(0, 0)"] h by simp
    then have z: "H u = (0, 0)" if "u < N" "u \<noteq> t" for u
      using that f(1) [OF v] reads_0 [of N "H(t := (0, 0))" u] by (auto simp: prod_eq_iff)
    have "owner_word N (H(t := h')) l'" using owned_word [OF t, of h' H] z h cw_0 by simp
    moreover have "readers (held N H) = {t}" "writers (held N H) = {}" using z h t f(3) [OF v] by (auto simp: held_def) (metis less_irrefl snd_conv)
    moreover have "held N (H(t := h')) = (held N H)\<lparr>readers := {}, writers := {t}\<rparr>" using upd h calculation by (auto intro!: rw_spec.equality)
    ultimately show ?thesis using upgrade [of "held N H" t] by simp
  qed
qed

definition owner_inv :: "nat \<Rightarrow> nat \<Rightarrow> owner_state \<Rightarrow> bool" where
  "owner_inv N D = (\<lambda>(x, ths). (\<forall>t<N. call_ok D (ths t) \<and> owner_ok t (ths t) (aorw_owner x)) \<and>
     (\<forall>u. aorw_owner x = Some u \<longrightarrow> u < N \<and> hw (ths u) \<noteq> 0) \<and> owner_word N (\<lambda>t. holds (ths t)) (aorw_lock x))"

definition owner_abs :: "nat \<Rightarrow> owner_state \<Rightarrow> rw_spec" where
  "owner_abs N = (\<lambda>(x, ths). held N (\<lambda>t. holds (ths t)))"

lemma call_ok_holds: "call_ok D st \<Longrightarrow> hw st + hr st \<le> D"
  by (cases "(D, st)" rule: call_ok.cases; cases st rule: holds.cases) (auto simp: pc_oks split: owner_pc.splits)

lemma owner_sure_hw: "call_ok D st \<Longrightarrow> owner_sure st \<Longrightarrow> hw st \<noteq> 0"
  by (cases st rule: holds.cases) auto

lemma reads_bound: "(\<And>t. t < N \<Longrightarrow> snd (H t) \<le> D) \<Longrightarrow> reads N H \<le> N * D"
  unfolding reads_def using sum_bounded_above [of "{..<N}" "\<lambda>t. snd (H t)" D] by simp

text \<open>What the invariant says to one thread.\<close>

lemma owner_inv_bounds:
  assumes i: "owner_inv N D (x, ths)" and b: "N * D < 0x7fffffff"
  shows "reads N (\<lambda>t. holds (ths t)) < 0x7fffffff" and "\<And>u. u < N \<Longrightarrow> hw (ths u) + hr (ths u) < 0x7fffffff"
proof -
  have c: "hw (ths u) + hr (ths u) \<le> D" if "u < N" for u using i that call_ok_holds by (auto simp: owner_inv_def)
  then have "reads N (\<lambda>t. holds (ths t)) \<le> N * D" by (intro reads_bound) (metis add_leD2)
  then show "reads N (\<lambda>t. holds (ths t)) < 0x7fffffff" using b by linarith
  show "hw (ths u) + hr (ths u) < 0x7fffffff" if "u < N" for u
  proof -
    have "D \<le> N * D" using that by simp
    then show ?thesis using c [OF that] b by linarith
  qed
qed

lemma owner_inv_view:
  assumes i: "owner_inv N D (x, ths)" and t: "t < N" and b: "N * D < 0x7fffffff"
  shows "word_view (ths t) (aorw_lock x) (aorw_owner x)"
proof -
  let ?H = "\<lambda>t. holds (ths t)"
  have o: "owner_word N ?H (aorw_lock x)" and ow: "\<And>u. aorw_owner x = Some u \<Longrightarrow> u < N \<and> hw (ths u) \<noteq> 0"
    using i by (auto simp: owner_inv_def)
  note n = owner_inv_bounds [OF i b]
  have cwb: "hw (ths u) + hr (ths u) - 1 < 0x7fffffff" if "u < N" for u using n(2) [OF that] by simp
  note owned = word_owned(2) [OF o] and free = word_free [OF o _ n(2)]
  have "aorw_owner x = None" if "\<not> wflag (aorw_lock x)"
    using free(1) [OF that] ow by (cases "aorw_owner x") auto
  moreover have "aorw_lock x = cw (hw (ths t) + hr (ths t) - 1)" if "hw (ths t) \<noteq> 0" using owned [OF t that] .
  moreover have "\<not> wflag (aorw_lock x) \<and> aorw_lock x \<noteq> 0 \<and> (aorw_lock x = 1 \<longrightarrow> hr (ths t) = 1)" if "hw (ths t) = 0" "hr (ths t) \<noteq> 0"
  proof -
    have v: "\<not> wflag (aorw_lock x)" using word_reading [OF o t _ _ n(1)] that by simp
    show ?thesis using v free(2) [OF v] count_word(3,4) [OF n(1)] reads_ge [OF t, of ?H] that by auto
  qed
  moreover have "aorw_lock x AND ATOMIC_OWNER_RWLOCK_NMASK \<noteq> ATOMIC_OWNER_RWLOCK_NMASK"
  proof (cases "\<exists>u<N. hw (ths u) \<noteq> 0")
    case True
    then obtain u where u: "u < N" "hw (ths u) \<noteq> 0" by blast
    show ?thesis using owned [OF u] count_words(6) [OF cwb [OF u(1)]] by simp
  next
    case False
    then have "aorw_lock x = of_nat (reads N ?H)" using o unfolding owner_word_def by blast
    then show ?thesis using count_words(8) [OF n(1)] by simp
  qed
  ultimately show ?thesis by (simp add: word_view_def)
qed

lemma owner_thread_sim:
  assumes i: "owner_inv N D (x, ths)" and t: "t < N" and b: "N * D < 0x7fffffff" and c: "call_ok D st" "owner_ok t st (aorw_owner x')"
    and e: "owner_effect t (holds (ths t)) (aorw_lock x) (aorw_owner x) (holds st) (aorw_lock x') (aorw_owner x')"
  shows "owner_inv N D (x', ths(t := st)) \<and>
    (owner_abs N (x', ths(t := st)) = owner_abs N (x, ths) \<or> spec_step (owner_abs N (x, ths)) (owner_abs N (x', ths(t := st))))"
proof -
  let ?H = "\<lambda>t. holds (ths t)"
  have H: "(\<lambda>u. holds ((ths(t := st)) u)) = ?H(t := holds st)" by auto
  have o: "owner_word N ?H (aorw_lock x)" and ow: "\<And>u. aorw_owner x = Some u \<Longrightarrow> u < N \<and> hw (ths u) \<noteq> 0"
    and a: "\<And>u. u < N \<Longrightarrow> call_ok D (ths u) \<and> owner_ok u (ths u) (aorw_owner x)"
    using i by (auto simp: owner_inv_def)
  note s = owner_effect_spec [of t ?H, OF e t o owner_inv_bounds [OF i b]]
  have ch: "aorw_owner x' = aorw_owner x \<or> hw (ths t) \<noteq> 0 \<and> (aorw_owner x' = None \<or> aorw_owner x' = Some t)"
    using e by cases auto
  have "owner_ok u (ths u) (aorw_owner x')" if u: "u < N" "u \<noteq> t" for u
  proof (cases "aorw_owner x' = aorw_owner x")
    case True
    then show ?thesis using a u by simp
  next
    case False
    then have "hw (ths t) \<noteq> 0" and x': "aorw_owner x' \<noteq> Some u" using ch u by auto
    then have "holds (ths u) = (0, 0)" using word_owned(1) [OF o t] u by blast
    then show ?thesis using x' owner_sure_hw [of D "ths u"] a u by (auto simp: owner_ok_def)
  qed
  moreover have "u < N \<and> hw ((ths(t := st)) u) \<noteq> 0" if "aorw_owner x' = Some u" for u
  proof (cases "u = t")
    case True
    then show ?thesis using c(2) t that by (auto simp: owner_ok_def)
  next
    case False
    then show ?thesis using ch ow that by auto
  qed
  ultimately have "owner_inv N D (x', ths(t := st))" using s a c by (auto simp: owner_inv_def H simp del: fun_upd_apply) auto
  then show ?thesis using s by (simp add: owner_abs_def H del: fun_upd_apply)
qed

lemma enter_ok:
  assumes "call_ok D (Rest w r)" and "owner_ok t (Rest w r) ow" and "c \<in> set (owner_calls False D w r)"
  shows "call_ok D (In c w r) \<and> owner_ok t (In c w r) ow \<and> holds (In c w r) = (w, r)"
  using assms by (auto simp: owner_calls_def pc_oks owner_ok_def split: if_splits)

lemma owner_run_sim:
  assumes "owner_run False False N D s s'" and i: "owner_inv N D s" and b: "N * D < 0x7fffffff"
  shows "owner_inv N D s' \<and> (owner_abs N s' = owner_abs N s \<or> spec_step (owner_abs N s) (owner_abs N s'))"
  using assms(1)
proof cases
  case (owner_enter t ths w r c x)
  have "call_ok D (Rest w r)" "owner_ok t (Rest w r) (aorw_owner x)"
    using i owner_enter by (auto simp: owner_inv_def dest!: spec [of _ t])
  from enter_ok [OF this owner_enter(5)]
  show ?thesis using owner_thread_sim [OF i [unfolded owner_enter] owner_enter(3) b, of "In c w r" x] owner_enter e_keep by simp
next
  case (owner_access t sp ths x st x')
  then have D: "D < 0x7fffffff" using b by (cases N) auto
  have "call_ok D (ths t)" "owner_ok t (ths t) (aorw_owner x)" using i owner_access by (auto simp: owner_inv_def)
  then have "call_ok D st \<and> owner_ok t st (aorw_owner x') \<and>
      owner_effect t (holds (ths t)) (aorw_lock x) (aorw_owner x) (holds st) (aorw_lock x') (aorw_owner x')"
    using step_thread [OF D, of t "ths t", unfolded step_ok_def] owner_inv_view [OF i [unfolded owner_access] owner_access(3) b] owner_access(4)
    by blast
  then show ?thesis using owner_thread_sim [OF i [unfolded owner_access] owner_access(3) b] owner_access by simp
qed

subsection \<open>Properties\<close>

text \<open>So many threads and nested locks fit into the 31 bits of the count.\<close>

definition OWNER_THREADS :: nat where "OWNER_THREADS = 0x7fff"
definition OWNER_DEPTH :: nat where "OWNER_DEPTH = 0xffff"

interpretation owner_rwlock: rw_lock owner_init "owner_run False False OWNER_THREADS OWNER_DEPTH"
  "owner_inv OWNER_THREADS OWNER_DEPTH" "owner_abs OWNER_THREADS"
proof unfold_locales
  show "owner_inv OWNER_THREADS OWNER_DEPTH owner_init"
    by (simp add: owner_inv_def owner_init_def owner_word_def reads_def owner_ok_def ATOMIC_OWNER_RWLOCK_INIT_def)
  show "readers (owner_abs OWNER_THREADS owner_init) = {} \<and> writers (owner_abs OWNER_THREADS owner_init) = {}"
    by (simp add: owner_abs_def owner_init_def held_def)
  show "owner_inv OWNER_THREADS OWNER_DEPTH s' \<and> (owner_abs OWNER_THREADS s' = owner_abs OWNER_THREADS s \<or>
      spec_step (owner_abs OWNER_THREADS s) (owner_abs OWNER_THREADS s'))"
    if "owner_inv OWNER_THREADS OWNER_DEPTH s" "owner_run False False OWNER_THREADS OWNER_DEPTH s s'" for s s'
    using owner_run_sim [OF that(2,1)] by (simp add: OWNER_THREADS_def OWNER_DEPTH_def)
qed




end
