(* ===== verification/Iobuffer.thy ===== *)
theory Iobuffer
  imports Prelude
begin

text \<open>
  The I/O buffer of \<open>src/src/kernel/fs/iobuffer.c\<close> (\<open>struct iobuffer\<close> of \<open>fs/iobuffer.h\<close>), the ring behind pipes,
  terminals and keyboards.

  Pointers into \<open>ib_buffer\<close> are offsets, and \<open>ib_buffer\<close> is the list of the \<open>ib_size\<close> bytes of the block (\<open>NULL\<close> is
  the empty block). A function runs on its own between taking and releasing \<open>ib_rwlock\<close>; waiting for a signal is an
  outcome (\<open>Read_wait\<close>, \<open>Write_wait\<close>) that carries the caller's position, and \<open>read_again\<close>/\<open>write_again\<close> continue
  from it on the buffer as the others have left it. Assertions are those of a release build: compiled out.

  What the code gets from elsewhere is the record \<open>io_env\<close>: what taking or upgrading the lock returns, what
  \<open>krealloc\<close> and \<open>realloc\<close> return, and at which transfer \<open>copy_to_user\<close>/\<open>copy_from_user\<close> fault (after how many bytes).
  \<open>ib_avail\<close> and \<open>ib_nfull\<close> count the broadcasts of the two signals and \<open>ib_rwlock\<close> the holds on the lock.
  \<open>None\<close> is a call that never returns, or one that moves a pointer or an access outside the block.

  The second half shows that the ring is a queue of bytes (\<open>iob_queue\<close>): reads remove the oldest bytes, writes append,
  growing keeps the queue when the data is in one piece; that every operation keeps the positions inside the block;
  and the cases in which the code loses data, repeats it, or does not return.
\<close>

type_synonym byte = "8 word"

subsection \<open>The buffer and its surroundings\<close>

record iobuffer =
  ib_avail :: nat
  ib_nfull :: nat
  ib_rwlock :: nat
  ib_maxsize :: nat
  ib_size :: nat
  ib_buffer :: "byte list"
  ib_rpos :: nat
  ib_wpos :: nat
  ib_mode :: "32 word"

record io_env =
  env_rwlock :: int
  env_upgrade :: int
  env_krealloc :: "byte list \<Rightarrow> nat \<Rightarrow> byte list option"
  env_realloc :: "byte list \<Rightarrow> nat \<Rightarrow> byte list option"
  env_user :: "nat \<Rightarrow> nat \<Rightarrow> nat option"

definition IOBUFFER_INTR_BLOCKFIRST :: "32 word" where
  "IOBUFFER_INTR_BLOCKFIRST = 0x00000001"

definition IO_BLOCKNONE :: byte where "IO_BLOCKNONE = 0x00"
definition IO_BLOCKFIRST :: byte where "IO_BLOCKFIRST = 0x01"
definition IO_BLOCKALL :: byte where "IO_BLOCKALL = 0x03"
definition IO_PEEK :: byte where "IO_PEEK = 0x10"
definition IO_SKIP :: byte where "IO_SKIP = 0x40"

definition EFAULT :: int where "EFAULT = 14"
definition ENOMEM :: int where "ENOMEM = 12"
definition ERELOAD :: int where "ERELOAD = 500"

definition E_ISERR :: "int \<Rightarrow> bool" where
  "E_ISERR x = (- 1024 \<le> x \<and> x < 0)"

text \<open>Positions are offsets into the block, so \<open>ib_buffer+ib_size\<close> is \<open>ib_size\<close>.\<close>

definition IOBUFFER_BUFEND :: "iobuffer \<Rightarrow> nat" where
  "IOBUFFER_BUFEND self = ib_size self"

definition IOBUFFER_MAXREAD :: "iobuffer \<Rightarrow> nat \<Rightarrow> nat" where
  "IOBUFFER_MAXREAD self rpos =
     (if rpos < ib_wpos self then ib_wpos self - rpos
      else ib_size self - (rpos - ib_wpos self))"

definition IOBUFFER_MAXWRITE :: "iobuffer \<Rightarrow> nat \<Rightarrow> nat" where
  "IOBUFFER_MAXWRITE self rpos =
     (if rpos \<ge> ib_wpos self then rpos - ib_wpos self
      else ib_size self - (ib_wpos self - rpos))"

definition IOBUFFER_CONSUME_INTR :: "iobuffer \<Rightarrow> bool \<times> iobuffer" where
  "IOBUFFER_CONSUME_INTR self =
     (ib_mode self AND IOBUFFER_INTR_BLOCKFIRST \<noteq> 0,
      self\<lparr>ib_mode := ib_mode self AND NOT IOBUFFER_INTR_BLOCKFIRST\<rparr>)"

definition iobuffer_init_ex :: "nat \<Rightarrow> iobuffer" where
  "iobuffer_init_ex maxsize =
     \<lparr>ib_avail = 0, ib_nfull = 0, ib_rwlock = 0, ib_maxsize = maxsize, ib_size = 0,
      ib_buffer = [], ib_rpos = 0, ib_wpos = 0, ib_mode = 0\<rparr>"

definition iobuffer_set_maxsize :: "iobuffer \<Rightarrow> nat \<Rightarrow> nat \<times> iobuffer" where
  "iobuffer_set_maxsize self value = (ib_maxsize self, self\<lparr>ib_maxsize := value\<rparr>)"

text \<open>Taking and releasing the lock, broadcasting a signal, and access to the block at an offset.\<close>

definition rwlock_enter :: "iobuffer \<Rightarrow> iobuffer" where
  "rwlock_enter self = self\<lparr>ib_rwlock := ib_rwlock self + 1\<rparr>"

definition rwlock_leave :: "iobuffer \<Rightarrow> iobuffer" where
  "rwlock_leave self = self\<lparr>ib_rwlock := ib_rwlock self - 1\<rparr>"

definition broadcast_avail :: "iobuffer \<Rightarrow> iobuffer" where
  "broadcast_avail self = self\<lparr>ib_avail := ib_avail self + 1\<rparr>"

definition broadcast_nfull :: "iobuffer \<Rightarrow> iobuffer" where
  "broadcast_nfull self = self\<lparr>ib_nfull := ib_nfull self + 1\<rparr>"

definition peek :: "byte list \<Rightarrow> nat \<Rightarrow> nat \<Rightarrow> byte list option" where
  "peek buf pos n = (if pos + n \<le> length buf then Some (take n (drop pos buf)) else None)"

definition poke :: "byte list \<Rightarrow> nat \<Rightarrow> byte list \<Rightarrow> byte list option" where
  "poke buf pos bs =
     (if pos + length bs \<le> length buf then Some (take pos buf @ bs @ drop (pos + length bs) buf)
      else None)"

subsection \<open>Discarding, sizes, reserving, interrupting and flushing\<close>

definition iobuffer_discard :: "io_env \<Rightarrow> iobuffer \<Rightarrow> int \<times> iobuffer" where
  "iobuffer_discard env self =
     (let result = env_rwlock env in
      if E_ISERR result then (result, self)
      else let self = rwlock_enter self;
               result = int (IOBUFFER_MAXREAD self (ib_rpos self));
               self = self\<lparr>ib_wpos := 0\<rparr>;
               self = self\<lparr>ib_rpos := ib_size self\<rparr>
           in (result, rwlock_leave self))"

definition iobuffer_get_read_size :: "io_env \<Rightarrow> iobuffer \<Rightarrow> int \<times> iobuffer" where
  "iobuffer_get_read_size env self =
     (let result = env_rwlock env in
      if E_ISERR result then (result, self)
      else let self = rwlock_enter self;
               rpos = ib_rpos self;
               result = int (IOBUFFER_MAXREAD self rpos)
           in (result, rwlock_leave self))"

definition iobuffer_get_write_size :: "io_env \<Rightarrow> iobuffer \<Rightarrow> int \<times> iobuffer" where
  "iobuffer_get_write_size env self =
     (let result = env_rwlock env in
      if E_ISERR result then (result, self)
      else let self = rwlock_enter self;
               rpos = ib_rpos self;
               result = int (IOBUFFER_MAXWRITE self rpos)
           in (result, rwlock_leave self))"

definition iobuffer_reserve :: "io_env \<Rightarrow> iobuffer \<Rightarrow> nat \<Rightarrow> int \<times> iobuffer" where
  "iobuffer_reserve env self write_size =
     (let result = env_rwlock env in
      if E_ISERR result then (result, self)
      else let self = rwlock_enter self;
               new_total_size = add32 (ib_size self) write_size;
               new_total_size = min new_total_size (ib_maxsize self)
           in if new_total_size \<noteq> ib_size self
              then (case env_krealloc env (ib_buffer self) new_total_size of
                      None \<Rightarrow> (0, rwlock_leave self)
                    | Some new_buffer \<Rightarrow>
                        let result = int (sub32 new_total_size (ib_size self));
                            self = self\<lparr>ib_buffer := new_buffer, ib_size := new_total_size\<rparr>
                        in (result, rwlock_leave self))
              else (0, rwlock_leave self))"

definition iobuffer_interrupt :: "io_env \<Rightarrow> iobuffer \<Rightarrow> int \<times> iobuffer" where
  "iobuffer_interrupt env self =
     (let error = env_rwlock env in
      if \<not> E_ISERR error
      then let self = rwlock_enter self;
               self = self\<lparr>ib_mode := ib_mode self OR IOBUFFER_INTR_BLOCKFIRST\<rparr>;
               self = broadcast_avail self
           in (error, rwlock_leave self)
      else (error, self))"

definition iobuffer_flush :: "io_env \<Rightarrow> iobuffer \<Rightarrow> (nat \<times> iobuffer) option" where
  "iobuffer_flush env self =
     (let self = rwlock_enter self;
          newsize = IOBUFFER_MAXREAD self (ib_rpos self)
      in if newsize \<noteq> ib_size self
         then if newsize = 0
              then let self = self\<lparr>ib_buffer := [], ib_rpos := 0, ib_wpos := 0\<rparr>;
                       result = ib_size self - newsize
                   in Some (result, rwlock_leave (self\<lparr>ib_size := newsize\<rparr>))
              else let rindex = ib_rpos self in
                   case env_realloc env (ib_buffer self) newsize of
                     None \<Rightarrow> Some (0, rwlock_leave self)
                   | Some newbuf \<Rightarrow>
                       (case peek newbuf rindex (sub32 newsize rindex) of
                          None \<Rightarrow> None
                        | Some bs \<Rightarrow>
                            (case poke newbuf 0 bs of
                               None \<Rightarrow> None
                             | Some newbuf \<Rightarrow>
                                 let self = self\<lparr>ib_rpos := 0, ib_wpos := newsize,
                                                 ib_buffer := newbuf\<rparr>;
                                     result = ib_size self - newsize
                                 in Some (result, rwlock_leave (self\<lparr>ib_size := newsize\<rparr>))))
         else Some (0, rwlock_leave self))"

subsection \<open>Reading\<close>

datatype read_outcome =
    Read_done int iobuffer "byte list"
  | Read_wait iobuffer "byte list" nat nat

text \<open>
  \<open>copy_out\<close> is \<open>!(mode&IO_SKIP) && copy_to_user(...)\<close>: whether it faulted, and the bytes the user's block has by then.
\<close>

definition copy_out :: "io_env \<Rightarrow> byte \<Rightarrow> iobuffer \<Rightarrow> byte list \<Rightarrow> nat \<Rightarrow> nat
    \<Rightarrow> (bool \<times> byte list) option" where
  "copy_out env mode self out rpos n =
     (if mode AND IO_SKIP \<noteq> 0 then Some (False, out)
      else case peek (ib_buffer self) rpos n of
             None \<Rightarrow> None
           | Some bs \<Rightarrow> (case env_user env (length out) n of
                           None \<Rightarrow> Some (False, out @ bs)
                         | Some k \<Rightarrow> Some (True, out @ take k bs)))"

definition read_end_rpos :: "io_env \<Rightarrow> byte \<Rightarrow> iobuffer \<Rightarrow> nat \<Rightarrow> nat \<Rightarrow> byte list \<Rightarrow> nat
    \<Rightarrow> read_outcome" where
  "read_end_rpos env mode self start_rpos rpos out result =
     (let bufend = IOBUFFER_BUFEND self in
      if mode AND IO_PEEK = 0
      then let buffer_was_full =
                 (start_rpos = ib_wpos self \<or> (start_rpos = 0 \<and> ib_wpos self = bufend))
           in if rpos = ib_wpos self
              then let error = env_upgrade env in
                   if E_ISERR error \<and> error \<noteq> - ERELOAD
                   then Read_done error (rwlock_leave self) out
                   else let self = self\<lparr>ib_wpos := 0, ib_rpos := bufend\<rparr> in
                        if buffer_was_full
                        then Read_done (int result) (rwlock_leave (broadcast_nfull self)) out
                        else Read_done (int result) (rwlock_leave self) out
              else let self = self\<lparr>ib_rpos := rpos\<rparr> in
                   if buffer_was_full
                   then Read_done (int result) (rwlock_leave (broadcast_nfull self)) out
                   else Read_done (int result) (rwlock_leave self) out
      else Read_done (int result) (rwlock_leave self) out)"

definition read_buffer_is_empty :: "io_env \<Rightarrow> byte \<Rightarrow> iobuffer \<Rightarrow> nat \<Rightarrow> nat \<Rightarrow> byte list \<Rightarrow> nat
    \<Rightarrow> nat \<Rightarrow> read_outcome" where
  "read_buffer_is_empty env mode self start_rpos rpos out destsize result =
     (if mode AND IO_BLOCKFIRST \<noteq> 0
      then let wait = (\<lambda>self.
                 let self = rwlock_leave self;
                     (intr, self) = IOBUFFER_CONSUME_INTR self
                 in if intr then Read_done 0 self out
                    else Read_wait self out destsize result)
           in if mode AND (IO_BLOCKFIRST OR IO_BLOCKALL) = IO_BLOCKFIRST
              then if result \<noteq> 0 then read_end_rpos env mode self start_rpos rpos out result
                   else let (intr, self) = IOBUFFER_CONSUME_INTR self
                        in if intr then Read_done 0 (rwlock_leave self) out else wait self
              else wait self
      else read_end_rpos env mode self start_rpos rpos out result)"

definition read_lower :: "io_env \<Rightarrow> byte \<Rightarrow> iobuffer \<Rightarrow> nat \<Rightarrow> byte list \<Rightarrow> nat \<Rightarrow> nat
    \<Rightarrow> read_outcome option" where
  "read_lower env mode self start_rpos out destsize result =
     (let max_read_linear = min (ib_wpos self) destsize in
      case copy_out env mode self out 0 max_read_linear of
        None \<Rightarrow> None
      | Some (True, out) \<Rightarrow> Some (Read_done (- EFAULT) (rwlock_leave self) out)
      | Some (False, out) \<Rightarrow>
          let rpos = max_read_linear;
              result = result + max_read_linear
          in if destsize = max_read_linear
             then Some (read_end_rpos env mode self start_rpos rpos out result)
             else Some (read_buffer_is_empty env mode self start_rpos rpos out
                          (destsize - max_read_linear) result))"

definition read_upper :: "io_env \<Rightarrow> byte \<Rightarrow> iobuffer \<Rightarrow> byte list \<Rightarrow> nat \<Rightarrow> nat
    \<Rightarrow> read_outcome option" where
  "read_upper env mode self out destsize result =
     (let rpos = ib_rpos self;
          start_rpos = rpos;
          bufend = IOBUFFER_BUFEND self;
          max_read = IOBUFFER_MAXREAD self rpos;
          max_read_linear = min max_read (sub32 bufend rpos);
          max_read_linear = min max_read_linear destsize
      in case copy_out env mode self out rpos max_read_linear of
           None \<Rightarrow> None
         | Some (True, out) \<Rightarrow> Some (Read_done (- EFAULT) (rwlock_leave self) out)
         | Some (False, out) \<Rightarrow>
             let rpos = rpos + max_read_linear;
                 result = result + max_read_linear
             in if destsize = max_read_linear \<or>
                   (rpos = ib_wpos self \<and> max_read_linear = max_read)
                then Some (read_end_rpos env mode self start_rpos rpos out result)
                else read_lower env mode self start_rpos out (destsize - max_read_linear) result)"

definition read_again :: "io_env \<Rightarrow> byte \<Rightarrow> iobuffer \<Rightarrow> byte list \<Rightarrow> nat \<Rightarrow> nat
    \<Rightarrow> read_outcome option" where
  "read_again env mode self out destsize result =
     (let error = env_rwlock env in
      if E_ISERR error then Some (Read_done error self out)
      else let self = rwlock_enter self;
               rpos = ib_rpos self
           in if IOBUFFER_MAXREAD self rpos = 0
              then Some (read_buffer_is_empty env mode self rpos rpos out destsize result)
              else if mode AND (IO_BLOCKFIRST OR IO_BLOCKALL) = IO_BLOCKFIRST
              then let (intr, self) = IOBUFFER_CONSUME_INTR self
                   in if intr then Some (Read_done 0 (rwlock_leave self) out)
                      else read_upper env mode self out destsize result
              else read_upper env mode self out destsize result)"

definition iobuffer_read :: "io_env \<Rightarrow> byte \<Rightarrow> iobuffer \<Rightarrow> nat \<Rightarrow> read_outcome option" where
  "iobuffer_read env mode self bufsize = read_again env mode self [] bufsize 0"

subsection \<open>Writing\<close>

datatype write_outcome =
    Write_done int iobuffer
  | Write_wait iobuffer "byte list" nat

datatype write_pass =
    Pass_done write_outcome
  | Pass_full iobuffer "byte list" nat nat

text \<open>
  A pass is the code from the test for room to the next \<open>goto buffer_is_full\<close>. The transfer's offset in the user's block
  is the number of bytes written so far.
\<close>

definition write_end :: "iobuffer \<Rightarrow> nat \<Rightarrow> write_outcome" where
  "write_end self result =
     (let error = int result in
      if result \<noteq> 0
      then let self = (if ib_rpos self = IOBUFFER_BUFEND self then self\<lparr>ib_rpos := 0\<rparr> else self)
           in Write_done error (rwlock_leave (broadcast_avail self))
      else Write_done error (rwlock_leave self))"

definition copy_in :: "io_env \<Rightarrow> iobuffer \<Rightarrow> nat \<Rightarrow> nat \<Rightarrow> byte list
    \<Rightarrow> (bool \<times> iobuffer) option" where
  "copy_in env self pos off bs =
     (case env_user env off (length bs) of
        None \<Rightarrow> (case poke (ib_buffer self) pos bs of
                   None \<Rightarrow> None | Some b \<Rightarrow> Some (False, self\<lparr>ib_buffer := b\<rparr>))
      | Some k \<Rightarrow> (case poke (ib_buffer self) pos (take k bs) of
                     None \<Rightarrow> None | Some b \<Rightarrow> Some (True, self\<lparr>ib_buffer := b\<rparr>)))"

definition write_lower :: "io_env \<Rightarrow> iobuffer \<Rightarrow> byte list \<Rightarrow> nat \<Rightarrow> write_pass option" where
  "write_lower env self buf result =
     (let max_write = ib_rpos self in
      if max_write = 0 \<or> ib_rpos self = IOBUFFER_BUFEND self
      then Some (Pass_full self buf result max_write)
      else let max_write = min max_write (length buf) in
           case copy_in env self 0 result (take max_write buf) of
             None \<Rightarrow> None
           | Some (True, self) \<Rightarrow> Some (Pass_done (Write_done (- EFAULT) (rwlock_leave self)))
           | Some (False, self) \<Rightarrow>
               let self = self\<lparr>ib_wpos := max_write\<rparr>;
                   result = result + max_write
               in if length buf = max_write then Some (Pass_done (write_end self result))
                  else Some (Pass_full self (drop max_write buf) result max_write))"

definition write_upper :: "io_env \<Rightarrow> iobuffer \<Rightarrow> byte list \<Rightarrow> nat \<Rightarrow> write_pass option" where
  "write_upper env self buf result =
     (let bufend = IOBUFFER_BUFEND self;
          max_write = sub32 bufend (ib_wpos self);
          max_write = (if ib_rpos self > ib_wpos self
                       then min max_write (ib_rpos self - ib_wpos self) else max_write);
          max_write = min max_write (length buf)
      in case copy_in env self (ib_wpos self) result (take max_write buf) of
           None \<Rightarrow> None
         | Some (True, self) \<Rightarrow> Some (Pass_done (Write_done (- EFAULT) (rwlock_leave self)))
         | Some (False, self) \<Rightarrow>
             let self = self\<lparr>ib_wpos := ib_wpos self + max_write\<rparr>;
                 result = result + max_write
             in if length buf = max_write then Some (Pass_done (write_end self result))
                else let buf = drop max_write buf in
                     if ib_wpos self \<noteq> bufend then Some (Pass_full self buf result 0)
                     else write_lower env self buf result)"

definition write_room :: "io_env \<Rightarrow> iobuffer \<Rightarrow> byte list \<Rightarrow> nat \<Rightarrow> nat \<Rightarrow> write_pass option" where
  "write_room env self buf result max_write =
     (let bufend = IOBUFFER_BUFEND self in
      if max_write < length buf
      then let new_buffer_size = add32 (ib_size self) (length buf - max_write);
               new_buffer_size = min new_buffer_size (ib_maxsize self)
           in if new_buffer_size \<noteq> ib_size self
              then (case env_krealloc env (ib_buffer self) new_buffer_size of
                      None \<Rightarrow> Some (Pass_done (Write_done (- ENOMEM) (rwlock_leave self)))
                    | Some new_buffer \<Rightarrow>
                        let self = self\<lparr>ib_buffer := new_buffer,
                                        ib_rpos := (if ib_rpos self = bufend \<and> ib_size self \<noteq> 0
                                                    then new_buffer_size else ib_rpos self),
                                        ib_size := new_buffer_size\<rparr>
                        in write_upper env self buf result)
              else if max_write = 0 then Some (Pass_done (write_end self result))
              else write_upper env self buf result
      else write_upper env self buf result)"

datatype full_next = Full_end | Full_wait | Full_go

definition write_buffer_is_full :: "byte \<Rightarrow> iobuffer \<Rightarrow> nat \<Rightarrow> full_next" where
  "write_buffer_is_full mode self result =
     (if mode AND IO_BLOCKFIRST \<noteq> 0 \<and> ib_size self \<ge> ib_maxsize self
      then if result \<noteq> 0 \<and> mode AND (IO_BLOCKFIRST OR IO_BLOCKALL) = IO_BLOCKFIRST
           then Full_end else Full_wait
      else Full_go)"

definition write_wait :: "iobuffer \<Rightarrow> byte list \<Rightarrow> nat \<Rightarrow> write_outcome" where
  "write_wait self buf result =
     (let self = (if result \<noteq> 0 then broadcast_avail self else self)
      in Write_wait (rwlock_leave self) buf result)"

partial_function (option) write_loop :: "io_env \<Rightarrow> byte \<Rightarrow> iobuffer \<Rightarrow> byte list \<Rightarrow> nat \<Rightarrow> nat
    \<Rightarrow> write_outcome option" where
  "write_loop env mode self buf result max_write =
     Option.bind (write_room env self buf result max_write) (\<lambda>p.
       case p of
         Pass_done r \<Rightarrow> Some r
       | Pass_full self buf result max_write \<Rightarrow>
           (case write_buffer_is_full mode self result of
              Full_end \<Rightarrow> Some (write_end self result)
            | Full_wait \<Rightarrow> Some (write_wait self buf result)
            | Full_go \<Rightarrow> write_loop env mode self buf result max_write))"

definition write_again :: "io_env \<Rightarrow> byte \<Rightarrow> iobuffer \<Rightarrow> byte list \<Rightarrow> nat \<Rightarrow> write_outcome option" where
  "write_again env mode self buf result =
     (let error = env_rwlock env in
      if E_ISERR error then Some (Write_done error self)
      else let self = rwlock_enter self;
               max_write = IOBUFFER_MAXWRITE self (ib_rpos self)
           in if max_write = 0
              then (case write_buffer_is_full mode self result of
                      Full_end \<Rightarrow> Some (write_end self result)
                    | Full_wait \<Rightarrow> Some (write_wait self buf result)
                    | Full_go \<Rightarrow> write_loop env mode self buf result max_write)
              else write_loop env mode self buf result max_write)"

definition iobuffer_write :: "io_env \<Rightarrow> byte \<Rightarrow> iobuffer \<Rightarrow> byte list \<Rightarrow> write_outcome option" where
  "iobuffer_write env mode self buf = write_again env mode self buf 0"

subsection \<open>Moving the pointers back\<close>

definition iobuffer_unread :: "io_env \<Rightarrow> iobuffer \<Rightarrow> nat \<Rightarrow> (int \<times> iobuffer) option" where
  "iobuffer_unread env self max_unread =
     (let result = env_rwlock env in
      if E_ISERR result then Some (result, self)
      else let self = rwlock_enter self;
               max_unread = min max_unread (IOBUFFER_MAXWRITE self (ib_rpos self));
               result = int max_unread
           in if result \<noteq> 0
              then if ib_rpos self > ib_wpos self
                   then Some (result, self\<lparr>ib_rpos := ib_rpos self - max_unread\<rparr>)
                   else let partsize = ib_rpos self in
                        if partsize \<le> max_unread
                        then if max_unread \<le> ib_rpos self
                             then Some (result, self\<lparr>ib_rpos := ib_rpos self - max_unread\<rparr>)
                             else None
                        else let max_unread = sub32 max_unread partsize in
                             if max_unread \<le> IOBUFFER_BUFEND self
                             then Some (result, self\<lparr>ib_rpos := IOBUFFER_BUFEND self - max_unread\<rparr>)
                             else None
              else Some (result, self))"

definition iobuffer_unwrite :: "io_env \<Rightarrow> iobuffer \<Rightarrow> nat \<Rightarrow> (int \<times> iobuffer) option" where
  "iobuffer_unwrite env self max_unwrite =
     (let result = env_rwlock env in
      if E_ISERR result then Some (result, self)
      else let self = rwlock_enter self;
               max_readsize = IOBUFFER_MAXREAD self (ib_rpos self);
               max_unwrite = min max_unwrite max_readsize;
               result = int max_unwrite
           in if result \<noteq> 0
              then if max_unwrite = max_readsize
                   then Some (result, rwlock_leave (self\<lparr>ib_wpos := 0, ib_rpos := ib_size self\<rparr>))
                   else if ib_rpos self < ib_wpos self
                   then Some (result, rwlock_leave (self\<lparr>ib_wpos := ib_wpos self - max_unwrite\<rparr>))
                   else let partsize = ib_wpos self in
                        if partsize \<le> max_unwrite
                        then if max_unwrite \<le> ib_wpos self
                             then Some (result, rwlock_leave
                                    (self\<lparr>ib_wpos := ib_wpos self - max_unwrite\<rparr>))
                             else None
                        else let max_unwrite = sub32 max_unwrite partsize in
                             if max_unwrite \<le> IOBUFFER_BUFEND self
                             then Some (result, rwlock_leave
                                    (self\<lparr>ib_wpos := IOBUFFER_BUFEND self - max_unwrite\<rparr>))
                             else None
              else Some (result, rwlock_leave self))"


subsection \<open>The queue a buffer stands for\<close>

definition iob_ok :: "iobuffer \<Rightarrow> bool" where
  "iob_ok self =
     (length (ib_buffer self) = ib_size self \<and> ib_rpos self \<le> ib_size self \<and>
      ib_wpos self \<le> ib_size self \<and> ib_size self \<le> ib_maxsize self \<and> ib_maxsize self < U32)"

definition iob_queue :: "iobuffer \<Rightarrow> byte list" where
  "iob_queue self =
     (if ib_rpos self < ib_wpos self
      then take (ib_wpos self - ib_rpos self) (drop (ib_rpos self) (ib_buffer self))
      else drop (ib_rpos self) (ib_buffer self) @ take (ib_wpos self) (ib_buffer self))"

definition quiet :: "io_env \<Rightarrow> bool" where
  "quiet env = (\<not> E_ISERR (env_rwlock env) \<and> \<not> E_ISERR (env_upgrade env) \<and>
     (\<forall>p n. env_user env p n = None))"

lemmas env_defs = rwlock_enter_def rwlock_leave_def broadcast_avail_def broadcast_nfull_def

lemma iob_length: "iob_ok self \<Longrightarrow> length (iob_queue self) = IOBUFFER_MAXREAD self (ib_rpos self)"
  by (auto simp: iob_ok_def iob_queue_def IOBUFFER_MAXREAD_def)

lemma iob_room:
  "iob_ok self \<Longrightarrow> IOBUFFER_MAXWRITE self (ib_rpos self) = ib_size self - length (iob_queue self)"
  by (auto simp: iob_length) (auto simp: iob_ok_def IOBUFFER_MAXREAD_def IOBUFFER_MAXWRITE_def)

lemma iob_enter [simp]:
  "iob_ok (rwlock_enter self) = iob_ok self" "iob_ok (rwlock_leave self) = iob_ok self"
  "iob_queue (rwlock_enter self) = iob_queue self" "iob_queue (rwlock_leave self) = iob_queue self"
  "iob_ok (broadcast_avail self) = iob_ok self" "iob_ok (broadcast_nfull self) = iob_ok self"
  "iob_queue (broadcast_avail self) = iob_queue self"
  "iob_queue (broadcast_nfull self) = iob_queue self"
  by (simp_all add: env_defs iob_ok_def iob_queue_def)

lemma enter_fields [simp]:
  "ib_rpos (rwlock_enter self) = ib_rpos self" "ib_wpos (rwlock_enter self) = ib_wpos self"
  "ib_size (rwlock_enter self) = ib_size self" "ib_buffer (rwlock_enter self) = ib_buffer self"
  "ib_maxsize (rwlock_enter self) = ib_maxsize self" "ib_mode (rwlock_enter self) = ib_mode self"
  "IOBUFFER_MAXREAD (rwlock_enter self) r = IOBUFFER_MAXREAD self r"
  "IOBUFFER_MAXWRITE (rwlock_enter self) r = IOBUFFER_MAXWRITE self r"
  "IOBUFFER_BUFEND (rwlock_enter self) = ib_size self"
  "(rwlock_enter self)\<lparr>ib_buffer := b\<rparr> = rwlock_enter (self\<lparr>ib_buffer := b\<rparr>)"
  "(rwlock_enter self)\<lparr>ib_wpos := p\<rparr> = rwlock_enter (self\<lparr>ib_wpos := p\<rparr>)"
  "(rwlock_enter self)\<lparr>ib_rpos := p\<rparr> = rwlock_enter (self\<lparr>ib_rpos := p\<rparr>)"
  "(rwlock_enter self)\<lparr>ib_size := p\<rparr> = rwlock_enter (self\<lparr>ib_size := p\<rparr>)"
  "(rwlock_enter self)\<lparr>ib_mode := m\<rparr> = rwlock_enter (self\<lparr>ib_mode := m\<rparr>)"
  by (simp_all add: rwlock_enter_def IOBUFFER_MAXREAD_def IOBUFFER_MAXWRITE_def IOBUFFER_BUFEND_def)

text \<open>What an operation leaves alone: the capacity, the configuration and the lock.\<close>

definition iob_kept :: "iobuffer \<Rightarrow> iobuffer \<Rightarrow> bool" where
  "iob_kept self self' =
     (ib_size self' = ib_size self \<and> ib_maxsize self' = ib_maxsize self \<and>
      ib_mode self' = ib_mode self \<and> ib_rwlock self' = ib_rwlock self)"

lemma read_end_rpos_done:
  assumes "iob_ok self" "rpos \<le> ib_size self" "quiet env" "mode AND IO_PEEK = 0"
  shows "\<exists>self'. read_end_rpos env mode (rwlock_enter self) s rpos out res
      = Read_done (int res) self' out \<and> iob_ok self' \<and> iob_kept self self' \<and>
      iob_queue self' = (if rpos = ib_wpos self then [] else iob_queue (self\<lparr>ib_rpos := rpos\<rparr>))"
  using assms
  by (auto simp: read_end_rpos_def Let_def quiet_def IOBUFFER_BUFEND_def env_defs iob_ok_def
      iob_queue_def iob_kept_def)

lemma copy_out_quiet:
  "quiet env \<Longrightarrow> mode AND IO_SKIP = 0 \<Longrightarrow> pos + n \<le> length (ib_buffer self) \<Longrightarrow>
   copy_out env mode self out pos n = Some (False, out @ take n (drop pos (ib_buffer self)))"
  by (simp add: copy_out_def quiet_def peek_def)

lemma read_lower_done:
  assumes ok: "iob_ok self" and env: "quiet env" "mode AND IO_PEEK = 0" "mode AND IO_SKIP = 0"
    and wait: "mode AND IO_BLOCKFIRST = 0 \<or> mode AND (IO_BLOCKFIRST OR IO_BLOCKALL) = IO_BLOCKFIRST
      \<or> n \<le> ib_wpos self"
    and some: "0 < res + ib_wpos self" "0 < n"
  shows "\<exists>self'. read_lower env mode (rwlock_enter self) s out n res
      = Some (Read_done (int (res + min n (ib_wpos self))) self'
          (out @ take n (take (ib_wpos self) (ib_buffer self)))) \<and>
      iob_ok self' \<and> iob_kept self self' \<and>
      iob_queue self' = drop n (take (ib_wpos self) (ib_buffer self))"
proof -
  let ?m = "min (ib_wpos self) n"
  have m: "?m \<le> ib_size self" using ok by (auto simp: iob_ok_def)
  have c: "copy_out env mode (rwlock_enter self) out 0 ?m
      = Some (False, out @ take n (take (ib_wpos self) (ib_buffer self)))"
    using copy_out_quiet [OF env(1) env(3), of 0 ?m "rwlock_enter self" out] ok m
    by (simp add: iob_ok_def min.commute)
  obtain self' where e: "read_end_rpos env mode (rwlock_enter self) s ?m
        (out @ take n (take (ib_wpos self) (ib_buffer self))) (res + ?m)
      = Read_done (int (res + ?m)) self' (out @ take n (take (ib_wpos self) (ib_buffer self)))"
    and ok': "iob_ok self'" "iob_kept self self'"
    and q: "iob_queue self' = (if ?m = ib_wpos self then [] else iob_queue (self\<lparr>ib_rpos := ?m\<rparr>))"
    using read_end_rpos_done [OF ok m env(1,2)] by blast
  have q': "iob_queue self' = drop n (take (ib_wpos self) (ib_buffer self))"
    unfolding q using ok by (auto simp: iob_queue_def iob_ok_def min_def drop_take)
  have s: "0 < res + ?m" using some by auto
  show ?thesis
    using c e ok' q' s wait
    by (auto simp: read_lower_def Let_def read_buffer_is_empty_def min.commute)
qed


lemma iob_cases [consumes 1, case_names linear wrapped]:
  assumes "iob_ok self"
  obtains "ib_rpos self < ib_wpos self" "ib_wpos self \<le> ib_size self"
      "iob_queue self = take (ib_wpos self - ib_rpos self) (drop (ib_rpos self) (ib_buffer self))"
      "IOBUFFER_MAXREAD self (ib_rpos self) = ib_wpos self - ib_rpos self"
  | "ib_wpos self \<le> ib_rpos self" "ib_rpos self \<le> ib_size self"
      "iob_queue self = drop (ib_rpos self) (ib_buffer self) @ take (ib_wpos self) (ib_buffer self)"
      "IOBUFFER_MAXREAD self (ib_rpos self) = ib_size self - ib_rpos self + ib_wpos self"
  using assms
  by (cases "ib_rpos self < ib_wpos self")
    (auto simp: iob_ok_def iob_queue_def IOBUFFER_MAXREAD_def)

lemma read_upper_done:
  assumes ok: "iob_ok self" and env: "quiet env" "mode AND IO_PEEK = 0" "mode AND IO_SKIP = 0"
    and wait: "mode AND IO_BLOCKFIRST = 0 \<or> mode AND (IO_BLOCKFIRST OR IO_BLOCKALL) = IO_BLOCKFIRST
      \<or> n \<le> length (iob_queue self)"
    and some: "iob_queue self \<noteq> []" "0 < n"
  shows "\<exists>self'. read_upper env mode (rwlock_enter self) [] n 0
      = Some (Read_done (int (min n (length (iob_queue self)))) self' (take n (iob_queue self))) \<and>
      iob_ok self' \<and> iob_kept self self' \<and> iob_queue self' = drop n (iob_queue self)"
proof -
  let ?r = "ib_rpos self" and ?w = "ib_wpos self" and ?b = "ib_buffer self" and ?z = "ib_size self"
  have b: "length ?b = ?z" "?r \<le> ?z" "?w \<le> ?z" "?z < U32" using ok by (auto simp: iob_ok_def)
  have s: "sub32 ?z ?r = ?z - ?r" using b by (simp add: sub32_id)
  let ?m = "min (min (IOBUFFER_MAXREAD self ?r) (?z - ?r)) n"
  have c: "copy_out env mode (rwlock_enter self) [] ?r ?m = Some (False, take ?m (drop ?r ?b))"
    using copy_out_quiet [OF env(1) env(3), of ?r ?m "rwlock_enter self" "[]"] b by simp
  have up: "read_upper env mode (rwlock_enter self) [] n 0 =
      (if n = ?m \<or> (?r + ?m = ?w \<and> ?m = IOBUFFER_MAXREAD self ?r)
       then Some (read_end_rpos env mode (rwlock_enter self) ?r (?r + ?m) (take ?m (drop ?r ?b)) ?m)
       else read_lower env mode (rwlock_enter self) ?r (take ?m (drop ?r ?b)) (n - ?m) ?m)"
    using c by (simp add: read_upper_def Let_def s)
  have m: "?r + ?m \<le> ?z" using b by auto
  note fin = read_end_rpos_done [OF ok m env(1,2), of ?r "take ?m (drop ?r ?b)" ?m]
  from ok show ?thesis
  proof (cases rule: iob_cases)
    case linear
    then have mm: "?m = min n (?w - ?r)" by auto
    have e: "n = ?m \<or> (?r + ?m = ?w \<and> ?m = IOBUFFER_MAXREAD self ?r)"
      using linear by auto
    have q: "(if ?r + ?m = ?w then [] else iob_queue (self\<lparr>ib_rpos := ?r + ?m\<rparr>))
        = drop n (iob_queue self)"
      using linear b by (auto simp: iob_queue_def min_def drop_take add.commute)
    have t: "take ?m (drop ?r ?b) = take n (iob_queue self)"
      unfolding linear(3) take_take mm by simp
    have l: "?m = min n (length (iob_queue self))" using linear iob_length [OF ok] by simp
    show ?thesis using fin unfolding up if_P [OF e] q t by (simp only: l) simp
  next
    case wrapped
    show ?thesis
    proof (cases "n \<le> ?z - ?r")
      case True
      then have mm: "?m = n" using wrapped by auto
      have q: "(if ?r + n = ?w then [] else iob_queue (self\<lparr>ib_rpos := ?r + n\<rparr>))
          = drop n (iob_queue self)"
        using wrapped b True some(2) by (auto simp: iob_queue_def add.commute)
      have t: "take n (drop ?r ?b) = take n (iob_queue self)" using wrapped b True by simp
      have l: "n = min n (length (iob_queue self))" using wrapped iob_length [OF ok] True by simp
      show ?thesis using fin unfolding up mm using q t l by simp
    next
      case False
      then have mm: "?m = ?z - ?r" using wrapped by auto
      have ne: "\<not> (n = ?m \<or> (?r + ?m = ?w \<and> ?m = IOBUFFER_MAXREAD self ?r))"
        using False wrapped b some by (auto simp: mm)
      have ex: "\<exists>self'. read_lower env mode (rwlock_enter self) ?r (drop ?r ?b) (n - (?z - ?r)) (?z - ?r)
          = Some (Read_done (int (?z - ?r + min (n - (?z - ?r)) ?w)) self'
              (drop ?r ?b @ take (n - (?z - ?r)) (take ?w ?b))) \<and>
          iob_ok self' \<and> iob_kept self self' \<and> iob_queue self' = drop (n - (?z - ?r)) (take ?w ?b)"
        by (rule read_lower_done [OF ok env])
          (use wait wrapped False b some iob_length [OF ok] in auto)
      have l: "min n (length (iob_queue self)) = ?z - ?r + min (n - (?z - ?r)) ?w"
        unfolding iob_length [OF ok] wrapped(4) using wrapped(1,2) False by (auto simp: min_def)
      show ?thesis unfolding up if_not_P [OF ne] l using ex wrapped False b
        by (simp add: mm del: of_nat_add)
    qed
  qed
qed


lemma iobuffer_read_some:
  assumes ok: "iob_ok self" and env: "quiet env" "mode AND IO_PEEK = 0" "mode AND IO_SKIP = 0"
    and wait: "mode AND IO_BLOCKFIRST = 0 \<or> mode AND (IO_BLOCKFIRST OR IO_BLOCKALL) = IO_BLOCKFIRST
      \<or> n \<le> length (iob_queue self)"
    and intr: "ib_mode self AND IOBUFFER_INTR_BLOCKFIRST = 0"
    and some: "iob_queue self \<noteq> []" "0 < n"
  shows "\<exists>self'. iobuffer_read env mode self n
      = Some (Read_done (int (min n (length (iob_queue self)))) self' (take n (iob_queue self))) \<and>
      iob_ok self' \<and> iob_kept self self' \<and> iob_queue self' = drop n (iob_queue self)"
proof -
  have ne: "IOBUFFER_MAXREAD self (ib_rpos self) \<noteq> 0"
    using iob_length [OF ok] some(1) by (metis length_0_conv)
  have i: "ib_mode self AND NOT IOBUFFER_INTR_BLOCKFIRST = ib_mode self"
    using intr by (auto simp: IOBUFFER_INTR_BLOCKFIRST_def bit_eq_iff bit_simps)
  have u: "(rwlock_enter self)\<lparr>ib_mode := ib_mode self\<rparr> = rwlock_enter self"
    by (simp add: rwlock_enter_def)
  have "iobuffer_read env mode self n = read_upper env mode (rwlock_enter self) [] n 0"
    using env(1) ne intr
    by (simp add: iobuffer_read_def read_again_def Let_def quiet_def IOBUFFER_CONSUME_INTR_def i u)
  then show ?thesis using read_upper_done [OF ok env wait some] by simp
qed

lemma iobuffer_read_none:
  assumes ok: "iob_ok self" and env: "quiet env" "mode AND IO_PEEK = 0"
    and nowait: "mode AND IO_BLOCKFIRST = 0" and empty: "iob_queue self = []"
  shows "\<exists>self'. iobuffer_read env mode self n = Some (Read_done 0 self' []) \<and>
      iob_ok self' \<and> iob_kept self self' \<and> iob_queue self' = []"
proof -
  have z: "IOBUFFER_MAXREAD self (ib_rpos self) = 0" using iob_length [OF ok] empty by simp
  have r: "ib_rpos self \<le> ib_size self" using ok by (simp add: iob_ok_def)
  have "iobuffer_read env mode self n
      = Some (read_end_rpos env mode (rwlock_enter self) (ib_rpos self) (ib_rpos self) [] 0)"
    using env(1) nowait z
    by (simp add: iobuffer_read_def read_again_def Let_def quiet_def read_buffer_is_empty_def)
  moreover have "iob_queue (self\<lparr>ib_rpos := ib_rpos self\<rparr>) = []" using empty by simp
  ultimately show ?thesis
    using read_end_rpos_done [OF ok r env, of "ib_rpos self" "[]" 0] by auto
qed

subsection \<open>Writing appends\<close>

lemma copy_in_quiet:
  "quiet env \<Longrightarrow> pos + length bs \<le> length (ib_buffer self) \<Longrightarrow>
   copy_in env self pos off bs = Some (False, self\<lparr>ib_buffer :=
     take pos (ib_buffer self) @ bs @ drop (pos + length bs) (ib_buffer self)\<rparr>)"
  by (simp add: copy_in_def quiet_def poke_def)

lemma write_end_done:
  assumes "iob_ok self" "0 < res" "0 < ib_wpos self"
  shows "\<exists>self'. write_end (rwlock_enter self) res = Write_done (int res) self' \<and> iob_ok self' \<and>
      iob_kept self self' \<and> iob_queue self' =
        (if ib_rpos self = ib_size self then take (ib_wpos self) (ib_buffer self)
         else iob_queue self)"
  using assms
  by (auto simp: write_end_def Let_def IOBUFFER_BUFEND_def env_defs iob_ok_def iob_kept_def
      iob_queue_def)

definition iob_put :: "iobuffer \<Rightarrow> nat \<Rightarrow> byte list \<Rightarrow> iobuffer" where
  "iob_put self pos d = self\<lparr>ib_buffer :=
     take pos (ib_buffer self) @ d @ drop (pos + length d) (ib_buffer self),
     ib_wpos := pos + length d\<rparr>"

lemma iob_put_ok:
  "iob_ok self \<Longrightarrow> pos + length d \<le> ib_size self \<Longrightarrow> iob_ok (iob_put self pos d)"
  by (simp add: iob_put_def iob_ok_def)

lemma iob_put_fields [simp]:
  "ib_rpos (iob_put self pos d) = ib_rpos self" "ib_size (iob_put self pos d) = ib_size self"
  "ib_wpos (iob_put self pos d) = pos + length d" "iob_kept self (iob_put self pos d)"
  by (simp_all add: iob_put_def iob_kept_def)

lemma iob_put_prefix:
  "iob_ok self \<Longrightarrow> pos + length d \<le> ib_size self \<Longrightarrow>
   take (pos + length d) (ib_buffer (iob_put self pos d)) = take pos (ib_buffer self) @ d"
  by (simp add: iob_put_def iob_ok_def)

lemma iob_kept_trans: "iob_kept a b \<Longrightarrow> iob_kept b c \<Longrightarrow> iob_kept a c"
  by (simp add: iob_kept_def)

lemma write_end_put:
  assumes ok: "iob_ok self" and d: "0 < length d" "0 < res" and f: "pos + length d \<le> ib_size self"
  shows "\<exists>self'. write_end (rwlock_enter (iob_put self pos d)) res = Write_done (int res) self' \<and>
      iob_ok self' \<and> iob_kept self self' \<and> iob_queue self' =
        (if ib_rpos self = ib_size self then take pos (ib_buffer self) @ d
         else iob_queue (iob_put self pos d))"
  using write_end_done [OF iob_put_ok [OF ok f], of res] d iob_kept_trans [of self "iob_put self pos d"]
  by (auto simp: iob_put_prefix [OF ok f])

lemma write_upper_quiet:
  assumes ok: "iob_ok self" and env: "quiet env"
    and m: "m = min (if ib_rpos self > ib_wpos self
        then ib_rpos self - ib_wpos self else ib_size self - ib_wpos self) (length d)"
  shows "write_upper env (rwlock_enter self) d res =
     (let self = iob_put self (ib_wpos self) (take m d) in
      if length d = m then Some (Pass_done (write_end (rwlock_enter self) (res + m)))
      else if ib_wpos self \<noteq> ib_size self
      then Some (Pass_full (rwlock_enter self) (drop m d) (res + m) 0)
      else write_lower env (rwlock_enter self) (drop m d) (res + m))"
proof -
  have b: "ib_rpos self \<le> ib_size self" "ib_wpos self \<le> ib_size self" "ib_size self < U32"
    "length (ib_buffer self) = ib_size self" using ok by (auto simp: iob_ok_def)
  have l: "length (take m d) = m" using m by auto
  have f: "ib_wpos self + m \<le> ib_size self" using m b by (auto split: if_splits)
  have c: "copy_in env (rwlock_enter self) (ib_wpos self) res (take m d) = Some (False,
      rwlock_enter (self\<lparr>ib_buffer := take (ib_wpos self) (ib_buffer self) @ take m d @
        drop (ib_wpos self + m) (ib_buffer self)\<rparr>))"
    using copy_in_quiet [OF env, of "ib_wpos self" "take m d" "rwlock_enter self" res] f b l by simp
  have mm: "min (if ib_rpos self > ib_wpos self
       then min (sub32 (ib_size self) (ib_wpos self)) (ib_rpos self - ib_wpos self)
       else sub32 (ib_size self) (ib_wpos self)) (length d) = m"
    using b m by (auto simp: sub32_id min_def)
  show ?thesis
    unfolding write_upper_def Let_def enter_fields mm c
    using l by (simp add: iob_put_def)
qed

lemma write_lower_quiet:
  assumes ok: "iob_ok self" and env: "quiet env"
    and r: "0 < ib_rpos self" "ib_rpos self < ib_size self" "length d \<le> ib_rpos self"
  shows "write_lower env (rwlock_enter self) d res =
     Some (Pass_done (write_end (rwlock_enter (iob_put self 0 d)) (res + length d)))"
proof -
  have b: "length (ib_buffer self) = ib_size self" using ok by (auto simp: iob_ok_def)
  have "copy_in env (rwlock_enter self) 0 res d = Some (False,
      rwlock_enter (self\<lparr>ib_buffer := d @ drop (length d) (ib_buffer self)\<rparr>))"
    using copy_in_quiet [OF env, of 0 d "rwlock_enter self" res] r b by simp
  then show ?thesis using r by (simp add: write_lower_def Let_def iob_put_def)
qed

lemma write_upper_linear:
  assumes ok: "iob_ok self" and env: "quiet env"
    and lin: "ib_rpos self < ib_wpos self" and d: "0 < length d"
    and fit: "length d \<le> ib_size self - (ib_wpos self - ib_rpos self)"
  shows "\<exists>self'. write_upper env (rwlock_enter self) d 0
      = Some (Pass_done (Write_done (int (length d)) self')) \<and> iob_ok self' \<and> iob_kept self self' \<and>
      iob_queue self' = iob_queue self @ d"
proof (cases "length d \<le> ib_size self - ib_wpos self")
  have b: "ib_rpos self < ib_size self" "ib_wpos self \<le> ib_size self"
    "length (ib_buffer self) = ib_size self" using ok lin by (auto simp: iob_ok_def)
  {
    case True
    then have f: "ib_wpos self + length d \<le> ib_size self" using b by simp
    have q: "iob_queue (iob_put self (ib_wpos self) d) = iob_queue self @ d"
      using lin b f by (simp add: iob_queue_def iob_put_def drop_take)
    show ?thesis
      using write_end_put [OF ok d d f] write_upper_quiet [OF ok env, of "length d" d 0] lin b True
      by (auto simp: Let_def q)
  }
  case False
  let ?m = "ib_size self - ib_wpos self"
  let ?s = "iob_put self (ib_wpos self) (take ?m d)"
  have l: "length (take ?m d) = ?m" using False by simp
  have ok': "iob_ok ?s" by (rule iob_put_ok [OF ok]) (use b l in simp)
  have rest: "length (drop ?m d) \<le> ib_rpos self" "0 < length (drop ?m d)" "0 < ib_rpos self"
    using False fit b lin by auto
  have u: "write_upper env (rwlock_enter self) d 0 = Some (Pass_done (write_end
      (rwlock_enter (iob_put ?s 0 (drop ?m d))) (length d)))"
    using write_upper_quiet [OF ok env, of ?m d 0] lin b False rest
      write_lower_quiet [OF ok' env, of "drop ?m d" ?m] l
    by (simp add: Let_def)
  have f: "0 + length (drop ?m d) \<le> ib_size ?s" using rest b by simp
  have q: "iob_queue (iob_put ?s 0 (drop ?m d)) = iob_queue self @ d"
    using lin b rest l by (simp add: iob_queue_def iob_put_def drop_take)
  show ?thesis
    using write_end_put [OF ok' rest(2) d f] b iob_kept_trans [of self ?s]
    unfolding u by (auto simp: q)
qed


lemma write_upper_wrapped:
  assumes ok: "iob_ok self" and env: "quiet env"
    and lin: "ib_wpos self \<le> ib_rpos self" and d: "0 < length d"
    and fit: "length d \<le> ib_rpos self - ib_wpos self"
  shows "\<exists>self'. write_upper env (rwlock_enter self) d 0
      = Some (Pass_done (Write_done (int (length d)) self')) \<and> iob_ok self' \<and> iob_kept self self' \<and>
      iob_queue self' = iob_queue self @ d"
proof -
  have b: "ib_rpos self \<le> ib_size self" "length (ib_buffer self) = ib_size self"
    using ok by (auto simp: iob_ok_def)
  have f: "ib_wpos self + length d \<le> ib_size self" using b fit lin d by linarith
  have m: "length d = min (if ib_rpos self > ib_wpos self
        then ib_rpos self - ib_wpos self else ib_size self - ib_wpos self) (length d)"
    using fit d by auto
  have q: "(if ib_rpos self = ib_size self then take (ib_wpos self) (ib_buffer self) @ d
       else iob_queue (iob_put self (ib_wpos self) d)) = iob_queue self @ d"
    using lin b f fit d by (simp add: iob_queue_def iob_put_def)
  show ?thesis
    using write_end_put [OF ok d d f] write_upper_quiet [OF ok env m, of 0]
    unfolding q by (auto simp: Let_def)
qed

lemma iobuffer_write_fits:
  assumes ok: "iob_ok self" and env: "quiet env" and d: "d \<noteq> []"
    and fit: "length (iob_queue self) + length d \<le> ib_size self"
  shows "\<exists>self'. iobuffer_write env mode self d = Some (Write_done (int (length d)) self') \<and>
      iob_ok self' \<and> iob_kept self self' \<and> iob_queue self' = iob_queue self @ d"
proof -
  let ?m = "IOBUFFER_MAXWRITE self (ib_rpos self)"
  have m: "length d \<le> ?m" "0 < ?m" "0 < length d"
    using iob_room [OF ok] fit d by (cases d; simp)+
  have "\<exists>self'. write_upper env (rwlock_enter self) d 0
      = Some (Pass_done (Write_done (int (length d)) self')) \<and> iob_ok self' \<and> iob_kept self self' \<and>
      iob_queue self' = iob_queue self @ d"
    using write_upper_linear [OF ok env _ m(3)] write_upper_wrapped [OF ok env _ m(3)] m(1)
    by (cases "ib_rpos self < ib_wpos self") (auto simp: IOBUFFER_MAXWRITE_def)
  moreover have "write_room env (rwlock_enter self) d 0 ?m = write_upper env (rwlock_enter self) d 0"
    using m by (simp add: write_room_def Let_def)
  ultimately show ?thesis
    using env m by (auto simp: iobuffer_write_def write_again_def Let_def quiet_def write_loop.simps)
qed

subsection \<open>Growing\<close>

definition keeps_prefix :: "(byte list \<Rightarrow> nat \<Rightarrow> byte list option) \<Rightarrow> bool" where
  "keeps_prefix re = (\<forall>b n. \<exists>b'. re b n = Some b' \<and> length b' = n \<and>
     take (min n (length b)) b' = take (min n (length b)) b)"

lemma grown_write_upper:
  assumes ok: "iob_ok self" and env: "quiet env" and d: "d \<noteq> []"
    and safe: "ib_rpos self < ib_wpos self \<or> ib_rpos self = ib_size self"
    and more: "ib_size self < length (iob_queue self) + length d"
    and fit: "length (iob_queue self) + length d \<le> ib_maxsize self"
    and b': "length b' = length (iob_queue self) + length d" "take (ib_size self) b' = ib_buffer self"
  shows "let n = length (iob_queue self) + length d;
             s = self\<lparr>ib_buffer := b', ib_rpos := (if ib_rpos self = ib_size self \<and> ib_size self \<noteq> 0
                then n else ib_rpos self), ib_size := n\<rparr>
         in \<exists>self'. write_upper env (rwlock_enter s) d 0
      = Some (Pass_done (Write_done (int (length d)) self')) \<and> iob_ok self' \<and> iob_kept s self' \<and>
      iob_queue self' = iob_queue self @ d"
proof -
  define n where "n = length (iob_queue self) + length d"
  have dl: "0 < length d" using d by simp
  have b: "length (ib_buffer self) = ib_size self" "ib_wpos self \<le> ib_size self"
    using ok by (auto simp: iob_ok_def)
  have pre: "take k (ib_buffer self) = take k b'" if "k \<le> ib_size self" for k
    using that by (simp flip: b'(2) add: min_def)
  consider (linear) "ib_rpos self < ib_wpos self" | (fresh) "ib_size self = 0"
    | (ended) "ib_rpos self = ib_size self" "ib_wpos self \<le> ib_rpos self" "ib_size self \<noteq> 0"
    using safe b by linarith
  then show ?thesis
  proof cases
    case linear
    let ?s = "self\<lparr>ib_buffer := b', ib_size := n\<rparr>"
    have ok': "iob_ok ?s" using ok more fit b' by (auto simp: iob_ok_def n_def)
    have q: "iob_queue ?s = iob_queue self"
      using linear b pre [of "ib_wpos self"] by (simp add: iob_queue_def flip: drop_take)
    have l: "length (iob_queue self) = ib_wpos self - ib_rpos self"
      using linear b by (simp add: iob_queue_def)
    have "length d \<le> n - (ib_wpos self - ib_rpos self)" by (simp add: n_def l)
    then show ?thesis
      using write_upper_linear [OF ok' env _ dl] linear b by (auto simp: Let_def q simp flip: n_def)
  next
    case fresh
    let ?s = "self\<lparr>ib_buffer := b', ib_rpos := 0, ib_size := n\<rparr>"
    have z: "iob_queue self = []" "ib_rpos self = 0" "ib_wpos self = 0"
      using fresh b ok by (auto simp: iob_queue_def iob_ok_def)
    have ok': "iob_ok ?s" using ok more fit b' by (auto simp: iob_ok_def n_def)
    have nd: "n = length d" by (simp add: n_def z)
    have f: "0 + length d \<le> ib_size ?s" by (simp add: n_def z)
    have q: "iob_queue (iob_put ?s 0 d) = d" using z b' dl by (simp add: iob_queue_def iob_put_def)
    show ?thesis
      using write_upper_quiet [OF ok' env, of "length d" d 0] write_end_put [OF ok' dl dl f] fresh z d
      by (auto simp: Let_def q [unfolded nd] nd simp flip: n_def)
  next
    case ended
    let ?s = "self\<lparr>ib_buffer := b', ib_rpos := n, ib_size := n\<rparr>"
    have ok': "iob_ok ?s" using ok more fit b' by (auto simp: iob_ok_def n_def)
    have q: "iob_queue self = take (ib_wpos self) (ib_buffer self)"
      using ended b by (simp add: iob_queue_def)
    have q': "iob_queue ?s = iob_queue self"
      unfolding q using ended b b' more pre [of "ib_wpos self"] by (simp add: iob_queue_def n_def)
    have l: "length (iob_queue self) = ib_wpos self" using q b by simp
    have "length d \<le> n - ib_wpos self" "ib_wpos self \<le> n" by (simp_all add: n_def l)
    then show ?thesis
      using write_upper_wrapped [OF ok' env _ dl] ended b by (auto simp: Let_def q' simp flip: n_def)
  qed
qed

lemma iobuffer_write_grows:
  assumes ok: "iob_ok self" and env: "quiet env" "keeps_prefix (env_krealloc env)"
    and d: "d \<noteq> []"
    and safe: "ib_rpos self < ib_wpos self \<or> ib_rpos self = ib_size self"
    and more: "ib_size self < length (iob_queue self) + length d"
    and fit: "length (iob_queue self) + length d \<le> ib_maxsize self"
  shows "\<exists>self'. iobuffer_write env mode self d = Some (Write_done (int (length d)) self') \<and>
      iob_ok self' \<and> ib_size self' = length (iob_queue self) + length d \<and>
      iob_queue self' = iob_queue self @ d"
proof -
  let ?m = "IOBUFFER_MAXWRITE self (ib_rpos self)" and ?q = "length (iob_queue self)"
  let ?n = "?q + length d"
  have b: "ib_size self < U32" "length (ib_buffer self) = ib_size self" "ib_wpos self \<le> ib_size self"
    "ib_maxsize self < U32" "ib_rpos self \<le> ib_size self"
    using ok by (auto simp: iob_ok_def)
  have q: "?q \<le> ib_size self" using iob_length [OF ok] b
    by (auto simp: IOBUFFER_MAXREAD_def)
  have m: "?m = ib_size self - ?q" by (rule iob_room [OF ok])
  have n: "min (add32 (ib_size self) (length d - ?m)) (ib_maxsize self) = ?n" "?m < length d"
    using fit more q b by (auto simp: add32_id m)
  obtain b' where re: "env_krealloc env (ib_buffer self) ?n = Some b'" "length b' = ?n"
    and pre: "take (ib_size self) b' = ib_buffer self"
    using env(2) more b unfolding keeps_prefix_def by (metis min.strict_order_iff min.commute order.refl take_all)
  let ?r = "if ib_rpos self = ib_size self \<and> ib_size self \<noteq> 0 then ?n else ib_rpos self"
  let ?s = "self\<lparr>ib_buffer := b', ib_rpos := ?r, ib_size := ?n\<rparr>"
  have room: "write_room env (rwlock_enter self) d 0 ?m = write_upper env (rwlock_enter ?s) d 0"
    unfolding write_room_def Let_def enter_fields n(1) using n(2) more by (simp add: re(1))
  have "\<exists>self'. write_upper env (rwlock_enter ?s) d 0
      = Some (Pass_done (Write_done (int (length d)) self')) \<and> iob_ok self' \<and> iob_kept ?s self' \<and>
      iob_queue self' = iob_queue self @ d"
    using grown_write_upper [OF ok env(1) d safe more fit re(2) pre] by (simp only: Let_def)
  moreover have "write_buffer_is_full mode (rwlock_enter self) 0 = Full_go"
    using fit more by (simp add: write_buffer_is_full_def)
  ultimately show ?thesis
    using env room
    by (auto simp: iobuffer_write_def write_again_def Let_def quiet_def write_loop.simps iob_kept_def
        split: if_splits)
qed

subsection \<open>Every operation keeps the pointers inside the buffer\<close>

definition sized :: "(byte list \<Rightarrow> nat \<Rightarrow> byte list option) \<Rightarrow> bool" where
  "sized re = (\<forall>b n b'. re b n = Some b' \<longrightarrow> length b' = n)"

fun read_buf :: "read_outcome \<Rightarrow> iobuffer" where
  "read_buf (Read_done _ self _) = self"
| "read_buf (Read_wait self _ _ _) = self"

fun write_buf :: "write_outcome \<Rightarrow> iobuffer" where
  "write_buf (Write_done _ self) = self"
| "write_buf (Write_wait self _ _) = self"

fun pass_ok :: "nat \<Rightarrow> write_pass \<Rightarrow> bool" where
  "pass_ok n (Pass_done r) = iob_ok (write_buf r)"
| "pass_ok n (Pass_full self buf _ _) = (iob_ok self \<and> ib_maxsize self + length buf < n)"

lemma set_mode_ok [simp]: "iob_ok (self\<lparr>ib_mode := m\<rparr>) = iob_ok self"
  by (simp add: iob_ok_def)

lemma read_end_rpos_ok:
  assumes "iob_ok self" "rpos \<le> ib_size self"
  shows "iob_ok (read_buf (read_end_rpos env mode self s rpos out res))"
proof -
  have "iob_ok (self\<lparr>ib_wpos := 0, ib_rpos := ib_size self\<rparr>)" "iob_ok (self\<lparr>ib_rpos := rpos\<rparr>)"
    using assms by (simp_all add: iob_ok_def)
  then show ?thesis
    using assms by (simp add: read_end_rpos_def Let_def IOBUFFER_BUFEND_def)
qed

lemma read_buffer_is_empty_ok:
  assumes "iob_ok self" "rpos \<le> ib_size self"
  shows "iob_ok (read_buf (read_buffer_is_empty env mode self s rpos out n res))"
  using read_end_rpos_ok [OF assms] assms
  by (simp add: read_buffer_is_empty_def Let_def IOBUFFER_CONSUME_INTR_def)

lemma read_lower_ok:
  assumes "iob_ok self" "read_lower env mode self s out n res = Some r"
  shows "iob_ok (read_buf r)"
proof -
  have w: "min (ib_wpos self) n \<le> ib_size self" using assms(1) by (auto simp: iob_ok_def)
  show ?thesis
    using assms read_end_rpos_ok [OF assms(1) w] read_buffer_is_empty_ok [OF assms(1) w]
    by (auto simp: read_lower_def Let_def split: option.splits bool.splits if_splits)
qed

lemma read_upper_ok:
  assumes "iob_ok self" "read_upper env mode self out n res = Some r"
  shows "iob_ok (read_buf r)"
proof -
  define m where "m = min (min (IOBUFFER_MAXREAD self (ib_rpos self))
    (sub32 (ib_size self) (ib_rpos self))) n"
  have r: "ib_rpos self + m \<le> ib_size self"
    using assms(1) by (auto simp: iob_ok_def sub32_id m_def)
  obtain f o' where c: "copy_out env mode self out (ib_rpos self) m = Some (f, o')"
    using assms(2) by (cases "copy_out env mode self out (ib_rpos self) m")
      (auto simp: read_upper_def Let_def IOBUFFER_BUFEND_def simp flip: m_def)
  show ?thesis
    using assms read_end_rpos_ok [OF assms(1) r] read_lower_ok [OF assms(1)] c
    by (cases f) (auto simp: read_upper_def Let_def IOBUFFER_BUFEND_def simp flip: m_def
        split: if_splits)
qed

lemma read_again_ok:
  assumes "iob_ok self" "read_again env mode self out n res = Some r"
  shows "iob_ok (read_buf r)"
proof -
  have e: "iob_ok (rwlock_enter self)" "ib_rpos self \<le> ib_size (rwlock_enter self)"
    using assms(1) by (simp_all add: iob_ok_def)
  have m: "iob_ok (rwlock_enter (self\<lparr>ib_mode := m\<rparr>))" for m using assms(1) by simp
  show ?thesis
    using assms read_upper_ok [OF e(1)] read_upper_ok [OF m] read_buffer_is_empty_ok [OF e]
    by (auto simp: read_again_def Let_def IOBUFFER_CONSUME_INTR_def split: if_splits)
qed

lemma poke_length: "poke b pos d = Some b' \<Longrightarrow> length b' = length b"
  by (auto simp: poke_def split: if_splits)

lemma copy_in_ok:
  assumes "copy_in env self pos off bs = Some (f, self')"
  shows "\<exists>b. self' = self\<lparr>ib_buffer := b\<rparr> \<and> length b = length (ib_buffer self)"
  using assms poke_length by (auto simp: copy_in_def split: option.splits)

lemma write_end_ok: "iob_ok self \<Longrightarrow> iob_ok (write_buf (write_end self res))"
  by (auto simp: write_end_def Let_def IOBUFFER_BUFEND_def) (auto simp: iob_ok_def)

lemma write_lower_ok:
  assumes ok: "iob_ok self" and n: "ib_maxsize self + length buf < n"
    and w: "write_lower env self buf res = Some p"
  shows "pass_ok n p"
proof -
  let ?m = "min (ib_rpos self) (length buf)"
  have c: "iob_ok (s\<lparr>ib_wpos := ?m\<rparr>)" "iob_ok s" "ib_maxsize s = ib_maxsize self"
    if "copy_in env self 0 res (take ?m buf) = Some (f, s)" for f s
    using copy_in_ok [OF that] ok by (auto simp: iob_ok_def)
  show ?thesis
  proof (cases "ib_rpos self = 0 \<or> ib_rpos self = ib_size self")
    case True
    then show ?thesis using w ok n by (auto simp: write_lower_def Let_def IOBUFFER_BUFEND_def)
  next
    case False
    then obtain f s where cp: "copy_in env self 0 res (take ?m buf) = Some (f, s)"
      using w by (auto simp: write_lower_def Let_def IOBUFFER_BUFEND_def split: option.splits)
    show ?thesis
      using w n False c [OF cp] write_end_ok [OF c(1) [OF cp]]
      by (cases f) (auto simp: write_lower_def Let_def IOBUFFER_BUFEND_def cp split: if_splits)
  qed
qed

lemma write_upper_ok:
  assumes ok: "iob_ok self" and n: "ib_maxsize self + length buf < n"
    and w: "write_upper env self buf res = Some p"
  shows "pass_ok n p"
proof -
  define m where "m = min (if ib_rpos self > ib_wpos self
      then min (sub32 (ib_size self) (ib_wpos self)) (ib_rpos self - ib_wpos self)
      else sub32 (ib_size self) (ib_wpos self)) (length buf)"
  have m: "ib_wpos self + m \<le> ib_size self"
    using ok by (auto simp: iob_ok_def sub32_id m_def split: if_splits)
  have c: "iob_ok (s\<lparr>ib_wpos := ib_wpos s + m\<rparr>)" "iob_ok s" "ib_maxsize s = ib_maxsize self"
    if "copy_in env self (ib_wpos self) res (take m buf) = Some (f, s)" for f s
    using copy_in_ok [OF that] ok m by (auto simp: iob_ok_def)
  have d: "ib_maxsize self + length (drop m buf) < n" using n by simp
  note up = write_upper_def Let_def IOBUFFER_BUFEND_def m_def [symmetric]
  obtain f s where cp: "copy_in env self (ib_wpos self) res (take m buf) = Some (f, s)"
    using w unfolding up by (auto split: option.splits)
  show ?thesis
    using w c [OF cp] d write_end_ok [OF c(1) [OF cp]] write_lower_ok [OF c(1) [OF cp], of "drop m buf" n]
    unfolding up cp by (cases f) (auto split: if_splits)
qed

lemma write_room_ok:
  assumes ok: "iob_ok self" and n: "ib_maxsize self + length buf < U32"
    and re: "sized (env_krealloc env)" and w: "write_room env self buf res mw = Some p"
  shows "pass_ok U32 p"
proof -
  define z where "z = min (add32 (ib_size self) (length buf - mw)) (ib_maxsize self)"
  have z: "ib_size self \<le> z" "z \<le> ib_maxsize self"
    using ok n by (auto simp: z_def iob_ok_def add32_id)
  have c: "iob_ok (self\<lparr>ib_buffer := b, ib_rpos := r, ib_size := z\<rparr>)"
    if "env_krealloc env (ib_buffer self) z = Some b" "r \<le> z" for b r
    using that ok z re by (auto simp: iob_ok_def sized_def)
  have r: "ib_rpos self \<le> z" using ok z by (simp add: iob_ok_def)
  have "(if mw < length buf then if z \<noteq> ib_size self then
      (case env_krealloc env (ib_buffer self) z of
         None \<Rightarrow> Some (Pass_done (Write_done (- ENOMEM) (rwlock_leave self)))
       | Some b \<Rightarrow> write_upper env (self\<lparr>ib_buffer := b, ib_rpos :=
           (if ib_rpos self = ib_size self \<and> ib_size self \<noteq> 0 then z else ib_rpos self), ib_size := z\<rparr>)
           buf res)
      else if mw = 0 then Some (Pass_done (write_end self res)) else write_upper env self buf res
    else write_upper env self buf res) = Some p"
    using w unfolding write_room_def Let_def IOBUFFER_BUFEND_def z_def [symmetric] by simp
  moreover have "pass_ok U32 p" if "write_upper env self buf res = Some p"
    by (rule write_upper_ok [OF ok n that])
  moreover have "pass_ok U32 p" if "env_krealloc env (ib_buffer self) z = Some b" "q \<le> z"
      "write_upper env (self\<lparr>ib_buffer := b, ib_rpos := q, ib_size := z\<rparr>) buf res = Some p" for b q
    by (rule write_upper_ok [OF c [OF that(1,2)] _ that(3)]) (use n in simp)
  ultimately show ?thesis
    using r ok write_end_ok [OF ok, of res] by (auto split: if_splits option.splits)
qed

definition room_ok :: "io_env \<Rightarrow> iobuffer \<Rightarrow> byte list \<Rightarrow> bool" where
  "room_ok env self buf =
     (iob_ok self \<and> ib_maxsize self + length buf < U32 \<and> sized (env_krealloc env))"

lemma write_loop_ok:
  assumes "write_loop env mode self buf res mw = Some r"
  shows "room_ok env self buf \<longrightarrow> iob_ok (write_buf r)"
proof (rule write_loop.raw_induct [where P = "\<lambda>env mode self buf res mw r.
    room_ok env self buf \<longrightarrow> iob_ok (write_buf r)", OF _ assms])
  fix loop env mode self buf res mw r
  assume IH: "\<And>env mode self buf res mw r. loop env mode self buf res mw = Some r \<Longrightarrow>
      room_ok env self buf \<longrightarrow> iob_ok (write_buf r)"
    and eq: "Option.bind (write_room env self buf res mw) (\<lambda>p. case p of
         Pass_done r \<Rightarrow> Some r
       | Pass_full self buf result max_write \<Rightarrow>
           (case write_buffer_is_full mode self result of
              Full_end \<Rightarrow> Some (write_end self result)
            | Full_wait \<Rightarrow> Some (write_wait self buf result)
            | Full_go \<Rightarrow> loop env mode self buf result max_write)) = Some r"
  show "room_ok env self buf \<longrightarrow> iob_ok (write_buf r)"
  proof
    assume ok: "room_ok env self buf"
    obtain p where p: "write_room env self buf res mw = Some p"
      using eq by (cases "write_room env self buf res mw") auto
    have "pass_ok U32 p" using write_room_ok [OF _ _ _ p] ok by (simp add: room_ok_def)
    then show "iob_ok (write_buf r)"
      using eq ok IH write_end_ok
      by (cases p) (auto simp: p write_wait_def Let_def room_ok_def split: full_next.splits)
  qed
qed

lemma write_again_ok:
  assumes "write_again env mode self buf res = Some r" "iob_ok self"
    "ib_maxsize self + length buf < U32" "sized (env_krealloc env)"
  shows "iob_ok (write_buf r)"
proof -
  have e: "iob_ok (rwlock_enter self)" "ib_maxsize (rwlock_enter self) + length buf < U32"
    using assms by simp_all
  show ?thesis
    using assms e write_loop_ok [of env mode "rwlock_enter self" buf res _ r] write_end_ok [OF e(1)]
    by (auto simp: write_again_def Let_def write_wait_def room_ok_def split: if_splits full_next.splits)
qed

lemma discard_ok: "iob_ok self \<Longrightarrow> iob_ok (snd (iobuffer_discard env self))"
  by (auto simp: iobuffer_discard_def Let_def) (simp add: iob_ok_def env_defs)

lemma interrupt_ok: "iob_ok self \<Longrightarrow> iob_ok (snd (iobuffer_interrupt env self))"
  by (simp add: iobuffer_interrupt_def Let_def)

lemma reserve_ok:
  assumes "iob_ok self" "sized (env_krealloc env)" "ib_size self + n < U32"
  shows "iob_ok (snd (iobuffer_reserve env self n))"
proof -
  have a: "min (ib_size self + n) (ib_maxsize self) \<ge> ib_size self" using assms(1) by (auto simp: iob_ok_def)
  have "iob_ok (self\<lparr>ib_buffer := b, ib_size := min (ib_size self + n) (ib_maxsize self)\<rparr>)"
    if "env_krealloc env (ib_buffer self) (min (ib_size self + n) (ib_maxsize self)) = Some b" for b
    using that assms(1,2) a by (auto simp: iob_ok_def sized_def)
  then show ?thesis
    using assms by (auto simp: iobuffer_reserve_def Let_def add32_id split: option.splits)
qed

lemma flush_ok:
  assumes ok: "iob_ok self" and re: "sized (env_realloc env)"
    and f: "iobuffer_flush env self = Some (r, self')"
  shows "iob_ok self'"
proof -
  let ?n = "IOBUFFER_MAXREAD self (ib_rpos self)"
  have n: "?n \<le> ib_size self" using ok by (auto simp: iob_ok_def IOBUFFER_MAXREAD_def)
  have c: "iob_ok (self\<lparr>ib_rpos := 0, ib_wpos := ?n, ib_buffer := b'', ib_size := ?n\<rparr>)"
    if "env_realloc env (ib_buffer self) ?n = Some b'" "poke b' 0 bs = Some b''" for b' b'' bs
    using that ok n re poke_length [OF that(2)] by (auto simp: iob_ok_def sized_def)
  have z: "iob_ok (self\<lparr>ib_buffer := [], ib_rpos := 0, ib_wpos := 0, ib_size := 0\<rparr>)"
    using ok by (simp add: iob_ok_def)
  show ?thesis
    using f ok c z by (auto simp: iobuffer_flush_def Let_def split: if_splits option.splits)
qed

lemma unread_ok:
  assumes "iob_ok self" "iobuffer_unread env self n = Some (r, self')"
  shows "iob_ok self'"
  using assms
  by (auto simp: iobuffer_unread_def Let_def IOBUFFER_BUFEND_def iob_ok_def rwlock_enter_def split: if_splits)

lemma unwrite_ok:
  assumes "iob_ok self" "iobuffer_unwrite env self n = Some (r, self')"
  shows "iob_ok self'"
  using assms
  by (auto simp: iobuffer_unwrite_def Let_def IOBUFFER_BUFEND_def iob_ok_def env_defs split: if_splits)

subsection \<open>A write that never returns\<close>

definition stuck :: "io_env \<Rightarrow> byte \<Rightarrow> iobuffer \<Rightarrow> byte list \<Rightarrow> nat \<Rightarrow> bool" where
  "stuck env mode self buf mw =
     (iob_ok self \<and> quiet env \<and> mode AND IO_BLOCKFIRST = 0 \<and> buf \<noteq> [] \<and> length buf < U32 - ib_size self \<and>
      mw = ib_size self \<and> 0 < ib_size self \<and> ib_maxsize self = ib_size self \<and>
      ib_rpos self = ib_size self \<and> ib_wpos self = ib_size self)"

lemma stuck_pass:
  assumes "stuck env mode self buf mw"
  shows "write_room env (rwlock_enter self) buf res mw
    = Some (Pass_full (rwlock_enter self) buf res mw)"
proof -
  have s: "iob_ok self" "quiet env" "buf \<noteq> []" "length buf < U32 - ib_size self" "mw = ib_size self"
    "0 < ib_size self" "ib_maxsize self = ib_size self" "ib_rpos self = ib_size self"
    "ib_wpos self = ib_size self" "length (ib_buffer self) = ib_size self"
    using assms by (auto simp: stuck_def iob_ok_def)
  have p: "iob_put self (ib_size self) [] = self" using s by (simp add: iob_put_def)
  have up: "write_upper env (rwlock_enter self) buf res
      = Some (Pass_full (rwlock_enter self) buf res mw)"
    using write_upper_quiet [OF s(1,2), of 0 buf res] s
    by (simp add: p write_lower_def)
  have "min (add32 (ib_size self) (length buf - mw)) (ib_maxsize self) = ib_size self"
    using s by (auto simp: add32_id)
  then show ?thesis unfolding write_room_def Let_def enter_fields using s up by simp
qed

lemma stuck_forever:
  assumes "write_loop env mode self buf res mw = Some r"
  shows "\<forall>s. self = rwlock_enter s \<longrightarrow> \<not> stuck env mode s buf mw"
proof (rule write_loop.raw_induct [where P = "\<lambda>env mode self buf res mw r.
    \<forall>s. self = rwlock_enter s \<longrightarrow> \<not> stuck env mode s buf mw", OF _ assms], intro allI impI notI)
  fix loop env mode self buf res mw r s
  assume IH: "\<And>env mode self buf res mw r. loop env mode self buf res mw = Some r \<Longrightarrow>
      \<forall>s. self = rwlock_enter s \<longrightarrow> \<not> stuck env mode s buf mw"
    and eq: "Option.bind (write_room env self buf res mw) (\<lambda>p. case p of
         Pass_done r \<Rightarrow> Some r
       | Pass_full self buf result max_write \<Rightarrow>
           (case write_buffer_is_full mode self result of
              Full_end \<Rightarrow> Some (write_end self result)
            | Full_wait \<Rightarrow> Some (write_wait self buf result)
            | Full_go \<Rightarrow> loop env mode self buf result max_write)) = Some r"
    and s: "self = rwlock_enter s" and st: "stuck env mode s buf mw"
  have "loop env mode (rwlock_enter s) buf res mw = Some r"
    using eq st by (simp add: s stuck_pass [OF st] write_buffer_is_full_def stuck_def)
  then show False using IH st by blast
qed

lemma block_modes:
  "IO_BLOCKNONE AND IO_PEEK = 0" "IO_BLOCKNONE AND IO_SKIP = 0" "IO_BLOCKNONE AND IO_BLOCKFIRST = 0"
  "IO_BLOCKFIRST AND IO_PEEK = 0" "IO_BLOCKFIRST AND IO_SKIP = 0"
  "IO_BLOCKFIRST AND (IO_BLOCKFIRST OR IO_BLOCKALL) = IO_BLOCKFIRST"
  by (simp_all add: IO_BLOCKNONE_def IO_BLOCKFIRST_def IO_BLOCKALL_def IO_PEEK_def IO_SKIP_def)

subsection \<open>Concrete surroundings\<close>

definition calm :: io_env where
  "calm = \<lparr>env_rwlock = 0, env_upgrade = 0,
     env_krealloc = (\<lambda>b n. Some (take n b @ replicate (n - length b) 0)),
     env_realloc = (\<lambda>b n. Some (take n b @ replicate (n - length b) 0)),
     env_user = (\<lambda>p n. None)\<rparr>"

lemma calm_quiet: "quiet calm" "keeps_prefix (env_krealloc calm)" "sized (env_krealloc calm)"
  "sized (env_realloc calm)"
  by (auto simp: calm_def quiet_def E_ISERR_def keeps_prefix_def sized_def min_def)

definition iob_at :: "nat \<Rightarrow> byte list \<Rightarrow> nat \<Rightarrow> nat \<Rightarrow> iobuffer" where
  "iob_at m b r w = (iobuffer_init_ex m)\<lparr>ib_size := length b, ib_buffer := b, ib_rpos := r, ib_wpos := w\<rparr>"

lemmas iob_at_defs = iob_at_def iobuffer_init_ex_def iob_ok_def

lemma iob_at_demo: "iob_ok (iob_at 8 [5, 2, 3, 4] 2 1)" "iob_queue (iob_at 8 [5, 2, 3, 4] 2 1) = [3, 4, 5]"
  "iob_ok (iob_at 4 [1, 2, 3, 4] 4 0)" "iob_queue (iob_at 4 [1, 2, 3, 4] 4 0) = []"
  by (simp_all add: iob_at_defs iob_queue_def)

subsection \<open>Properties\<close>



text \<open>
  C13: \<open>iobuffer_write\<close> appends the whole block to the queue when it fits the ring, and also when the ring has to be
  enlarged for it within \<open>ib_maxsize\<close>, provided the unread bytes do not wrap around the end of the old block.
\<close>
theorem iobuffer_write_appends:
  assumes "iob_ok self" "quiet env" "keeps_prefix (env_krealloc env)" "d \<noteq> []"
    and "length (iob_queue self) + length d \<le> ib_maxsize self"
    and "length (iob_queue self) + length d \<le> ib_size self \<or>
      ib_rpos self < ib_wpos self \<or> ib_rpos self = ib_size self"
  shows "\<exists>self'. iobuffer_write env mode self d = Some (Write_done (int (length d)) self') \<and> iob_ok self' \<and>
      iob_queue self' = iob_queue self @ d \<and>
      ib_size self' = max (ib_size self) (length (iob_queue self) + length d)"
proof (cases "length (iob_queue self) + length d \<le> ib_size self")
  case True
  then show ?thesis
    using iobuffer_write_fits [OF assms(1,2,4) True, of mode] by (auto simp: iob_kept_def max_def)
next
  case False
  then have "ib_size self < length (iob_queue self) + length d"
    "ib_rpos self < ib_wpos self \<or> ib_rpos self = ib_size self" using assms(6) by auto
  from iobuffer_write_grows [OF assms(1-4) this(2,1) assms(5), of mode] this(1)
  show ?thesis by (auto simp: max_def)
qed

theorem iobuffer_write_appends_witness:
  "\<exists>self'. iobuffer_write calm IO_BLOCKALL (iob_at 8 [1, 2, 3, 4] 4 0) [5, 6, 7, 8, 9, 10]
     = Some (Write_done 6 self') \<and> iob_ok self' \<and> iob_queue self' = [5, 6, 7, 8, 9, 10] \<and> ib_size self' = 6"
proof -
  have h: "iob_ok (iob_at 8 [1, 2, 3, 4] 4 0)" "iob_queue (iob_at 8 [1, 2, 3, 4] 4 0) = []"
    "ib_size (iob_at 8 [1, 2, 3, 4] 4 0) = 4" "ib_rpos (iob_at 8 [1, 2, 3, 4] 4 0) = 4"
    "ib_maxsize (iob_at 8 [1, 2, 3, 4] 4 0) = 8"
    by (simp_all add: iob_at_defs iob_queue_def)
  from iobuffer_write_appends [OF h(1) calm_quiet(1,2), of "[5, 6, 7, 8, 9, 10]" IO_BLOCKALL]
  show ?thesis by (auto simp: h)
qed





text \<open>
  \<open>iobuffer_reserve\<close> enlarges the block without moving the data. Only bytes that lie in one piece before the write
  position survive it; otherwise the new zero bytes become part of the data to be read.
\<close>
theorem iobuffer_reserve_effect:
  assumes ok: "iob_ok self" and env: "\<not> E_ISERR (env_rwlock env)" "0 < n" "ib_size self + n \<le> ib_maxsize self"
    and re: "env_krealloc env (ib_buffer self) (ib_size self + n) = Some (ib_buffer self @ replicate n 0)"
  shows "\<exists>self'. iobuffer_reserve env self n = (int n, self') \<and> iob_ok self' \<and>
      iob_queue self' = (if ib_rpos self < ib_wpos self then iob_queue self
        else drop (ib_rpos self) (ib_buffer self) @ replicate n 0 @ take (ib_wpos self) (ib_buffer self))"
proof -
  have b: "length (ib_buffer self) = ib_size self" "ib_rpos self \<le> ib_size self" "ib_wpos self \<le> ib_size self"
    "ib_size self + n < U32" using ok env by (auto simp: iob_ok_def)
  let ?s = "self\<lparr>ib_buffer := ib_buffer self @ replicate n 0, ib_size := ib_size self + n\<rparr>"
  have r: "iobuffer_reserve env self n = (int n, rwlock_leave (rwlock_enter ?s))"
    using env b re by (simp add: iobuffer_reserve_def Let_def add32_id sub32_id)
  have "iob_ok ?s" using ok env by (simp add: iob_ok_def)
  moreover have "iob_queue ?s = (if ib_rpos self < ib_wpos self then iob_queue self
      else drop (ib_rpos self) (ib_buffer self) @ replicate n 0 @ take (ib_wpos self) (ib_buffer self))"
    using b by (simp add: iob_queue_def)
  ultimately show ?thesis unfolding r by simp
qed

theorem iobuffer_reserve_effect_witness:
  "\<exists>self'. iobuffer_reserve calm (iob_at 8 [5, 2, 3, 4] 2 1) 2 = (2, self') \<and> iob_queue self' = [3, 4, 0, 0, 5]"
proof -
  have "env_krealloc calm (ib_buffer (iob_at 8 [5, 2, 3, 4] 2 1)) (ib_size (iob_at 8 [5, 2, 3, 4] 2 1) + 2)
      = Some (ib_buffer (iob_at 8 [5, 2, 3, 4] 2 1) @ replicate 2 0)"
    by (simp add: calm_def iob_at_def iobuffer_init_ex_def) (simp add: numeral_2_eq_2)
  from iobuffer_reserve_effect [OF iob_at_demo(1) _ _ _ this] calm_quiet(1)
  show ?thesis by (auto simp: quiet_def iob_at_def iobuffer_init_ex_def numeral_2_eq_2)
qed

text \<open>
  \<open>iobuffer_unread\<close> never releases the lock it takes, and while the data is not wrapped it moves the read position
  out of the block, except when it moves it exactly to the start.
\<close>
theorem iobuffer_unread_defects:
  assumes ok: "iob_ok self" "ib_size self < 0x80000000" and env: "\<not> E_ISERR (env_rwlock env)"
  shows "(\<forall>r s. iobuffer_unread env self n = Some (r, s) \<longrightarrow> ib_rwlock s = ib_rwlock self + 1) \<and>
    (ib_rpos self < ib_wpos self \<and> 0 < min n (ib_size self - length (iob_queue self)) \<longrightarrow>
      (iobuffer_unread env self n \<noteq> None \<longleftrightarrow>
        min n (ib_size self - length (iob_queue self)) = ib_rpos self))"
proof
  show "\<forall>r s. iobuffer_unread env self n = Some (r, s) \<longrightarrow> ib_rwlock s = ib_rwlock self + 1"
    using env by (auto simp: iobuffer_unread_def Let_def rwlock_enter_def split: if_splits)
  let ?k = "min n (ib_size self - length (iob_queue self))"
  show "ib_rpos self < ib_wpos self \<and> 0 < ?k \<longrightarrow> (iobuffer_unread env self n \<noteq> None \<longleftrightarrow> ?k = ib_rpos self)"
  proof (intro impI, elim conjE)
    assume lin: "ib_rpos self < ib_wpos self" and k: "0 < ?k"
    have b: "ib_size self < U32" "ib_rpos self < ib_size self" using ok lin by (auto simp: iob_ok_def)
    have far: "ib_size self < sub32 ?k (ib_rpos self)" if "?k < ib_rpos self"
    proof -
      have "ib_wpos self \<le> ib_size self" "length (iob_queue self) = ib_wpos self - ib_rpos self"
        using ok lin iob_length [OF ok(1)] by (auto simp: iob_ok_def IOBUFFER_MAXREAD_def)
      then have "?k = n" using that lin by (auto simp: min_def split: if_splits)
      then show ?thesis using that b k ok(2) by (simp add: sub32_wrap)
    qed
    obtain m where m: "m = ?k" by blast
    have "iobuffer_unread env self n \<noteq> None \<longleftrightarrow>
        (if ib_rpos self \<le> m then m \<le> ib_rpos self else sub32 m (ib_rpos self) \<le> ib_size self)"
      using env lin k
      by (simp add: iobuffer_unread_def Let_def iob_room [OF ok(1)] del: min_less_iff_conj flip: m)
    then show "iobuffer_unread env self n \<noteq> None \<longleftrightarrow> ?k = ib_rpos self"
      using far by (cases m "ib_rpos self" rule: linorder_cases) (auto simp flip: m)
  qed
qed

theorem iobuffer_unread_defects_witness:
  "iobuffer_unread calm (iob_at 8 [1, 2, 3, 4] 2 4) 1 = None \<and> iobuffer_unread calm (iob_at 8 [1, 2, 3, 4] 2 4) 2 \<noteq> None"
proof -
  have h: "iob_ok (iob_at 8 [1, 2, 3, 4] 2 4)" "iob_queue (iob_at 8 [1, 2, 3, 4] 2 4) = [3, 4]"
    "ib_size (iob_at 8 [1, 2, 3, 4] 2 4) = 4" "ib_rpos (iob_at 8 [1, 2, 3, 4] 2 4) = 2"
    "ib_wpos (iob_at 8 [1, 2, 3, 4] 2 4) = 4" "\<not> E_ISERR (env_rwlock calm)"
    using calm_quiet(1) by (simp_all add: iob_at_defs iob_queue_def quiet_def)
  from iobuffer_unread_defects [OF h(1) _ h(6), of 1] iobuffer_unread_defects [OF h(1) _ h(6), of 2]
  show ?thesis
    by (cases "iobuffer_unread calm (iob_at 8 [1, 2, 3, 4] 2 4) (Suc 0)") (auto simp: h)
qed

lemma replicate_2: "replicate 2 x = [x, x]"
  by (simp add: numeral_2_eq_2)

lemmas demo_defs = replicate_2 calm_def iob_at_def iobuffer_init_ex_def env_defs IOBUFFER_BUFEND_def
  IOBUFFER_MAXREAD_def IOBUFFER_MAXWRITE_def add32_def sub32_def iob_queue_def

lemmas read_defs = iobuffer_read_def read_again_def read_upper_def read_lower_def read_end_rpos_def
  read_buffer_is_empty_def copy_out_def peek_def IOBUFFER_CONSUME_INTR_def IO_BLOCKNONE_def
  IO_BLOCKFIRST_def IO_BLOCKALL_def IO_PEEK_def IO_SKIP_def IOBUFFER_INTR_BLOCKFIRST_def E_ISERR_def Let_def

lemma grow_wrapped_passes:
  "write_room calm (rwlock_enter (iob_at 8 [5, 2, 3, 4] 2 1)) [6, 7, 8] 0 1
     = Some (Pass_full (rwlock_enter (iob_at 8 [5, 6, 3, 4, 0, 0] 2 2)) [7, 8] 1 0)"
  "write_room calm (rwlock_enter (iob_at 8 [5, 6, 3, 4, 0, 0] 2 2)) [7, 8] 1 0
     = Some (Pass_done (Write_done 3 (broadcast_avail (iob_at 8 [5, 6, 7, 8, 0, 0, 0, 0] 2 4))))"
  by (simp_all add: write_room_def write_upper_def write_end_def copy_in_def poke_def Let_def demo_defs)

lemma grow_wrapped_write:
  "iobuffer_write calm IO_BLOCKNONE (iob_at 8 [5, 2, 3, 4] 2 1) [6, 7, 8]
     = Some (Write_done 3 (broadcast_avail (iob_at 8 [5, 6, 7, 8, 0, 0, 0, 0] 2 4)))"
proof -
  have m: "IOBUFFER_MAXWRITE (iob_at 8 [5, 2, 3, 4] 2 1) (ib_rpos (iob_at 8 [5, 2, 3, 4] 2 1)) = 1"
    by (simp add: demo_defs)
  have "write_loop calm IO_BLOCKNONE (rwlock_enter (iob_at 8 [5, 2, 3, 4] 2 1)) [6, 7, 8] 0 1
     = Some (Write_done 3 (broadcast_avail (iob_at 8 [5, 6, 7, 8, 0, 0, 0, 0] 2 4)))"
    by (subst write_loop.simps, subst write_loop.simps)
      (simp add: grow_wrapped_passes write_buffer_is_full_def block_modes del: One_nat_def)
  then show ?thesis
    using calm_quiet(1) by (simp add: iobuffer_write_def write_again_def Let_def quiet_def m del: One_nat_def)
qed


end
