(* ===== verification/Pipe.thy ===== *)
theory Pipe
  imports Iobuffer
begin

text \<open>
  Pipes (\<open>src/src/kernel/fs/pipe.c\<close>): the file operations over the I/O buffer, and the proof that a pipe is a channel
  of bytes in order. \<open>fifo_channel\<close> states what a channel promises of one write and one read; the theorem on whole runs
  is proved there once and applied to the pipe, whose laws come from \<open>Iobuffer\<close>.
\<close>

subsection \<open>A channel of bytes in order\<close>

datatype chan_op = Put "byte list" | Get nat

fun chan_run :: "(byte list \<Rightarrow> 's \<Rightarrow> (int \<times> 's) option) \<Rightarrow> (nat \<Rightarrow> 's \<Rightarrow> (int \<times> byte list \<times> 's) option)
    \<Rightarrow> chan_op list \<Rightarrow> 's \<Rightarrow> (byte list \<times> 's) option" where
  "chan_run put get [] s = Some ([], s)"
| "chan_run put get (Put d # ops) s =
     (case put d s of None \<Rightarrow> None | Some (_, s) \<Rightarrow> chan_run put get ops s)"
| "chan_run put get (Get n # ops) s =
     (case get n s of None \<Rightarrow> None
      | Some (_, d, s) \<Rightarrow> map_option (\<lambda>(ds, s). (d @ ds, s)) (chan_run put get ops s))"

fun chan_fits :: "nat \<Rightarrow> nat \<Rightarrow> chan_op list \<Rightarrow> bool" where
  "chan_fits cap n [] = True"
| "chan_fits cap n (Put d # ops) = (d \<noteq> [] \<and> n + length d \<le> cap \<and> chan_fits cap (n + length d) ops)"
| "chan_fits cap n (Get k # ops) = (0 < k \<and> chan_fits cap (n - k) ops)"

fun chan_sent :: "chan_op list \<Rightarrow> byte list" where
  "chan_sent [] = []"
| "chan_sent (Put d # ops) = d @ chan_sent ops"
| "chan_sent (Get n # ops) = chan_sent ops"

locale fifo_channel =
  fixes good :: "'s \<Rightarrow> bool" and held :: "'s \<Rightarrow> byte list" and cap :: "'s \<Rightarrow> nat"
    and put :: "byte list \<Rightarrow> 's \<Rightarrow> (int \<times> 's) option"
    and get :: "nat \<Rightarrow> 's \<Rightarrow> (int \<times> byte list \<times> 's) option"
  assumes put_law: "good s \<Longrightarrow> d \<noteq> [] \<Longrightarrow> length (held s) + length d \<le> cap s \<Longrightarrow>
      \<exists>s'. put d s = Some (int (length d), s') \<and> good s' \<and> cap s' = cap s \<and> held s' = held s @ d"
    and get_law: "good s \<Longrightarrow> 0 < n \<Longrightarrow>
      \<exists>s'. get n s = Some (int (min n (length (held s))), take n (held s), s') \<and> good s' \<and>
        cap s' = cap s \<and> held s' = drop n (held s)"
begin

lemma run_in_order:
  assumes "good s" "chan_fits (cap s) (length (held s)) ops"
  shows "\<exists>ds s'. chan_run put get ops s = Some (ds, s') \<and> good s' \<and> cap s' = cap s \<and>
     ds @ held s' = held s @ chan_sent ops"
  using assms
proof (induction ops arbitrary: s)
  case Nil
  then show ?case by simp
next
  case (Cons op ops)
  show ?case
  proof (cases op)
    case (Put d)
    with Cons.prems put_law [of s d] obtain s' where s': "put d s = Some (int (length d), s')"
      "good s'" "cap s' = cap s" "held s' = held s @ d" by auto
    from Cons.IH [OF s'(2)] Cons.prems show ?thesis by (auto simp: Put s')
  next
    case (Get n)
    with Cons.prems get_law [of s n] obtain s' where s':
      "get n s = Some (int (min n (length (held s))), take n (held s), s')"
      "good s'" "cap s' = cap s" "held s' = drop n (held s)" by auto
    from Cons.IH [OF s'(2)] Cons.prems obtain ds s'' where ds: "chan_run put get ops s' = Some (ds, s'')"
      "good s''" "cap s'' = cap s" "ds @ held s'' = drop n (held s) @ chan_sent ops"
      by (auto simp: Get s')
    show ?thesis using ds by (auto simp: Get s' intro: exI [of _ s''])
  qed
qed

end

subsection \<open>Pipes\<close>

record pipe =
  i_state :: "32 word"
  p_data :: iobuffer

definition INODE_STATE_CLOSING :: "32 word" where "INODE_STATE_CLOSING = 0x00000002"
definition O_NONBLOCK :: "32 word" where "O_NONBLOCK = 0x800"
definition O_ACCMODE :: "32 word" where "O_ACCMODE = 3"
definition O_RDONLY :: "32 word" where "O_RDONLY = 0"
definition SEEK_CUR :: int where "SEEK_CUR = 1"
definition EINVAL :: int where "EINVAL = 22"

definition pipe_fclose :: "io_env \<Rightarrow> pipe \<Rightarrow> pipe" where
  "pipe_fclose env p =
     (let p = p\<lparr>i_state := i_state p OR INODE_STATE_CLOSING\<rparr>
      in p\<lparr>p_data := snd (iobuffer_interrupt env (p_data p))\<rparr>)"

definition pipe_read :: "io_env \<Rightarrow> 32 word \<Rightarrow> pipe \<Rightarrow> nat \<Rightarrow> read_outcome option" where
  "pipe_read env f_mode p bufsize =
     iobuffer_read env
       (if f_mode AND O_NONBLOCK \<noteq> 0 \<or> i_state p AND INODE_STATE_CLOSING \<noteq> 0
        then IO_BLOCKNONE else IO_BLOCKFIRST) (p_data p) bufsize"

definition pipe_write :: "io_env \<Rightarrow> 32 word \<Rightarrow> pipe \<Rightarrow> byte list \<Rightarrow> write_outcome option" where
  "pipe_write env f_mode p buf =
     (if i_state p AND INODE_STATE_CLOSING \<noteq> 0 then Some (Write_done 0 (p_data p))
      else iobuffer_write env (if f_mode AND O_NONBLOCK \<noteq> 0 then IO_BLOCKNONE else IO_BLOCKFIRST)
             (p_data p) buf)"

definition iobuffer_seek_read :: "io_env \<Rightarrow> iobuffer \<Rightarrow> int \<Rightarrow> read_outcome option" where
  "iobuffer_seek_read env self off =
     (if off < 0
      then map_option (\<lambda>(r, self). Read_done r self []) (iobuffer_unread env self (nat (- off)))
      else iobuffer_read env (IO_SKIP OR IO_BLOCKNONE) self (nat off))"

definition iobuffer_seek_write :: "io_env \<Rightarrow> iobuffer \<Rightarrow> int \<Rightarrow> (int \<times> iobuffer) option" where
  "iobuffer_seek_write env self off =
     (if off < 0 then iobuffer_unwrite env self (nat (- off)) else Some (0, self))"

definition pipe_seek :: "io_env \<Rightarrow> 32 word \<Rightarrow> pipe \<Rightarrow> int \<Rightarrow> int \<Rightarrow> read_outcome option" where
  "pipe_seek env f_mode p off whence =
     (if whence \<noteq> SEEK_CUR then Some (Read_done (- EINVAL) (p_data p) [])
      else if f_mode AND O_ACCMODE = O_RDONLY
      then iobuffer_seek_read env (p_data p) off
      else map_option (\<lambda>(r, self). Read_done r self []) (iobuffer_seek_write env (p_data p) off))"

text \<open>The pipe as a channel: what a completed call returns, and the pipe it leaves.\<close>

definition pipe_put :: "io_env \<Rightarrow> 32 word \<Rightarrow> byte list \<Rightarrow> pipe \<Rightarrow> (int \<times> pipe) option" where
  "pipe_put env f_mode d p =
     (case pipe_write env f_mode p d of
        Some (Write_done r self) \<Rightarrow> Some (r, p\<lparr>p_data := self\<rparr>) | _ \<Rightarrow> None)"

definition pipe_get :: "io_env \<Rightarrow> 32 word \<Rightarrow> nat \<Rightarrow> pipe \<Rightarrow> (int \<times> byte list \<times> pipe) option" where
  "pipe_get env f_mode n p =
     (case pipe_read env f_mode p n of
        Some (Read_done r self d) \<Rightarrow> Some (r, d, p\<lparr>p_data := self\<rparr>) | _ \<Rightarrow> None)"

definition pipe_good :: "io_env \<Rightarrow> pipe \<Rightarrow> bool" where
  "pipe_good env p =
     (quiet env \<and> iob_ok (p_data p) \<and> i_state p AND INODE_STATE_CLOSING = 0 \<and>
      ib_mode (p_data p) AND IOBUFFER_INTR_BLOCKFIRST = 0)"

definition pipe_held :: "pipe \<Rightarrow> byte list" where
  "pipe_held p = iob_queue (p_data p)"

definition pipe_cap :: "pipe \<Rightarrow> nat" where
  "pipe_cap p = ib_size (p_data p)"

lemmas pipe_defs = pipe_good_def pipe_held_def pipe_cap_def

lemma pipe_put_law:
  assumes "pipe_good env p" "d \<noteq> []" "length (pipe_held p) + length d \<le> pipe_cap p"
  shows "\<exists>p'. pipe_put env fm d p = Some (int (length d), p') \<and> pipe_good env p' \<and>
    pipe_cap p' = pipe_cap p \<and> pipe_held p' = pipe_held p @ d"
proof -
  from assms iobuffer_write_fits [of "p_data p" env d]
  obtain s where "pipe_write env fm p d = Some (Write_done (int (length d)) s)" "iob_ok s"
    "iob_kept (p_data p) s" "iob_queue s = iob_queue (p_data p) @ d"
    by (fastforce simp: pipe_defs pipe_write_def)
  then show ?thesis using assms(1) by (auto simp: pipe_defs pipe_put_def iob_kept_def)
qed

lemma pipe_get_law:
  assumes "pipe_good env p" "0 < n" "fm AND O_NONBLOCK \<noteq> 0"
  shows "\<exists>p'. pipe_get env fm n p = Some (int (min n (length (pipe_held p))), take n (pipe_held p), p') \<and>
    pipe_good env p' \<and> pipe_cap p' = pipe_cap p \<and> pipe_held p' = drop n (pipe_held p)"
proof -
  have "\<exists>s. iobuffer_read env IO_BLOCKNONE (p_data p) n
      = Some (Read_done (int (min n (length (iob_queue (p_data p))))) s (take n (iob_queue (p_data p)))) \<and>
      iob_ok s \<and> iob_kept (p_data p) s \<and> iob_queue s = drop n (iob_queue (p_data p))"
    using assms iobuffer_read_some [of "p_data p" env IO_BLOCKNONE n]
      iobuffer_read_none [of "p_data p" env IO_BLOCKNONE n]
    by (cases "iob_queue (p_data p) = []") (simp_all add: pipe_defs block_modes)
  then obtain s where "pipe_read env fm p n
      = Some (Read_done (int (min n (length (iob_queue (p_data p))))) s (take n (iob_queue (p_data p))))"
    "iob_ok s" "iob_kept (p_data p) s" "iob_queue s = drop n (iob_queue (p_data p))"
    using assms(3) by (auto simp: pipe_read_def)
  then show ?thesis using assms(1) by (auto simp: pipe_defs pipe_get_def iob_kept_def)
qed

interpretation nonblocking_pipe: fifo_channel "pipe_good env" pipe_held pipe_cap
  "pipe_put env O_NONBLOCK" "pipe_get env O_NONBLOCK" for env
proof
  have nb: "O_NONBLOCK AND O_NONBLOCK \<noteq> 0" by (simp add: O_NONBLOCK_def)
  show "\<exists>s'. pipe_get env O_NONBLOCK n s
      = Some (int (min n (length (pipe_held s))), take n (pipe_held s), s') \<and> pipe_good env s' \<and>
      pipe_cap s' = pipe_cap s \<and> pipe_held s' = drop n (pipe_held s)"
    if "pipe_good env s" "0 < n" for s n by (rule pipe_get_law [OF that nb])
qed (rule pipe_put_law)

subsection \<open>Properties\<close>

text \<open>
  C11: A pipe delivers the bytes written to it in order, none lost, repeated or invented: over any sequence of
  non-blocking writes that fit the ring and non-blocking reads, the bytes read followed by the bytes still held are
  the bytes first held followed by the bytes written.
\<close>
theorem pipe_delivers_in_order:
  assumes "pipe_good env p" "chan_fits (pipe_cap p) (length (pipe_held p)) ops"
  shows "\<exists>ds p'. chan_run (pipe_put env O_NONBLOCK) (pipe_get env O_NONBLOCK) ops p = Some (ds, p') \<and>
    pipe_good env p' \<and> pipe_cap p' = pipe_cap p \<and> ds @ pipe_held p' = pipe_held p @ chan_sent ops"
  by (rule nonblocking_pipe.run_in_order [OF assms])

definition pipe_demo :: pipe where
  "pipe_demo = \<lparr>i_state = 0, p_data = iob_at 8 [5, 2, 3, 4] 2 1\<rparr>"

theorem pipe_delivers_in_order_witness:
  "\<exists>ds p'. chan_run (pipe_put calm O_NONBLOCK) (pipe_get calm O_NONBLOCK) [Put [6], Get 3, Put [7, 8], Get 1] pipe_demo
     = Some (ds, p') \<and> pipe_good calm p' \<and> pipe_cap p' = 4 \<and> ds @ pipe_held p' = [3, 4, 5, 6, 7, 8]"
proof -
  have h: "pipe_good calm pipe_demo" "pipe_held pipe_demo = [3, 4, 5]" "pipe_cap pipe_demo = 4"
    using iob_at_demo calm_quiet by (simp_all add: pipe_defs pipe_demo_def)
      (simp_all add: iob_at_defs)
  have "chan_fits (pipe_cap pipe_demo) (length (pipe_held pipe_demo)) [Put [6], Get 3, Put [7, 8], Get 1]"
    by (simp add: h)
  from pipe_delivers_in_order [OF h(1) this] show ?thesis by (simp add: h)
qed

end
