(* ===== verification/Canonbuffer.thy ===== *)
theory Canonbuffer
  imports Iobuffer
begin

text \<open>
  The line buffer of a terminal in canonical mode (\<open>src/src/kernel/fs/canonbuffer.c.inl\<close>): text is written and erased
  until the line is complete, then captured as a whole and later released for reuse.

  Blocks live in a heap from addresses to their bytes, because capture and release pass a block between the buffer and
  its user; \<open>cb_end\<close> and \<open>cb_pos\<close> are offsets from \<open>cb_buffer\<close>. \<open>realloc\<close> is a parameter (\<open>realloc_ok\<close> states what it
  promises), as is the fault of \<open>copy_from_user\<close> (\<open>user\<close>: after how many bytes). The functions run without interference,
  so each compare-and-exchange and each lock upgrade succeeds. \<open>None\<close> is an access outside a live block.
\<close>

subsection \<open>The buffer and its operations\<close>

type_synonym heap = "nat \<Rightarrow> byte list option"
type_synonym realloc_fn = "heap \<Rightarrow> nat \<Rightarrow> nat \<Rightarrow> (nat \<times> heap) option"

record canonbuffer =
  cb_maxsize :: nat
  cb_buffer :: nat
  cb_end :: nat
  cb_pos :: nat

record canon =
  c_data :: nat
  c_size :: nat
  c_end :: nat

definition canonbuffer_init :: "nat \<Rightarrow> canonbuffer" where
  "canonbuffer_init maxsize = \<lparr>cb_maxsize = maxsize, cb_buffer = 0, cb_end = 0, cb_pos = 0\<rparr>"

definition canon_copy :: "(nat \<Rightarrow> nat option) \<Rightarrow> heap \<Rightarrow> canonbuffer \<Rightarrow> byte list \<Rightarrow> nat \<Rightarrow> nat
    \<Rightarrow> (int \<times> heap \<times> canonbuffer) option" where
  "canon_copy user heap self buf target result =
     (case heap (cb_buffer self) of
        None \<Rightarrow> if result = 0 then Some (0, heap, self) else None
      | Some b \<Rightarrow>
          (case user result of
             None \<Rightarrow>
               (case poke b target (take result buf) of
                  None \<Rightarrow> None
                | Some b \<Rightarrow> Some (int result, heap(cb_buffer self \<mapsto> b), self))
           | Some k \<Rightarrow>
               (case poke b target (take k (take result buf)) of
                  None \<Rightarrow> None
                | Some b \<Rightarrow>
                    Some (- EFAULT, heap(cb_buffer self \<mapsto> b), self\<lparr>cb_pos := target\<rparr>))))"

definition canonbuffer_write :: "realloc_fn \<Rightarrow> (nat \<Rightarrow> nat option) \<Rightarrow> heap \<Rightarrow> canonbuffer \<Rightarrow> byte list
    \<Rightarrow> (int \<times> heap \<times> canonbuffer) option" where
  "canonbuffer_write realloc user heap self buf =
     (let bufsize = length buf;
          target = cb_pos self;
          result = cb_end self - target
      in if result \<ge> bufsize
         then canon_copy user heap (self\<lparr>cb_pos := target + bufsize\<rparr>) buf target bufsize
         else let oldsize = cb_end self;
                  newsize = (if target + bufsize \<ge> U32 then U32 - 1 else target + bufsize);
                  maxsize = cb_maxsize self;
                  newsize = (if newsize \<ge> maxsize then maxsize else newsize)
              in if newsize = oldsize then Some (0, heap, self)
                 else let newsize = min (CEIL_ALIGN newsize 128) maxsize in
                      case realloc heap (cb_buffer self) newsize of
                        None \<Rightarrow> Some (- ENOMEM, heap, self)
                      | Some (newbuf, heap) \<Rightarrow>
                          let self = self\<lparr>cb_buffer := newbuf, cb_end := newsize\<rparr>;
                              result = sub32 (cb_end self) target;
                              result = (if result > bufsize then bufsize else result)
                          in canon_copy user heap (self\<lparr>cb_pos := target + result\<rparr>) buf target result)"

definition canonbuffer_clear :: "canonbuffer \<Rightarrow> nat \<times> canonbuffer" where
  "canonbuffer_clear self = (cb_pos self, self\<lparr>cb_pos := 0\<rparr>)"

text \<open>\<open>new_pos > old_pos || new_pos < cb_buffer\<close>: more is to be erased than there is.\<close>

definition canonbuffer_erase :: "canonbuffer \<Rightarrow> nat \<Rightarrow> nat \<times> canonbuffer" where
  "canonbuffer_erase self mx =
     (let old_pos = cb_pos self;
          new_pos = (if mx > old_pos then 0 else old_pos - mx)
      in (old_pos - new_pos, self\<lparr>cb_pos := new_pos\<rparr>))"

definition canonbuffer_capture :: "canonbuffer \<Rightarrow> canon \<times> canonbuffer" where
  "canonbuffer_capture self =
     (let result = \<lparr>c_data = cb_buffer self, c_size = cb_pos self, c_end = cb_end self\<rparr>
      in (result, self\<lparr>cb_end := 0, cb_pos := 0\<rparr>))"

definition canonbuffer_release :: "heap \<Rightarrow> canonbuffer \<Rightarrow> canon \<Rightarrow> heap \<times> canonbuffer" where
  "canonbuffer_release heap self data =
     (if cb_end self = 0
      then (heap, self\<lparr>cb_buffer := c_data data, cb_pos := 0, cb_end := c_end data\<rparr>)
      else (heap(c_data data := None), self))"

subsection \<open>The text a buffer holds\<close>

definition canon_ok :: "heap \<Rightarrow> canonbuffer \<Rightarrow> bool" where
  "canon_ok heap self =
     (cb_pos self \<le> cb_end self \<and> cb_maxsize self < U32 - 128 \<and>
      (case heap (cb_buffer self) of None \<Rightarrow> cb_end self = 0 | Some b \<Rightarrow> cb_end self \<le> length b))"

definition canon_text :: "heap \<Rightarrow> canonbuffer \<Rightarrow> byte list" where
  "canon_text heap self =
     (case heap (cb_buffer self) of None \<Rightarrow> [] | Some b \<Rightarrow> take (cb_pos self) b)"

text \<open>What \<open>realloc\<close> promises: it succeeds, the block has the new size and the old bytes, and a block that moved is gone.\<close>

definition realloc_ok :: "realloc_fn \<Rightarrow> bool" where
  "realloc_ok re = (\<forall>h p n. \<exists>q h' b'. re h p n = Some (q, h') \<and> h' q = Some b' \<and> length b' = n \<and>
     (\<forall>b. h p = Some b \<longrightarrow> take (min n (length b)) b' = take (min n (length b)) b) \<and>
     (q \<noteq> p \<longrightarrow> h' p = None) \<and> (\<forall>a. a \<noteq> p \<longrightarrow> a \<noteq> q \<longrightarrow> h' a = h a))"

lemma canon_copy_plain:
  assumes "heap (cb_buffer self) = Some b" "user n = None" "target + n \<le> length b" "n \<le> length d"
  shows "canon_copy user heap self d target n
     = Some (int n, heap(cb_buffer self \<mapsto> take target b @ take n d @ drop (target + n) b), self)"
  using assms by (simp add: canon_copy_def poke_def min_def)

lemma canon_copy_text:
  assumes "heap (cb_buffer self) = Some b" "user (length d) = None" "target + length d \<le> cb_end self"
    "cb_end self \<le> length b" "cb_maxsize self < U32 - 128" "cb_pos self = target + length d"
  shows "\<exists>heap'. canon_copy user heap self d target (length d) = Some (int (length d), heap', self) \<and>
    canon_ok heap' self \<and> canon_text heap' self = take target b @ d \<and>
    (\<forall>a. a \<noteq> cb_buffer self \<longrightarrow> heap' a = heap a)"
  using assms canon_copy_plain [of heap self b user "length d" target d]
  by (auto simp: canon_ok_def canon_text_def)

lemma ceil128:
  assumes "n < U32 - 128"
  shows "n \<le> CEIL_ALIGN n 128"
proof -
  have "CEIL_ALIGN n (2 ^ 7) = add32 n (2 ^ 7 - 1) div 2 ^ 7 * 2 ^ 7" by (rule CEIL_ALIGN_pow2) simp
  moreover have "add32 n 127 = n + 127" using assms by (simp add: add32_id)
  ultimately show ?thesis by simp
qed

lemma canon_write_appends:
  assumes ok: "canon_ok heap self" and re: "realloc_ok re" and u: "user (length d) = None"
    and d: "d \<noteq> []" "cb_pos self + length d \<le> cb_maxsize self"
  shows "\<exists>heap' self'. canonbuffer_write re user heap self d = Some (int (length d), heap', self') \<and>
    canon_ok heap' self' \<and> canon_text heap' self' = canon_text heap self @ d"
proof (cases "length d \<le> cb_end self - cb_pos self")
  case True
  then obtain b where b: "heap (cb_buffer self) = Some b" "cb_end self \<le> length b" "cb_pos self \<le> cb_end self"
    "cb_maxsize self < U32 - 128"
    using ok d by (auto simp: canon_ok_def split: option.splits)
  then have "cb_pos self + length d \<le> cb_end self" using True by linarith
  with b show ?thesis
    using True u canon_copy_text [of heap "self\<lparr>cb_pos := cb_pos self + length d\<rparr>" b user d "cb_pos self"]
    by (auto simp: canonbuffer_write_def Let_def canon_text_def)
next
  case False
  let ?t = "cb_pos self + length d"
  let ?n = "min (CEIL_ALIGN ?t 128) (cb_maxsize self)"
  have m: "?t < U32 - 128" "cb_maxsize self < U32 - 128" "cb_pos self \<le> cb_end self" "cb_end self < ?t"
    using ok d False by (auto simp: canon_ok_def)
  have n: "?t \<le> ?n" "?n < U32" using ceil128 [OF m(1)] d m by auto
  obtain q h' b' where r: "re heap (cb_buffer self) ?n = Some (q, h')" "h' q = Some b'" "length b' = ?n"
    "\<forall>b. heap (cb_buffer self) = Some b \<longrightarrow> take (min ?n (length b)) b' = take (min ?n (length b)) b"
    using re unfolding realloc_ok_def by metis
  let ?s = "self\<lparr>cb_buffer := q, cb_end := ?n, cb_pos := ?t\<rparr>"
  have old: "take (cb_pos self) b' = canon_text heap self"
  proof (cases "heap (cb_buffer self)")
    case None
    then show ?thesis using ok by (simp add: canon_ok_def canon_text_def)
  next
    case (Some b)
    then have p: "cb_pos self \<le> min ?n (length b)" using ok n by (auto simp: canon_ok_def)
    have "take (cb_pos self) (take (min ?n (length b)) b') = take (cb_pos self) (take (min ?n (length b)) b)"
      using r(4) Some by simp
    then show ?thesis using p by (simp add: canon_text_def Some min_absorb1)
  qed
  have "cb_pos self \<le> ?n" using n by linarith
  then have sub: "sub32 ?n (cb_pos self) \<ge> length d" unfolding sub32_id [OF \<open>cb_pos self \<le> ?n\<close> n(2)] using n(1) by linarith
  have clip: "(if ?t \<ge> cb_maxsize self then cb_maxsize self else ?t) = ?t" using d by auto
  have w: "canonbuffer_write re user heap self d = canon_copy user h' ?s d (cb_pos self) (length d)"
    using False m r(1) sub clip by (simp add: canonbuffer_write_def Let_def)
  show ?thesis
    unfolding w old [symmetric] using canon_copy_text [of h' ?s b' user d "cb_pos self"] r(2,3) u n(1) m(2) by auto
qed

subsection \<open>Properties\<close>

text \<open>
  C17: A canon buffer holds the text typed so far: a write within the limit appends, enlarging the block when needed,
  erasing removes the last bytes, clearing removes all, and a capture hands out the text and leaves the buffer empty.
\<close>
theorem canonbuffer_holds_text:
  assumes "canon_ok heap self" "realloc_ok re" "user (length d) = None" "d \<noteq> []"
    "cb_pos self + length d \<le> cb_maxsize self"
  shows "(\<exists>heap' self'. canonbuffer_write re user heap self d = Some (int (length d), heap', self') \<and>
      canon_ok heap' self' \<and> canon_text heap' self' = canon_text heap self @ d) \<and>
    (\<exists>self'. canonbuffer_erase self n = (min n (cb_pos self), self') \<and> canon_ok heap self' \<and>
      canon_text heap self' = take (cb_pos self - n) (canon_text heap self)) \<and>
    (\<exists>self'. canonbuffer_clear self = (cb_pos self, self') \<and> canon_ok heap self' \<and> canon_text heap self' = []) \<and>
    (\<exists>c self'. canonbuffer_capture self = (c, self') \<and> canon_ok heap self' \<and> canon_text heap self' = [] \<and>
      (case heap (c_data c) of None \<Rightarrow> [] | Some b \<Rightarrow> take (c_size c) b) = canon_text heap self \<and>
      canonbuffer_release heap self' c = (heap, self\<lparr>cb_pos := 0\<rparr>))"
  using canon_write_appends [of heap self re user d, OF assms] assms(1)
  by (auto simp: canonbuffer_erase_def canonbuffer_clear_def canonbuffer_capture_def canonbuffer_release_def
      Let_def canon_ok_def canon_text_def min_def split: option.splits)

definition moving_realloc :: realloc_fn where
  "moving_realloc h p n = (let b = (case h p of None \<Rightarrow> [] | Some b \<Rightarrow> b) in
     Some (p + 1, (h(p := None))(p + 1 \<mapsto> take n b @ replicate (n - length b) 0)))"

lemma moving_realloc_ok: "realloc_ok moving_realloc"
  by (auto simp: realloc_ok_def moving_realloc_def Let_def min_def split: option.splits)

definition canon_demo :: canonbuffer where
  "canon_demo = \<lparr>cb_maxsize = 512, cb_buffer = 1, cb_end = 4, cb_pos = 3\<rparr>"

lemma canon_demo_ok:
  "canon_ok [1 \<mapsto> [97, 98, 99, 0]] canon_demo" "canon_text [1 \<mapsto> [97, 98, 99, 0]] canon_demo = [97, 98, 99]"
  by (simp_all add: canon_ok_def canon_text_def canon_demo_def)

theorem canonbuffer_holds_text_witness:
  "\<exists>heap' self'. canonbuffer_write moving_realloc (\<lambda>n. None) [1 \<mapsto> [97, 98, 99, 0]] canon_demo [100, 101]
     = Some (2, heap', self') \<and> canon_text heap' self' = [97, 98, 99, 100, 101]"
  using canonbuffer_holds_text [OF canon_demo_ok(1) moving_realloc_ok, of "\<lambda>n. None" "[100, 101]" 0]
  unfolding canon_demo_ok(2) by (auto simp: canon_demo_def simp del: One_nat_def)

text \<open>
  C18: A capture does not give the caller the text for itself. The buffer keeps the captured block, so the next write
  reallocates it: either the caller is left with a freed block, or new text goes into the captured one and the release
  then frees the block the buffer is using.
\<close>
theorem canonbuffer_capture_not_exclusive:
  assumes ok: "canon_ok heap self" and re: "realloc_ok re" and u: "user (length d) = None"
    and d: "d \<noteq> []" "length d \<le> cb_maxsize self"
  shows "\<exists>heap' self'. canonbuffer_write re user heap (snd (canonbuffer_capture self)) d
      = Some (int (length d), heap', self') \<and>
    (let c = fst (canonbuffer_capture self) in
      (c_data c \<noteq> cb_buffer self' \<and> heap' (c_data c) = None) \<or>
      (c_data c = cb_buffer self' \<and> fst (canonbuffer_release heap' self' c) (cb_buffer self') = None))"
proof -
  let ?n = "min (CEIL_ALIGN (length d) 128) (cb_maxsize self)"
  have m: "length d < U32 - 128" using ok d by (simp add: canon_ok_def)
  have n: "length d \<le> ?n" "?n < U32" using ceil128 [OF m] d ok by (auto simp: canon_ok_def)
  obtain q h' b' where r: "re heap (cb_buffer self) ?n = Some (q, h')" "h' q = Some b'" "length b' = ?n"
    "q \<noteq> cb_buffer self \<longrightarrow> h' (cb_buffer self) = None"
    using re unfolding realloc_ok_def by metis
  let ?s = "self\<lparr>cb_buffer := q, cb_end := ?n, cb_pos := length d\<rparr>"
  have sub: "sub32 ?n 0 = ?n" using sub32_id [of 0 ?n] n by simp
  have clip: "(if length d \<ge> cb_maxsize self then cb_maxsize self else length d) = length d" using d by auto
  have clip2: "(if length d < ?n then length d else ?n) = length d" using n(1) by (simp del: min_less_iff_conj min.bounded_iff)
  have cap: "snd (canonbuffer_capture self) = self\<lparr>cb_end := 0, cb_pos := 0\<rparr>"
    by (simp add: canonbuffer_capture_def Let_def)
  have w: "canonbuffer_write re user heap (snd (canonbuffer_capture self)) d
      = canon_copy user h' ?s d 0 (length d)"
    using d(1) m r(1) unfolding cap canonbuffer_write_def Let_def
    by (simp add: sub clip clip2 cong: if_cong split del: if_split del: min_less_iff_conj)
  have z: "?n \<noteq> 0" using n(1) d(1) by (cases d) auto
  obtain h'' where "canon_copy user h' ?s d 0 (length d) = Some (int (length d), h'', ?s)"
    "\<forall>a. a \<noteq> q \<longrightarrow> h'' a = h' a"
    using canon_copy_text [of h' ?s b' user d 0] r(2,3) u n(1) ok by (auto simp: canon_ok_def)
  then show ?thesis
    unfolding w using r(4) z
    by (cases "q = cb_buffer self") (auto simp: canonbuffer_capture_def canonbuffer_release_def Let_def)
qed

theorem canonbuffer_capture_not_exclusive_witness:
  "\<exists>heap' self'. canonbuffer_write moving_realloc (\<lambda>n. None) [1 \<mapsto> [97, 98, 99, 0]]
      (snd (canonbuffer_capture canon_demo)) [120] = Some (1, heap', self')"
  using canonbuffer_capture_not_exclusive [OF canon_demo_ok(1) moving_realloc_ok, of "\<lambda>n. None" "[120]"]
  by (auto simp: canon_demo_def simp del: One_nat_def)

text \<open>
  At its limit the buffer refuses a block that does not fit as a whole: nothing is written although room is left.
\<close>
theorem canonbuffer_write_refuses_rest:
  assumes "cb_end self = cb_maxsize self" "cb_pos self \<le> cb_end self" "cb_maxsize self < U32"
    "cb_end self - cb_pos self < length d"
  shows "canonbuffer_write re user heap self d = Some (0, heap, self)"
  using assms by (auto simp: canonbuffer_write_def Let_def)

theorem canonbuffer_write_refuses_rest_witness:
  "canonbuffer_write moving_realloc (\<lambda>n. None) Map.empty \<lparr>cb_maxsize = 128, cb_buffer = 1, cb_end = 128, cb_pos = 126\<rparr>
     [1, 2, 3] = Some (0, Map.empty, \<lparr>cb_maxsize = 128, cb_buffer = 1, cb_end = 128, cb_pos = 126\<rparr>)"
  by (rule canonbuffer_write_refuses_rest) simp_all

end
