(* ===== verification/Atomic_Iobuffer.thy ===== *)
theory Atomic_Iobuffer
  imports Iobuffer
begin

text \<open>
  The ring for interrupt handlers (\<open>src/src/kernel/fs/atomic-iobuffer.c.inl\<close>), written without a lock. The model is the
  single-processor build with the two functions running one after the other, so each compare-and-exchange meets the
  value read before it; the one that can fail even then (\<open>aib_wpos\<close> against the old \<open>aib_apos\<close>) is kept, with its jump
  back. Positions are offsets into \<open>aib_buffer\<close>, \<open>aib_avail\<close> counts broadcasts, and \<open>user\<close> tells at which transfer
  \<open>copy_to_user\<close> faults (after how many bytes). Waiting for data is the outcome \<open>Aread_wait\<close>; \<open>None\<close> is a read that never
  returns or leaves the block.
\<close>

subsection \<open>The ring and its operations\<close>

record atomic_iobuffer =
  aib_avail :: nat
  aib_size :: nat
  aib_buffer :: "byte list"
  aib_rpos :: nat
  aib_wpos :: nat
  aib_apos :: nat

definition atomic_iobuffer_init_ex :: "byte list \<Rightarrow> nat \<Rightarrow> atomic_iobuffer" where
  "atomic_iobuffer_init_ex buf siz =
     \<lparr>aib_avail = 0, aib_size = siz, aib_buffer = buf, aib_rpos = siz, aib_wpos = 0, aib_apos = 0\<rparr>"

definition ATOMIC_IOBUFFER_MAXREAD :: "atomic_iobuffer \<Rightarrow> nat \<Rightarrow> nat \<Rightarrow> nat" where
  "ATOMIC_IOBUFFER_MAXREAD self rpos apos =
     (if rpos < apos then apos - rpos else aib_size self - (rpos - apos))"

definition ATOMIC_IOBUFFER_MAXWRITE :: "atomic_iobuffer \<Rightarrow> nat \<Rightarrow> nat \<Rightarrow> nat" where
  "ATOMIC_IOBUFFER_MAXWRITE self rpos wpos =
     (if rpos \<ge> wpos then rpos - wpos else aib_size self - (wpos - rpos))"

datatype aread_outcome =
    Aread_done int atomic_iobuffer "byte list"
  | Aread_wait atomic_iobuffer "byte list" nat

text \<open>One transfer of \<open>copy_to_user\<close>, and both transfers of a read.\<close>

definition aread_copy :: "(nat \<Rightarrow> nat \<Rightarrow> nat option) \<Rightarrow> atomic_iobuffer \<Rightarrow> byte list \<Rightarrow> nat \<Rightarrow> nat
    \<Rightarrow> (bool \<times> byte list) option" where
  "aread_copy user self out pos n =
     (case peek (aib_buffer self) pos n of
        None \<Rightarrow> None
      | Some bs \<Rightarrow> (case user (length out) n of
                      None \<Rightarrow> Some (False, out @ bs)
                    | Some k \<Rightarrow> Some (True, out @ take k bs)))"

definition aread_take :: "(nat \<Rightarrow> nat \<Rightarrow> nat option) \<Rightarrow> atomic_iobuffer \<Rightarrow> byte list \<Rightarrow> nat
    \<Rightarrow> (bool \<times> byte list \<times> nat) option" where
  "aread_take user self out bufavail =
     (let old_rpos = aib_rpos self;
          high_copy = aib_size self - old_rpos
      in if high_copy \<ge> bufavail
         then (case aread_copy user self out old_rpos bufavail of
                 None \<Rightarrow> None
               | Some (fault, out) \<Rightarrow> Some (fault, out, old_rpos + bufavail))
         else let low_copy = bufavail - high_copy in
              case aread_copy user self out old_rpos high_copy of
                None \<Rightarrow> None
              | Some (True, out) \<Rightarrow> Some (True, out, 0)
              | Some (False, out) \<Rightarrow>
                  (case aread_copy user self out 0 low_copy of
                     None \<Rightarrow> None
                   | Some (fault, out) \<Rightarrow> Some (fault, out, low_copy)))"

partial_function (option) aread_loop :: "(nat \<Rightarrow> nat \<Rightarrow> nat option) \<Rightarrow> bool \<Rightarrow> atomic_iobuffer \<Rightarrow> byte list
    \<Rightarrow> nat \<Rightarrow> nat \<Rightarrow> aread_outcome option" where
  "aread_loop user blocking self out bufsiz result =
     (if bufsiz = 0 then Some (Aread_done (int result) self out)
      else let old_apos = aib_apos self;
               bufavail = min (ATOMIC_IOBUFFER_MAXREAD self (aib_rpos self) old_apos) bufsiz
           in if bufavail = 0
              then if result \<noteq> 0 \<or> \<not> blocking then Some (Aread_done (int result) self out)
                   else Some (Aread_wait self out bufsiz)
              else Option.bind (aread_take user self (take result out) bufavail) (\<lambda>(fault, out, new_rpos).
                if fault then Some (Aread_done (- EFAULT) self out)
                else if new_rpos = old_apos
                then let self = self\<lparr>aib_apos := 0\<rparr> in
                     if aib_wpos self \<noteq> old_apos then aread_loop user blocking self out bufsiz result
                     else aread_loop user blocking
                            (self\<lparr>aib_wpos := 0, aib_rpos := aib_size self\<rparr>) out
                            (bufsiz - bufavail) (result + bufavail)
                else aread_loop user blocking (self\<lparr>aib_rpos := new_rpos\<rparr>) out
                       (bufsiz - bufavail) (result + bufavail)))"

definition atomic_iobuffer_read :: "(nat \<Rightarrow> nat \<Rightarrow> nat option) \<Rightarrow> bool \<Rightarrow> atomic_iobuffer \<Rightarrow> nat
    \<Rightarrow> aread_outcome option" where
  "atomic_iobuffer_read user blocking self bufsiz = aread_loop user blocking self [] bufsiz 0"

text \<open>\<open>memcpy\<close> into the block, and one round of the write loop.\<close>

definition memcpy_at :: "byte list \<Rightarrow> nat \<Rightarrow> byte list \<Rightarrow> byte list" where
  "memcpy_at buf pos bs = take pos buf @ bs @ drop (pos + length bs) buf"

definition kwrite_step :: "atomic_iobuffer \<Rightarrow> byte list \<Rightarrow> nat \<Rightarrow> atomic_iobuffer" where
  "kwrite_step self buf bufavail =
     (let old_wpos = aib_wpos self;
          high_copy = min (aib_size self - old_wpos) bufavail;
          new_wpos = old_wpos + high_copy;
          new_wpos = (if new_wpos > aib_size self then new_wpos - aib_size self else new_wpos);
          self = self\<lparr>aib_wpos := new_wpos\<rparr>;
          self = self\<lparr>aib_buffer := memcpy_at (aib_buffer self) old_wpos (take high_copy buf)\<rparr>;
          self = self\<lparr>aib_buffer := memcpy_at (aib_buffer self) 0
                   (take (bufavail - high_copy) (drop high_copy buf))\<rparr>;
          must_signal = (ATOMIC_IOBUFFER_MAXREAD self (aib_rpos self) (aib_apos self) = 0);
          self = self\<lparr>aib_apos := new_wpos\<rparr>
      in if must_signal then self\<lparr>aib_avail := aib_avail self + 1\<rparr> else self)"

function kwrite_loop :: "atomic_iobuffer \<Rightarrow> byte list \<Rightarrow> nat \<Rightarrow> nat \<times> atomic_iobuffer" where
  "kwrite_loop self buf result =
     (if buf = [] then (result, self)
      else let bufavail = ATOMIC_IOBUFFER_MAXWRITE self (aib_rpos self) (aib_wpos self) in
           if bufavail = 0 then (result, self)
           else let bufavail = min bufavail (length buf)
                in kwrite_loop (kwrite_step self buf bufavail) (drop bufavail buf) (result + bufavail))"
  by pat_completeness auto
termination
  by (relation "measure (\<lambda>(self, buf, result). length buf)") auto

definition atomic_iobuffer_kwrite :: "atomic_iobuffer \<Rightarrow> byte list \<Rightarrow> nat \<times> atomic_iobuffer" where
  "atomic_iobuffer_kwrite self buf = kwrite_loop self buf 0"

declare kwrite_loop.simps [simp del]

subsection \<open>The queue a ring stands for\<close>

definition aib_ok :: "atomic_iobuffer \<Rightarrow> bool" where
  "aib_ok self = (length (aib_buffer self) = aib_size self \<and> aib_rpos self \<le> aib_size self \<and>
     aib_wpos self \<le> aib_size self \<and> aib_apos self = aib_wpos self)"

definition aib_queue :: "atomic_iobuffer \<Rightarrow> byte list" where
  "aib_queue self =
     (if aib_rpos self < aib_wpos self
      then take (aib_wpos self - aib_rpos self) (drop (aib_rpos self) (aib_buffer self))
      else drop (aib_rpos self) (aib_buffer self) @ take (aib_wpos self) (aib_buffer self))"

lemma aib_length:
  "aib_ok self \<Longrightarrow> ATOMIC_IOBUFFER_MAXREAD self (aib_rpos self) (aib_wpos self) = length (aib_queue self)"
  by (auto simp: aib_ok_def aib_queue_def ATOMIC_IOBUFFER_MAXREAD_def)

lemma aib_room:
  "aib_ok self \<Longrightarrow> ATOMIC_IOBUFFER_MAXWRITE self (aib_rpos self) (aib_wpos self)
     = aib_size self - length (aib_queue self)"
  by (auto simp: aib_ok_def aib_queue_def ATOMIC_IOBUFFER_MAXWRITE_def)

lemma kwrite_step_straight:
  assumes ok: "aib_ok self" and n: "n \<le> length d" "0 < n"
    and fit: "aib_wpos self + n \<le> aib_size self"
    and room: "aib_wpos self \<le> aib_rpos self \<Longrightarrow> aib_wpos self + n \<le> aib_rpos self"
  shows "aib_ok (kwrite_step self d n) \<and> aib_size (kwrite_step self d n) = aib_size self \<and>
    aib_rpos (kwrite_step self d n) = aib_rpos self \<and> aib_wpos (kwrite_step self d n) = aib_wpos self + n \<and>
    aib_queue (kwrite_step self d n) = aib_queue self @ take n d"
proof -
  have m: "min (aib_size self - aib_wpos self) n = n" using fit by simp
  have b: "length (aib_buffer self) = aib_size self" "aib_apos self = aib_wpos self" "aib_rpos self \<le> aib_size self"
    using ok by (auto simp: aib_ok_def)
  define s where "s = self\<lparr>aib_buffer := memcpy_at (aib_buffer self) (aib_wpos self) (take n d),
    aib_wpos := aib_wpos self + n, aib_apos := aib_wpos self + n\<rparr>"
  have e: "kwrite_step self d n = s \<or> kwrite_step self d n = s\<lparr>aib_avail := aib_avail s + 1\<rparr>"
    using fit by (auto simp: kwrite_step_def Let_def m s_def memcpy_at_def)
  have "aib_ok s" "aib_size s = aib_size self" "aib_rpos s = aib_rpos self" "aib_wpos s = aib_wpos self + n"
    using ok n fit by (auto simp: aib_ok_def s_def memcpy_at_def)
  moreover have "aib_queue s = aib_queue self @ take n d"
  proof (cases "aib_rpos self < aib_wpos self")
    case True
    then show ?thesis using b(1) n fit by (simp add: aib_queue_def s_def memcpy_at_def drop_take)
  next
    case False
    then have "aib_wpos self + n \<le> aib_rpos self" using room by simp
    with False show ?thesis using b(1) n fit by (simp add: aib_queue_def s_def memcpy_at_def)
  qed
  ultimately show ?thesis using e by (auto simp: aib_ok_def aib_queue_def)
qed


lemma kwrite_loop_full:
  "ATOMIC_IOBUFFER_MAXWRITE self (aib_rpos self) (aib_wpos self) = 0 \<Longrightarrow> kwrite_loop self d k = (k, self)"
  by (simp add: kwrite_loop.simps)

text \<open>The write does not have to wrap around the end of the block.\<close>

definition straight :: "atomic_iobuffer \<Rightarrow> nat \<Rightarrow> bool" where
  "straight self n =
     (aib_wpos self \<le> aib_rpos self \<or> aib_wpos self + n \<le> aib_size self \<or> aib_rpos self = 0)"

lemma kwrite_straight:
  assumes ok: "aib_ok self" and st: "straight self (length d)"
  shows "\<exists>self'. atomic_iobuffer_kwrite self d
      = (min (length d) (aib_size self - length (aib_queue self)), self') \<and> aib_ok self' \<and>
      aib_size self' = aib_size self \<and>
      aib_queue self' = aib_queue self @ take (aib_size self - length (aib_queue self)) d"
proof -
  let ?m = "ATOMIC_IOBUFFER_MAXWRITE self (aib_rpos self) (aib_wpos self)"
  have m: "?m = aib_size self - length (aib_queue self)" by (rule aib_room [OF ok])
  show ?thesis
  proof (cases "d = [] \<or> ?m = 0")
    case True
    then show ?thesis using ok m
      by (auto simp: atomic_iobuffer_kwrite_def kwrite_loop.simps)
  next
    case False
    let ?n = "min ?m (length d)" and ?s = "kwrite_step self d (min ?m (length d))"
    have w: "aib_wpos self \<le> aib_size self" "aib_rpos self \<le> aib_size self" using ok by (auto simp: aib_ok_def)
    have n: "?n \<le> length d" "0 < ?n" using False by auto
    have f: "aib_wpos self + ?n \<le> aib_size self"
      using st w n by (auto simp: straight_def ATOMIC_IOBUFFER_MAXWRITE_def min_def)
    have r: "aib_wpos self + ?n \<le> aib_rpos self" if "aib_wpos self \<le> aib_rpos self"
      using that by (auto simp: ATOMIC_IOBUFFER_MAXWRITE_def min_def)
    note s = kwrite_step_straight [OF ok n f r]
    have q: "take ?n d = take ?m d" by (simp add: min_def)
    have l: "atomic_iobuffer_kwrite self d = kwrite_loop ?s (drop ?n d) ?n"
      using False by (simp add: atomic_iobuffer_kwrite_def kwrite_loop.simps [of self] Let_def)
    have "kwrite_loop ?s (drop ?n d) ?n = (?n, ?s)"
    proof (cases "length d \<le> ?m")
      case True
      then show ?thesis by (simp add: kwrite_loop.simps)
    next
      case long: False
      have "length (aib_queue ?s) = aib_size self" "aib_ok ?s" "aib_size ?s = aib_size self"
        using s long m False by (auto simp: min_def)
      then show ?thesis by (intro kwrite_loop_full) (simp add: aib_room)
    qed
    with l s show ?thesis unfolding q by (intro exI [of _ ?s]) (simp add: m min.commute)
  qed
qed

lemma kwrite_wrapping_step:
  assumes ok: "aib_ok self" and lin: "aib_rpos self < aib_wpos self"
    and d: "aib_size self - aib_wpos self < length d" "length d \<le> aib_size self - length (aib_queue self)"
  shows "\<exists>self'. atomic_iobuffer_kwrite self d = (length d, self') \<and>
      aib_queue self' = aib_queue self @ take (aib_size self - aib_wpos self) d"
proof -
  let ?n = "length d" and ?h = "aib_size self - aib_wpos self"
  have b: "length (aib_buffer self) = aib_size self" "aib_wpos self \<le> aib_size self" using ok by (auto simp: aib_ok_def)
  have ne: "d \<noteq> []" using d(1) by auto
  have q: "length (aib_queue self) = aib_wpos self - aib_rpos self" using lin b by (simp add: aib_queue_def)
  have r: "?n - ?h \<le> aib_rpos self" using d q lin b by linarith
  have h: "min ?h ?n = ?h" "aib_wpos self + ?h = aib_size self" using d b by auto
  define s where "s = self\<lparr>aib_buffer := drop ?h d @ drop (?n - ?h) (take (aib_wpos self) (aib_buffer self) @ take ?h d),
    aib_wpos := aib_size self, aib_apos := aib_size self\<rparr>"
  have e: "kwrite_step self d ?n = s \<or> kwrite_step self d ?n = s\<lparr>aib_avail := aib_avail s + 1\<rparr>"
    using b d by (auto simp: kwrite_step_def Let_def h s_def memcpy_at_def)
  have "aib_queue s = aib_queue self @ take ?h d"
    using b lin r d by (simp add: s_def aib_queue_def drop_take)
  then have "aib_queue (kwrite_step self d ?n) = aib_queue self @ take ?h d"
    using e by (auto simp: aib_queue_def)
  moreover have "atomic_iobuffer_kwrite self d = (?n, kwrite_step self d ?n)"
    using d aib_room [OF ok] ne
    by (simp add: atomic_iobuffer_kwrite_def kwrite_loop.simps [of self] kwrite_loop.simps [of _ "[]"] Let_def)
  ultimately show ?thesis by simp
qed


lemma aread_copy_plain:
  "\<forall>p n. user p n = None \<Longrightarrow> pos + n \<le> length (aib_buffer self) \<Longrightarrow>
   aread_copy user self out pos n = Some (False, out @ take n (drop pos (aib_buffer self)))"
  by (simp add: aread_copy_def peek_def)

lemma aread_take_plain:
  assumes ok: "aib_ok self" and u: "\<forall>p n. user p n = None" and k: "0 < k" "k \<le> length (aib_queue self)"
  shows "\<exists>new. aread_take user self out k = Some (False, out @ take k (aib_queue self), new) \<and> new \<le> aib_size self \<and>
     (if new = aib_wpos self then k = length (aib_queue self)
      else aib_queue (self\<lparr>aib_rpos := new\<rparr>) = drop k (aib_queue self))"
proof -
  have b: "length (aib_buffer self) = aib_size self" "aib_rpos self \<le> aib_size self" "aib_wpos self \<le> aib_size self"
    using ok by (auto simp: aib_ok_def)
  show ?thesis
  proof (cases "aib_rpos self < aib_wpos self")
    case True
    have kk: "aib_rpos self + k \<le> aib_wpos self" using True b k by (simp add: aib_queue_def)
    have h: "k \<le> aib_size self - aib_rpos self" using kk b by linarith
    have "aread_take user self out k
        = Some (False, out @ take k (drop (aib_rpos self) (aib_buffer self)), aib_rpos self + k)"
      using aread_copy_plain [OF u, of "aib_rpos self" k self out] b h kk by (simp add: aread_take_def Let_def)
    then show ?thesis using True kk b
      by (auto simp: aib_queue_def min_def drop_take add.commute)
  next
    case False
    show ?thesis
    proof (cases "k \<le> aib_size self - aib_rpos self")
      case True
      have "aread_take user self out k
          = Some (False, out @ take k (drop (aib_rpos self) (aib_buffer self)), aib_rpos self + k)"
        using aread_copy_plain [OF u, of "aib_rpos self" k self out] b True by (simp add: aread_take_def Let_def)
      then show ?thesis using True False b k by (simp add: aib_queue_def add.commute)
    next
      case low: False
      let ?l = "k - (aib_size self - aib_rpos self)"
      have l: "?l \<le> aib_wpos self" using k False b by (simp add: aib_queue_def)
      have "aread_take user self out k
          = Some (False, out @ drop (aib_rpos self) (aib_buffer self) @ take ?l (aib_buffer self), ?l)"
        using aread_copy_plain [OF u, of "aib_rpos self" "aib_size self - aib_rpos self" self out]
          aread_copy_plain [OF u, of 0 ?l self "out @ drop (aib_rpos self) (aib_buffer self)"] b low l
        by (simp add: aread_take_def Let_def)
      then show ?thesis using False low l b
        by (auto simp: aib_queue_def min_def drop_take)
    qed
  qed
qed

lemma aread_loop_done:
  assumes "aib_ok self" "n = 0 \<or> aib_queue self = [] \<and> (res \<noteq> 0 \<or> \<not> blocking)"
  shows "aread_loop user blocking self out n res = Some (Aread_done (int res) self out)"
proof -
  have "aib_apos self = aib_wpos self" using assms(1) by (simp add: aib_ok_def)
  then show ?thesis
    using assms(2) aib_length [OF assms(1)]
    by (subst aread_loop.simps) (auto simp: Let_def)
qed

lemma aread_correct:
  assumes ok: "aib_ok self" and u: "\<forall>p n. user p n = None" and go: "n = 0 \<or> aib_queue self \<noteq> [] \<or> \<not> blocking"
  shows "\<exists>self'. atomic_iobuffer_read user blocking self n
      = Some (Aread_done (int (min n (length (aib_queue self)))) self' (take n (aib_queue self))) \<and>
      aib_ok self' \<and> aib_size self' = aib_size self \<and> aib_queue self' = drop n (aib_queue self)"
proof (cases "n = 0 \<or> aib_queue self = []")
  case True
  then show ?thesis using aread_loop_done [OF ok, of n 0 blocking user "[]"] go ok
    by (auto simp: atomic_iobuffer_read_def)
next
  case False
  define k where "k = min (length (aib_queue self)) n"
  have k: "0 < k" "k \<le> length (aib_queue self)" using False by (auto simp: k_def)
  obtain new where t: "aread_take user self [] k = Some (False, take k (aib_queue self), new)"
    "new \<le> aib_size self" "if new = aib_wpos self then k = length (aib_queue self)
      else aib_queue (self\<lparr>aib_rpos := new\<rparr>) = drop k (aib_queue self)"
    using aread_take_plain [OF ok u k, of "[]"] by auto
  have a: "aib_apos self = aib_wpos self" using ok by (simp add: aib_ok_def)
  define s where "s = (if new = aib_wpos self
    then self\<lparr>aib_apos := 0, aib_wpos := 0, aib_rpos := aib_size self\<rparr> else self\<lparr>aib_rpos := new\<rparr>)"
  have dk: "drop k (aib_queue self) = drop n (aib_queue self)" by (simp add: k_def min_def)
  have z: "aib_queue (self\<lparr>aib_apos := 0, aib_wpos := 0, aib_rpos := aib_size self\<rparr>) = []"
    using ok by (simp add: aib_queue_def aib_ok_def)
  have q: "aib_queue s = drop n (aib_queue self)"
    using t(3) z unfolding s_def dk by (auto simp: k_def split: if_splits)
  have s: "aib_ok s" "aib_size s = aib_size self"
    using ok t(2) by (auto simp: s_def aib_ok_def)
  have tk: "take k (aib_queue self) = take n (aib_queue self)" by (simp add: k_def min_def)
  have "aread_loop user blocking self [] n 0
      = aread_loop user blocking s (take n (aib_queue self)) (n - k) k"
    using False aib_length [OF ok] k t(1)
    by (subst aread_loop.simps) (auto simp: Let_def a s_def tk simp flip: k_def)
  moreover have "n - k = 0 \<or> aib_queue s = [] \<and> (k \<noteq> 0 \<or> \<not> blocking)" using q k by (auto simp: k_def)
  ultimately show ?thesis
    using aread_loop_done [OF s(1)] q s by (auto simp: atomic_iobuffer_read_def k_def min.commute)
qed

subsection \<open>Properties\<close>

text \<open>
  C19: The interrupt-safe ring is a queue as long as no write wraps around the end of its block: a read returns and
  removes the oldest bytes, and such a write appends as many bytes as there is room for.
\<close>
theorem atomic_iobuffer_queue:
  assumes "aib_ok self" "\<forall>p n. user p n = None" "n = 0 \<or> aib_queue self \<noteq> [] \<or> \<not> blocking"
    "straight self (length d)"
  shows "(\<exists>self'. atomic_iobuffer_read user blocking self n
      = Some (Aread_done (int (min n (length (aib_queue self)))) self' (take n (aib_queue self))) \<and>
      aib_ok self' \<and> aib_size self' = aib_size self \<and> aib_queue self' = drop n (aib_queue self)) \<and>
    (\<exists>self'. atomic_iobuffer_kwrite self d
      = (min (length d) (aib_size self - length (aib_queue self)), self') \<and> aib_ok self' \<and>
      aib_size self' = aib_size self \<and>
      aib_queue self' = aib_queue self @ take (aib_size self - length (aib_queue self)) d)"
  by (rule conjI [OF aread_correct [OF assms(1,2,3)] kwrite_straight [OF assms(1,4)]])

definition aib_at :: "byte list \<Rightarrow> nat \<Rightarrow> nat \<Rightarrow> atomic_iobuffer" where
  "aib_at b r w = (atomic_iobuffer_init_ex b (length b))\<lparr>aib_rpos := r, aib_wpos := w, aib_apos := w\<rparr>"

lemmas aib_at_defs = aib_at_def atomic_iobuffer_init_ex_def aib_ok_def aib_queue_def straight_def

theorem atomic_iobuffer_queue_witness:
  "(\<exists>self'. atomic_iobuffer_read (\<lambda>p n. None) True (aib_at [3, 9, 1, 2] 2 1) 7 = Some (Aread_done 3 self' [1, 2, 3])) \<and>
   (\<exists>self'. atomic_iobuffer_kwrite (aib_at [3, 9, 1, 2] 2 1) [4, 5] = (1, self') \<and> aib_queue self' = [1, 2, 3, 4])"
proof -
  have h: "aib_ok (aib_at [3, 9, 1, 2] 2 1)" "aib_queue (aib_at [3, 9, 1, 2] 2 1) = [1, 2, 3]"
    "aib_size (aib_at [3, 9, 1, 2] 2 1) = 4" "straight (aib_at [3, 9, 1, 2] 2 1) (length [4, 5 :: byte])"
    by (simp_all add: aib_at_defs)
  have u: "\<forall>(p :: nat) (n :: nat). (\<lambda>p n. None :: nat option) p n = None" by simp
  from atomic_iobuffer_queue [OF h(1) u _ h(4), of 7 True] show ?thesis
    by (auto simp: h(2,3) take_Cons' simp del: One_nat_def)
qed

text \<open>
  C20: A write that has to wrap around the end of the block reports every byte as written, but the bytes after the wrap
  can never be read: the write position is left at the end of the block.
\<close>
theorem atomic_iobuffer_wrap_loses:
  assumes "aib_ok self" "aib_rpos self < aib_wpos self"
    "aib_size self - aib_wpos self < length d" "length d \<le> aib_size self - length (aib_queue self)"
  shows "\<exists>self'. atomic_iobuffer_kwrite self d = (length d, self') \<and>
      aib_queue self' = aib_queue self @ take (aib_size self - aib_wpos self) d"
  by (rule kwrite_wrapping_step [OF assms])

theorem atomic_iobuffer_wrap_loses_witness:
  "\<exists>self'. atomic_iobuffer_kwrite (aib_at [0, 0, 1, 0] 2 3) [2, 3, 4] = (3, self') \<and> aib_queue self' = [1, 2]"
proof -
  have h: "aib_ok (aib_at [0, 0, 1, 0] 2 3)" "aib_queue (aib_at [0, 0, 1, 0] 2 3) = [1]"
    "aib_size (aib_at [0, 0, 1, 0] 2 3) = 4" "aib_wpos (aib_at [0, 0, 1, 0] 2 3) = 3"
    "aib_rpos (aib_at [0, 0, 1, 0] 2 3) = 2"
    by (simp_all add: aib_at_defs)
  from atomic_iobuffer_wrap_loses [OF h(1), of "[2, 3, 4]"] show ?thesis by (auto simp: h)
qed

end
